(* ===== verification/Prelude.thy ===== *)
theory Prelude
  imports Main "HOL-Library.Char_ord" "HOL-Library.List_Lexorder"
begin

text \<open>
  Shared vocabulary of the development: the outcome of a stateful step of the library (a
  normal return, a thrown exception, a violated assertion, or not enough fuel), the
  sequencing of such steps, C++ scope guards, a small calculus of postconditions, and the
  generic list lemmas several components use.
\<close>

subsection \<open>Named collections\<close>

named_theorems ctx_simps \<open>unfolding rules of the operations on a parse context\<close>
named_theorems post_intros \<open>introduction rules for postconditions of outcomes\<close>

subsection \<open>Outcomes of stateful code\<close>

text \<open>
  \<open>Ret a s\<close>: the code returned \<open>a\<close> in state \<open>s\<close>. \<open>Throw e s\<close>: an exception \<open>e\<close> left
  the code, the state at that moment being \<open>s\<close>. \<open>Fault\<close>: an \<open>assert\<close> of the source failed
  (or the code did what the assertion excludes, such as using a null pointer). \<open>Diverge\<close>:
  the fuel of the model ran out before the code returned.
\<close>

datatype ('s, 'e, 'a) outcome = Ret 'a 's | Throw 'e 's | Fault | Diverge

fun bind_o :: "('s, 'e, 'a) outcome \<Rightarrow> ('a \<Rightarrow> 's \<Rightarrow> ('s, 'e, 'b) outcome) \<Rightarrow> ('s, 'e, 'b) outcome" where
  "bind_o (Ret a s) f = f a s"
| "bind_o (Throw e s) f = Throw e s"
| "bind_o Fault f = Fault"
| "bind_o Diverge f = Diverge"

text \<open>
  \<open>ScopeGuard\<close> (\<open>ParserFwd.h\<close>): the clean-up runs when the scope is left, by a return or by
  an exception; the result or the exception then continues.
\<close>

fun scope_guard :: "('s \<Rightarrow> ('s, 'e, unit) outcome) \<Rightarrow> ('s, 'e, 'a) outcome \<Rightarrow> ('s, 'e, 'a) outcome" where
  "scope_guard cleanup (Ret a s) = bind_o (cleanup s) (\<lambda>_ s'. Ret a s')"
| "scope_guard cleanup (Throw e s) = bind_o (cleanup s) (\<lambda>_ s'. Throw e s')"
| "scope_guard cleanup Fault = Fault"
| "scope_guard cleanup Diverge = Diverge"

text \<open>As a case distinction, which evaluation enters only once the scrutinee is known.\<close>

lemma bind_o_case [code_unfold]:
  "bind_o m f = (case m of Ret a s \<Rightarrow> f a s | Throw e s \<Rightarrow> Throw e s | Fault \<Rightarrow> Fault | Diverge \<Rightarrow> Diverge)"
  by (cases m) simp_all

lemma bind_o_assoc: "bind_o (bind_o m f) g = bind_o m (\<lambda>a s. bind_o (f a s) g)"
  by (cases m) simp_all

lemma bind_o_eq_Ret:
  "bind_o m f = Ret b t \<longleftrightarrow> (\<exists>a s. m = Ret a s \<and> f a s = Ret b t)"
  by (cases m) simp_all

lemma bind_o_eq_Throw:
  "bind_o m f = Throw e t \<longleftrightarrow> m = Throw e t \<or> (\<exists>a s. m = Ret a s \<and> f a s = Throw e t)"
  by (cases m) simp_all

subsection \<open>Postconditions\<close>

text \<open>
  \<open>post m Q E\<close>: if \<open>m\<close> returns, the value and state satisfy \<open>Q\<close>; if it throws, they
  satisfy \<open>E\<close>; and no assertion fails.
\<close>

definition post ::
  "('s, 'e, 'a) outcome \<Rightarrow> ('a \<Rightarrow> 's \<Rightarrow> bool) \<Rightarrow> ('e \<Rightarrow> 's \<Rightarrow> bool) \<Rightarrow> bool" where
  "post m Q E = (case m of Ret a s \<Rightarrow> Q a s | Throw e s \<Rightarrow> E e s | Fault \<Rightarrow> False | Diverge \<Rightarrow> True)"

lemma post_simps [simp]:
  "post (Ret a s) Q E = Q a s"
  "post (Throw e s) Q E = E e s"
  "post Fault Q E = False"
  "post Diverge Q E = True"
  by (simp_all add: post_def)

lemma post_bind [post_intros]:
  "post m (\<lambda>a s. post (f a s) Q E) E \<Longrightarrow> post (bind_o m f) Q E"
  by (cases m) simp_all

lemma post_mono:
  "post m Q E \<Longrightarrow> (\<And>a s. Q a s \<Longrightarrow> Q' a s) \<Longrightarrow> (\<And>e s. E e s \<Longrightarrow> E' e s) \<Longrightarrow> post m Q' E'"
  by (cases m) simp_all

lemma post_guard [post_intros]:
  "post m (\<lambda>a s. post (g s) (\<lambda>_ s'. Q a s') (\<lambda>e s'. E e s'))
          (\<lambda>e s. post (g s) (\<lambda>_ s'. E e s') (\<lambda>e s'. E e s')) \<Longrightarrow>
   post (scope_guard g m) Q E"
  by (cases m) (auto intro: post_bind)

lemma post_RetD: "post m Q E \<Longrightarrow> m = Ret a s \<Longrightarrow> Q a s"
  by simp

lemma post_ThrowD: "post m Q E \<Longrightarrow> m = Throw e s \<Longrightarrow> E e s"
  by simp

lemma post_not_Fault: "post m Q E \<Longrightarrow> m \<noteq> Fault"
  by auto

text \<open>\<open>rets m P\<close>: \<open>m\<close> returns, and what it returns satisfies \<open>P\<close> (total correctness).\<close>

definition rets :: "('s, 'e, 'a) outcome \<Rightarrow> ('a \<Rightarrow> 's \<Rightarrow> bool) \<Rightarrow> bool" where
  "rets m P = (case m of Ret a s \<Rightarrow> P a s | _ \<Rightarrow> False)"

lemma rets_simps [simp]:
  "rets (Ret a s) P = P a s"
  "rets (Throw e s) P = False"
  "rets Fault P = False"
  "rets Diverge P = False"
  by (simp_all add: rets_def)

lemma rets_bindI: "rets m Q \<Longrightarrow> (\<And>a s. Q a s \<Longrightarrow> rets (f a s) P) \<Longrightarrow> rets (bind_o m f) P"
  by (cases m) simp_all

lemma rets_mono: "rets m P \<Longrightarrow> (\<And>a s. P a s \<Longrightarrow> Q a s) \<Longrightarrow> rets m Q"
  by (cases m) simp_all

lemma rets_post: "rets m P \<Longrightarrow> post m Q E \<Longrightarrow> rets m (\<lambda>a s. Q a s \<and> P a s)"
  by (cases m) simp_all

lemma rets_guard: "rets m (\<lambda>a s. rets (g s) (\<lambda>_. P a)) \<Longrightarrow> rets (scope_guard g m) P"
  by (cases m) (auto intro: rets_bindI)

lemma rets_iff: "rets m P \<longleftrightarrow> (\<exists>a s. m = Ret a s \<and> P a s)"
  by (cases m) simp_all

text \<open>
  \<open>yields t m Q\<close>: \<open>m\<close> returns with \<open>Q\<close>, unless the fuel gave out, which counts as a failure if
  \<open>t\<close>: partial and total correctness in one. \<open>throws t m\<close>: an exception leaves \<open>m\<close>, likewise.
\<close>

definition yields :: "bool \<Rightarrow> ('s, 'e, 'a) outcome \<Rightarrow> ('a \<Rightarrow> 's \<Rightarrow> bool) \<Rightarrow> bool" where
  "yields t m Q = (case m of Ret a s \<Rightarrow> Q a s | Throw e s \<Rightarrow> False | Fault \<Rightarrow> False | Diverge \<Rightarrow> \<not> t)"

definition throws :: "bool \<Rightarrow> ('s, 'e, 'a) outcome \<Rightarrow> bool" where
  "throws t m = (case m of Ret a s \<Rightarrow> False | Throw e s \<Rightarrow> True | Fault \<Rightarrow> False | Diverge \<Rightarrow> \<not> t)"

lemma yields_simps [simp]:
  "yields t (Ret a s) Q = Q a s" "yields t (Throw e s) Q = False" "yields t Fault Q = False" "yields t Diverge Q = (\<not> t)"
  by (simp_all add: yields_def)

lemma throws_simps [simp]:
  "throws t (Ret a s) = False" "throws t (Throw e s) = True" "throws t Fault = False" "throws t Diverge = (\<not> t)"
  by (simp_all add: throws_def)

lemma yields_partial: "yields False m Q = post m Q (\<lambda>_ _. False)"
  by (cases m) simp_all

lemma yields_total: "yields True m Q = rets m Q"
  by (cases m) simp_all

lemma rets_imp_post: "rets m Q \<Longrightarrow> post m Q E"
  by (cases m) simp_all

lemma rets_yields: "rets m Q \<Longrightarrow> yields t m Q"
  by (cases m) simp_all

lemma yields_bindI: "yields t m Q \<Longrightarrow> (\<And>a s. Q a s \<Longrightarrow> yields t (f a s) P) \<Longrightarrow> yields t (bind_o m f) P"
  by (cases m) simp_all

lemma throws_bindI: "throws t m \<Longrightarrow> throws t (bind_o m f)"
  by (cases m) simp_all

lemma throws_bind: "yields t m Q \<Longrightarrow> (\<And>a s. Q a s \<Longrightarrow> throws t (f a s)) \<Longrightarrow> throws t (bind_o m f)"
  by (cases m) simp_all

lemma yields_mono: "yields t m P \<Longrightarrow> (\<And>a s. P a s \<Longrightarrow> Q a s) \<Longrightarrow> yields t m Q"
  by (cases m) simp_all

lemma yields_post: "yields t m P \<Longrightarrow> post m Q E \<Longrightarrow> yields t m (\<lambda>a s. P a s \<and> Q a s)"
  by (cases m) simp_all

lemma yields_conj: "yields t m P \<Longrightarrow> yields t m Q \<Longrightarrow> yields t m (\<lambda>a s. P a s \<and> Q a s)"
  by (cases m) simp_all

lemma yields_guard: "yields t m (\<lambda>a s. yields t (g s) (\<lambda>_. P a)) \<Longrightarrow> yields t (scope_guard g m) P"
  by (cases m) (auto intro: yields_bindI)

lemma throws_guard: "throws t m \<Longrightarrow> post m (\<lambda>_ _. True) (\<lambda>e s. rets (g s) (\<lambda>_ _. True)) \<Longrightarrow> throws t (scope_guard g m)"
  by (cases m) (auto simp: rets_iff)

text \<open>\<open>m\<close> and \<open>m'\<close> agree as far as the fuel of \<open>m\<close> went.\<close>

definition le_o :: "('s, 'e, 'a) outcome \<Rightarrow> ('s, 'e, 'a) outcome \<Rightarrow> bool" where
  "le_o m m' \<longleftrightarrow> m = Diverge \<or> m = m'"

lemma le_o_refl [simp, intro]: "le_o m m"
  by (simp add: le_o_def)

lemma le_o_Diverge [simp]: "le_o Diverge m"
  by (simp add: le_o_def)

lemma le_o_trans: "le_o a b \<Longrightarrow> le_o b c \<Longrightarrow> le_o a c"
  by (auto simp: le_o_def)

lemma le_o_bind: "le_o m m' \<Longrightarrow> (\<And>a s. le_o (f a s) (f' a s)) \<Longrightarrow> le_o (bind_o m f) (bind_o m' f')"
  unfolding le_o_def by (cases m; cases m') auto

lemma le_o_guard: "le_o m m' \<Longrightarrow> le_o (scope_guard g m) (scope_guard g m')"
  by (auto simp: le_o_def)

subsection \<open>Lists\<close>

lemma filter_append_takeWhile:
  "filter P xs = filter P (takeWhile Q xs) @ filter P (dropWhile Q xs)"
  by (metis filter_append takeWhile_dropWhile_id)

lemma sorted_wrt_less_distinct: "sorted_wrt (<) (xs :: 'a::linorder list) \<Longrightarrow> distinct xs"
  by (simp add: strict_sorted_iff)

subsection \<open>Tables\<close>

text \<open>
  A table of records by key, as the rules of a grammar and the memo of a context are: a
  write to a key that is there is read back, and disturbs no other key.
\<close>

locale record_table =
  fixes get :: "'s \<Rightarrow> 'k \<Rightarrow> 'r option"
    and upd :: "'k \<Rightarrow> ('r \<Rightarrow> 'r) \<Rightarrow> 's \<Rightarrow> 's"
  assumes get_upd: "get (upd k f s) k' = (if k' = k then map_option f (get s k) else get s k')"
begin

lemma get_same: "get s k = Some r \<Longrightarrow> get (upd k f s) k = Some (f r)"
  by (simp add: get_upd)

lemma get_other: "k' \<noteq> k \<Longrightarrow> get (upd k f s) k' = get s k'"
  by (simp add: get_upd)

lemma present_upd: "get (upd k f s) k' = None \<longleftrightarrow> get s k' = None"
  by (simp add: get_upd)

lemma upd_upd: "get (upd k g (upd k f s)) = get (upd k (g \<circ> f) s)"
  by (simp add: fun_eq_iff get_upd option.map_comp)

lemma upd_commute: "k \<noteq> k' \<Longrightarrow> get (upd k f (upd k' g s)) = get (upd k' g (upd k f s))"
  by (simp add: fun_eq_iff get_upd)

lemma upd_inv:
  assumes "\<And>k r. get s k = Some r \<Longrightarrow> P r" and "\<And>r. P r \<Longrightarrow> P (f r)" and "get (upd k f s) k' = Some r"
  shows "P r"
  using assms by (auto simp: get_upd split: if_splits)

end

end
