(* ===== verification/File_Source.thy ===== *)
theory File_Source
  imports Prelude
begin

text \<open>
  \<open>include/peglib/FileSource.h\<close>: a file read through two page buffers. The stdio stream is
  the list of complete items of the file and a position counted in items: \<open>fread\<close> returns
  as many items as are left, up to the count asked for, and moves the position; \<open>fseek\<close> to
  a position inside a regular file succeeds. \<open>m_buf\<close> is the whole fixed-size array, of
  which only the first \<open>m_valid_count\<close> elements are data. \<open>p\<close> is the template parameter
  \<open>PageSize\<close>. An operation whose assertion fails has no result.
\<close>

subsection \<open>Buffers\<close>

record 'v buffer =
  m_buf :: "'v list"
  m_valid_count :: nat
  m_buf_from :: nat
  m_buf_to :: nat

record 'v file_state =
  fs_items :: "'v list"
  fs_fpos :: nat
  m_filesize :: nat
  m_buf0 :: "'v buffer"
  m_buf1 :: "'v buffer"
  m_current_buf :: nat

definition fread :: "'v list \<Rightarrow> nat \<Rightarrow> nat \<Rightarrow> 'v list" where
  "fread items pos n = take n (drop pos items)"

definition buffer_read :: "'v list \<Rightarrow> nat \<Rightarrow> nat \<Rightarrow> 'v buffer \<Rightarrow> 'v buffer \<times> nat" where
  "buffer_read items pos n b =
     (let got = fread items pos n; read_items = length got
      in (b\<lparr>m_buf := got @ drop read_items (m_buf b), m_valid_count := read_items,
            m_buf_from := pos, m_buf_to := pos + read_items\<rparr>, pos + read_items))"

definition buffer_clear :: "'v buffer \<Rightarrow> 'v buffer" where
  "buffer_clear b = b\<lparr>m_valid_count := 0, m_buf_from := 0, m_buf_to := 0\<rparr>"

definition buffer_in :: "'v buffer \<Rightarrow> nat \<Rightarrow> bool" where
  "buffer_in b i \<longleftrightarrow> m_buf_from b \<le> i \<and> i < m_buf_to b"

definition get_unchecked :: "'v buffer \<Rightarrow> nat \<Rightarrow> 'v" where
  "get_unchecked b i = m_buf b ! (i - m_buf_from b)"

definition fs_buf :: "'v file_state \<Rightarrow> nat \<Rightarrow> 'v buffer" where
  "fs_buf s k = (if k = 0 then m_buf0 s else m_buf1 s)"

subsection \<open>Operations\<close>

definition fs_open :: "nat \<Rightarrow> 'v list \<Rightarrow> 'v list \<Rightarrow> 'v list \<Rightarrow> 'v file_state" where
  "fs_open p items array0 array1 =
     (let empty0 = \<lparr>m_buf = array0, m_valid_count = 0, m_buf_from = 0, m_buf_to = 0\<rparr>;
          empty1 = \<lparr>m_buf = array1, m_valid_count = 0, m_buf_from = 0, m_buf_to = 0\<rparr>;
          (b0, pos) = buffer_read items 0 p empty0;
          (b1, pos') = (if m_valid_count b0 = p then buffer_read items pos p empty1 else (empty1, pos))
      in \<lparr>fs_items = items, fs_fpos = pos', m_filesize = length items,
          m_buf0 = b0, m_buf1 = b1, m_current_buf = 0\<rparr>)"

definition read_to :: "nat \<Rightarrow> nat \<Rightarrow> 'v file_state \<Rightarrow> bool \<times> 'v file_state" where
  "read_to p item_pos s =
     (if item_pos \<ge> m_filesize s then (False, s)
      else let buf_pos = item_pos - item_pos mod p;
               (b, pos) = buffer_read (fs_items s) buf_pos p (m_buf0 s)
           in (m_valid_count b > 0, s\<lparr>m_buf0 := b, fs_fpos := pos\<rparr>))"

definition fs_get :: "nat \<Rightarrow> nat \<Rightarrow> 'v file_state \<Rightarrow> ('v \<times> 'v file_state) option" where
  "fs_get p i s =
     (if \<not> i < m_filesize s then None
      else if buffer_in (fs_buf s (m_current_buf s)) i
      then Some (get_unchecked (fs_buf s (m_current_buf s)) i, s)
      else let other = 1 - m_current_buf s
           in if buffer_in (fs_buf s other) i
              then Some (get_unchecked (fs_buf s other) i, s\<lparr>m_current_buf := other\<rparr>)
              else let (ok, s1) = read_to p i s
                   in if ok then Some (get_unchecked (m_buf0 s1) i, s1\<lparr>m_current_buf := 0\<rparr>)
                      else None)"

definition fs_release_before :: "nat \<Rightarrow> 'v file_state \<Rightarrow> 'v file_state" where
  "fs_release_before pos s =
     (let rel = (\<lambda>b. if m_buf_to b \<le> pos then buffer_clear b else b)
      in s\<lparr>m_buf0 := rel (m_buf0 s), m_buf1 := rel (m_buf1 s)\<rparr>)"

definition fs_size :: "'v file_state \<Rightarrow> nat" where
  "fs_size s = m_filesize s"

subsection \<open>The invariant\<close>

text \<open>
  A buffer is coherent when the window it claims lies inside the file, is no longer than
  the array, and holds the file's items.
\<close>

definition buffer_inv :: "nat \<Rightarrow> 'v list \<Rightarrow> 'v buffer \<Rightarrow> bool" where
  "buffer_inv p items b \<longleftrightarrow>
     length (m_buf b) = p \<and> m_buf_to b = m_buf_from b + m_valid_count b \<and>
     m_buf_to b \<le> length items \<and> m_valid_count b \<le> p \<and>
     take (m_valid_count b) (m_buf b) = take (m_valid_count b) (drop (m_buf_from b) items)"

definition fs_inv :: "nat \<Rightarrow> 'v file_state \<Rightarrow> bool" where
  "fs_inv p s \<longleftrightarrow>
     0 < p \<and> m_filesize s = length (fs_items s) \<and> m_current_buf s \<le> 1 \<and>
     buffer_inv p (fs_items s) (m_buf0 s) \<and> buffer_inv p (fs_items s) (m_buf1 s)"

lemma buffer_inv_get:
  assumes "buffer_inv p items b" and "buffer_in b i"
  shows "get_unchecked b i = items ! i"
proof -
  let ?j = "i - m_buf_from b"
  from assms have j: "?j < m_valid_count b" "m_buf_from b \<le> i" "i < length items"
    by (auto simp: buffer_inv_def buffer_in_def)
  have "m_buf b ! ?j = take (m_valid_count b) (m_buf b) ! ?j"
    using j by simp
  also have "\<dots> = take (m_valid_count b) (drop (m_buf_from b) items) ! ?j"
    using assms(1) by (simp add: buffer_inv_def)
  also have "\<dots> = items ! i"
    using j by simp
  finally show ?thesis by (simp add: get_unchecked_def)
qed

lemma buffer_inv_read:
  assumes "length (m_buf b) = p" and "pos \<le> length items"
  shows "buffer_inv p items (fst (buffer_read items pos p b))"
    and "snd (buffer_read items pos p b) \<le> length items"
  using assms by (auto simp: buffer_read_def buffer_inv_def fread_def Let_def)

lemma buffer_inv_clear: "buffer_inv p items b \<Longrightarrow> buffer_inv p items (buffer_clear b)"
  by (simp add: buffer_inv_def buffer_clear_def)

lemma buffer_inv_empty:
  "length a = p \<Longrightarrow>
   buffer_inv p items \<lparr>m_buf = a, m_valid_count = 0, m_buf_from = 0, m_buf_to = 0\<rparr>"
  by (simp add: buffer_inv_def)

lemma fs_inv_buf: "fs_inv p s \<Longrightarrow> buffer_inv p (fs_items s) (fs_buf s k)"
  by (simp add: fs_inv_def fs_buf_def)

lemma fs_inv_open:
  assumes "0 < p" and "length a0 = p" and "length a1 = p"
  shows "fs_inv p (fs_open p items a0 a1)" and "fs_items (fs_open p items a0 a1) = items"
  using assms
  by (auto simp: fs_inv_def fs_open_def Let_def buffer_inv_def buffer_read_def fread_def min_def)

lemma fs_inv_release:
  "fs_inv p s \<Longrightarrow> fs_inv p (fs_release_before pos s)"
  "fs_items (fs_release_before pos s) = fs_items s"
  by (auto simp: fs_inv_def fs_release_before_def Let_def buffer_inv_clear)

lemma read_to_in_range:
  assumes "fs_inv p s" and "i < m_filesize s"
  shows "\<exists>s'. read_to p i s = (True, s') \<and> fs_inv p s' \<and> fs_items s' = fs_items s
              \<and> buffer_in (m_buf0 s') i"
proof -
  define a where "a = i - i mod p"
  have p: "0 < p" and i: "i < length (fs_items s)"
    using assms by (auto simp: fs_inv_def)
  have a: "a \<le> i" "i < a + p"
    using p mod_less_divisor [OF p, of i] mod_less_eq_dividend [of i p]
    unfolding a_def by linarith+
  obtain b pos where b: "buffer_read (fs_items s) a p (m_buf0 s) = (b, pos)"
    by (meson surj_pair)
  have inv: "buffer_inv p (fs_items s) b"
    using buffer_inv_read(1) [of "m_buf0 s" p a "fs_items s"] b assms(1) a i
    by (simp add: fs_inv_def buffer_inv_def)
  have win: "m_buf_from b = a" "m_valid_count b = min p (length (fs_items s) - a)"
      "m_buf_to b = a + m_valid_count b"
    using b by (auto simp: buffer_read_def fread_def Let_def)
  have "m_valid_count b > 0" "buffer_in b i"
    using win a i p by (auto simp: buffer_in_def)
  moreover have "fs_inv p (s\<lparr>m_buf0 := b, fs_fpos := pos\<rparr>)"
    using assms(1) inv by (simp add: fs_inv_def)
  ultimately show ?thesis
    using assms(2) b by (simp add: read_to_def Let_def a_def)
qed

lemma fs_get_items:
  assumes "fs_inv p s" and "i < length (fs_items s)"
  shows "\<exists>s'. fs_get p i s = Some (fs_items s ! i, s') \<and> fs_inv p s' \<and> fs_items s' = fs_items s"
proof -
  have size: "i < m_filesize s"
    using assms by (simp add: fs_inv_def)
  consider (cur) "buffer_in (fs_buf s (m_current_buf s)) i"
    | (other) "\<not> buffer_in (fs_buf s (m_current_buf s)) i" "buffer_in (fs_buf s (1 - m_current_buf s)) i"
    | (miss) "\<not> buffer_in (fs_buf s (m_current_buf s)) i" "\<not> buffer_in (fs_buf s (1 - m_current_buf s)) i"
    by blast
  then show ?thesis
  proof cases
    case cur
    with assms size show ?thesis
      by (simp add: fs_get_def buffer_inv_get [OF fs_inv_buf])
  next
    case other
    with assms size show ?thesis
      by (auto simp: fs_get_def Let_def buffer_inv_get [OF fs_inv_buf] fs_inv_def)
  next
    case miss
    obtain s' where s': "read_to p i s = (True, s')" "fs_inv p s'" "fs_items s' = fs_items s"
        "buffer_in (m_buf0 s') i"
      using read_to_in_range [OF assms(1) size] by blast
    then have "get_unchecked (m_buf0 s') i = fs_items s ! i"
      using buffer_inv_get [of p "fs_items s'" "m_buf0 s'" i] by (simp add: fs_inv_def)
    with miss s' size show ?thesis
      by (auto simp: fs_get_def Let_def fs_inv_def)
  qed
qed

text \<open>
  Reading an item of the file never fails, gives the item the file has there whatever
  the two buffers hold, and keeps the buffers coherent.
\<close>

theorem fs_get_correct:
  assumes "fs_inv p s" and "i < length (fs_items s)"
  shows "\<exists>s'. fs_get p i s = Some (fs_items s ! i, s') \<and> fs_inv p s' \<and> fs_items s' = fs_items s"
  using assms by (rule fs_get_items)

theorem fs_get_correct_witness:
  "\<exists>s'. fs_get 2 4 (fs_open 2 ''peglib'' ''--'' ''--'') = Some (CHR ''i'', s')"
proof -
  have "fs_inv 2 (fs_open 2 ''peglib'' ''--'' ''--'')"
    by (rule fs_inv_open) simp_all
  then show ?thesis
    using fs_get_correct [of 2 "fs_open 2 ''peglib'' ''--'' ''--''" 4]
    by (auto simp: fs_inv_open(2))
qed

end
