(* ===== verification/File_Iterator.thy ===== *)
theory File_Iterator
  imports File_Source
begin

text \<open>
  The iterators of \<open>include/peglib/FileSource.h\<close> and the move of a source. An iterator is a
  position and the source it belongs to, which is known by a number (its address). The
  comparisons assert that both sides belong to the same source; they have no result when the
  assertion fails.
\<close>

subsection \<open>Iterators\<close>

record fs_iterator =
  it_pos :: nat
  it_freader :: nat

text \<open>The guard of the six comparisons, around the comparison of the positions.\<close>

definition same_reader :: "fs_iterator \<Rightarrow> fs_iterator \<Rightarrow> bool \<Rightarrow> bool option" where
  "same_reader a b r = (if it_freader a = it_freader b then Some r else None)"

definition it_less :: "fs_iterator \<Rightarrow> fs_iterator \<Rightarrow> bool option" where
  "it_less a b = same_reader a b (it_pos a < it_pos b)"

definition it_greater :: "fs_iterator \<Rightarrow> fs_iterator \<Rightarrow> bool option" where
  "it_greater a b = same_reader a b (it_pos a > it_pos b)"

definition it_le :: "fs_iterator \<Rightarrow> fs_iterator \<Rightarrow> bool option" where
  "it_le a b = same_reader a b (it_pos a \<le> it_pos b)"

definition it_ge :: "fs_iterator \<Rightarrow> fs_iterator \<Rightarrow> bool option" where
  "it_ge a b = same_reader a b (it_pos a \<ge> it_pos b)"

definition it_eq :: "fs_iterator \<Rightarrow> fs_iterator \<Rightarrow> bool option" where
  "it_eq a b = same_reader a b (it_pos a = it_pos b)"

definition it_neq :: "fs_iterator \<Rightarrow> fs_iterator \<Rightarrow> bool option" where
  "it_neq a b = same_reader a b (it_pos a \<noteq> it_pos b)"

text \<open>\<open>++it\<close> gives the iterator it leaves, \<open>it++\<close> the one it found and the one it leaves.\<close>

definition it_pre_inc :: "fs_iterator \<Rightarrow> fs_iterator" where
  "it_pre_inc i = i\<lparr>it_pos := it_pos i + 1\<rparr>"

definition it_post_inc :: "fs_iterator \<Rightarrow> fs_iterator \<times> fs_iterator" where
  "it_post_inc i = (let tmp = i in (tmp, i\<lparr>it_pos := it_pos i + 1\<rparr>))"

definition it_deref :: "nat \<Rightarrow> fs_iterator \<Rightarrow> 'v file_state \<Rightarrow> ('v \<times> 'v file_state) option" where
  "it_deref p i s = fs_get p (it_pos i) s"

definition it_position :: "fs_iterator \<Rightarrow> nat" where
  "it_position i = it_pos i"

definition fs_seek :: "nat \<Rightarrow> nat \<Rightarrow> fs_iterator" where
  "fs_seek reader pos = \<lparr>it_pos = pos, it_freader = reader\<rparr>"

definition fs_begin :: "nat \<Rightarrow> fs_iterator" where
  "fs_begin reader = \<lparr>it_pos = 0, it_freader = reader\<rparr>"

definition fs_end :: "nat \<Rightarrow> 'v file_state \<Rightarrow> fs_iterator" where
  "fs_end reader s = \<lparr>it_pos = m_filesize s, it_freader = reader\<rparr>"

definition fs_at :: "nat \<Rightarrow> nat \<Rightarrow> nat \<Rightarrow> 'v file_state \<Rightarrow> ('v \<times> 'v file_state) option" where
  "fs_at p reader pos s = it_deref p (fs_seek reader pos) s"

subsection \<open>Moving a source\<close>

text \<open>
  The new source and what is left of the old one: it has no stream and no items, so every
  read from it trips the assertion of \<open>get\<close>. \<open>left0\<close> and \<open>left1\<close> are what the element moves
  leave in its arrays.
\<close>

definition fs_move :: "'v list \<Rightarrow> 'v list \<Rightarrow> 'v file_state \<Rightarrow> 'v file_state \<times> 'v file_state" where
  "fs_move left0 left1 rhs =
     (\<lparr>fs_items = fs_items rhs, fs_fpos = fs_fpos rhs, m_filesize = m_filesize rhs,
       m_buf0 = m_buf0 rhs, m_buf1 = m_buf1 rhs, m_current_buf = m_current_buf rhs\<rparr>,
      rhs\<lparr>fs_items := [], fs_fpos := 0, m_filesize := 0,
          m_buf0 := (m_buf0 rhs)\<lparr>m_buf := left0\<rparr>, m_buf1 := (m_buf1 rhs)\<lparr>m_buf := left1\<rparr>,
          m_current_buf := 0\<rparr>)"

subsection \<open>Iterating\<close>

text \<open>\<open>for (it = first; it != stop; it++) out.push_back(*it)\<close>, as a client writes it.\<close>

fun iterate ::
  "nat \<Rightarrow> nat \<Rightarrow> fs_iterator \<Rightarrow> fs_iterator \<Rightarrow> 'v file_state \<Rightarrow> ('v list \<times> 'v file_state) option" where
  "iterate 0 p it stop s = None"
| "iterate (Suc n) p it stop s =
     (case it_neq it stop of
        None \<Rightarrow> None
      | Some False \<Rightarrow> Some ([], s)
      | Some True \<Rightarrow>
          let (here, it') = it_post_inc it
          in (case it_deref p here s of
                None \<Rightarrow> None
              | Some (v, s1) \<Rightarrow> map_option (\<lambda>(vs, s2). (v # vs, s2)) (iterate n p it' stop s1)))"

lemma iterate_items:
  assumes "fs_inv p s" and "it_pos it \<le> length (fs_items s)" and "it_freader it = reader"
    and "length (fs_items s) - it_pos it < n"
  shows "\<exists>s'. iterate n p it (fs_end reader s) s = Some (drop (it_pos it) (fs_items s), s') \<and>
    fs_inv p s' \<and> fs_items s' = fs_items s"
  using assms
proof (induction n arbitrary: it s)
  case (Suc n)
  have size: "m_filesize s = length (fs_items s)" using Suc.prems(1) by (simp add: fs_inv_def)
  show ?case
  proof (cases "it_pos it = length (fs_items s)")
    case True
    then show ?thesis
      using Suc.prems size by (simp add: it_neq_def same_reader_def fs_end_def)
  next
    case False
    then have i: "it_pos it < length (fs_items s)" using Suc.prems(2) by simp
    obtain s1 where s1: "fs_get p (it_pos it) s = Some (fs_items s ! it_pos it, s1)" "fs_inv p s1" "fs_items s1 = fs_items s"
      using fs_get_items [OF Suc.prems(1) i] by blast
    then have "fs_end reader s = fs_end reader s1"
      using size by (simp add: fs_end_def fs_inv_def)
    moreover have "length (fs_items s) - Suc (it_pos it) < n" using Suc.prems(4) i by linarith
    then obtain s2 where "iterate n p (it\<lparr>it_pos := it_pos it + 1\<rparr>) (fs_end reader s1) s1 =
        Some (drop (it_pos it + 1) (fs_items s), s2)" "fs_inv p s2" "fs_items s2 = fs_items s"
      using Suc.IH [OF s1(2), of "it\<lparr>it_pos := it_pos it + 1\<rparr>"] Suc.prems(3,4) i s1(3) by auto
    moreover have "drop (it_pos it) (fs_items s) = fs_items s ! it_pos it # drop (it_pos it + 1) (fs_items s)"
      using i by (simp add: Cons_nth_drop_Suc)
    moreover have "it_neq it (fs_end reader s) = Some True"
      using Suc.prems(3) False size by (simp add: it_neq_def same_reader_def fs_end_def)
    ultimately show ?thesis
      using s1(1) by (simp add: it_post_inc_def it_deref_def)
  qed
qed simp

lemma fs_move_inv: "fs_inv p s \<Longrightarrow> fs_inv p (fst (fs_move l0 l1 s)) \<and> fs_items (fst (fs_move l0 l1 s)) = fs_items s"
  by (simp add: fs_move_def fs_inv_def)

text \<open>
  C25: iterating over a file from \<open>begin\<close> to \<open>end\<close> reads its items in order, whatever the
  buffers hold and however often they are refilled, and so does iterating over the source a
  file was moved to, while any read from the source it was moved from trips the assertion.
\<close>

theorem iteration_reads_file:
  assumes "fs_inv p s" and "length (fs_items s) < n"
  shows "map_option fst (iterate n p (fs_begin reader) (fs_end reader s) s) = Some (fs_items s) \<and>
    (let (t, old) = fs_move l0 l1 s
     in map_option fst (iterate n p (fs_begin reader) (fs_end reader t) t) = Some (fs_items s) \<and>
        (\<forall>i. fs_at p reader i old = None))"
proof -
  have read: "map_option fst (iterate n p (fs_begin reader) (fs_end reader t) t) = Some (fs_items t)"
    if "fs_inv p t" "fs_items t = fs_items s" for t
    using iterate_items [OF that(1), of "fs_begin reader" reader n] assms(2) that(2) by (auto simp: fs_begin_def)
  note moved = conjunct1 [OF fs_move_inv [OF assms(1)], of l0 l1] conjunct2 [OF fs_move_inv [OF assms(1)], of l0 l1]
  have "fs_at p reader i (snd (fs_move l0 l1 s)) = None" for i
    by (simp add: fs_at_def it_deref_def fs_get_def fs_move_def)
  then show ?thesis
    using read [OF assms(1) refl] read [OF moved]
      moved by (simp add: case_prod_beta)
qed

theorem iteration_reads_file_witness:
  "map_option fst (iterate 7 2 (fs_begin 0) (fs_end 0 (fs_open 2 ''peglib'' ''--'' ''--'')) (fs_open 2 ''peglib'' ''--'' ''--''))
     = Some ''peglib''"
proof -
  have "fs_inv 2 (fs_open 2 ''peglib'' ''--'' ''--'')"
    by (rule fs_inv_open) simp_all
  then show ?thesis
    using iteration_reads_file [of 2 "fs_open 2 ''peglib'' ''--'' ''--''" 7 0] by (simp add: fs_inv_open(2))
qed

end
