(* ===== verification/Source_Map.thy ===== *)
theory Source_Map
  imports File_Iterator
begin

text \<open>
  \<open>include/peglib/SourceMap.h\<close>: offsets and (line, column) pairs. The state of a
  \<open>SourceMap\<close> is the vector of line starts built by the prescan, the contiguous text
  (a string view) and, for a map over a file, the paged source it points to, whose buffers
  every read may refill: an operation that reads returns the map with the source as it left
  it. \<open>std::upper_bound\<close> on the sorted vector is the number of leading elements that are not
  greater than the key; \<open>substr\<close> throws (here: \<open>None\<close>) past the end. Offsets and columns are
  64-bit: the two computations that can wrap are written out modulo \<open>2 ^ 64\<close>.
\<close>

subsection \<open>Data\<close>

record source_location =
  sl_offset :: nat
  sl_line :: nat
  sl_column :: nat

record source_map =
  line_starts :: "nat list"
  contiguous :: string
  file_source :: "char file_state option"

definition npos :: nat where
  "npos = 2 ^ 64 - 1"

definition newline :: char where
  "newline = CHR 0x0A"

definition carriage :: char where
  "carriage = CHR 0x0D"

subsection \<open>Construction\<close>

function prescan_loop :: "string \<Rightarrow> nat \<Rightarrow> nat list \<Rightarrow> nat list" where
  "prescan_loop s i starts =
     (if i < length s
      then prescan_loop s (Suc i) (if s ! i = newline then starts @ [i + 1] else starts)
      else starts)"
  by pat_completeness auto
termination
  by (relation "measure (\<lambda>(s, i, _). length s - i)") auto

declare prescan_loop.simps [simp del]

definition prescan :: "string \<Rightarrow> nat list" where
  "prescan s = prescan_loop s 0 [0]"

definition source_map_of_string :: "string \<Rightarrow> source_map" where
  "source_map_of_string s = \<lparr>line_starts = prescan s, contiguous = s, file_source = None\<rparr>"

text \<open>
  The accessors of a map over a file (\<open>p\<close> is the page size of the source; its address is
  \<open>0\<close>), and the scan that reads the file through them.
\<close>

definition impl_size :: "char file_state \<Rightarrow> nat" where
  "impl_size fs = fs_size fs"

definition impl_at :: "nat \<Rightarrow> nat \<Rightarrow> char file_state \<Rightarrow> (char \<times> char file_state) option" where
  "impl_at p i fs = fs_at p 0 i fs"

function prescan_file_loop ::
  "nat \<Rightarrow> nat \<Rightarrow> nat \<Rightarrow> nat list \<Rightarrow> char file_state \<Rightarrow> (nat list \<times> char file_state) option" where
  "prescan_file_loop p i end_pos starts fs =
     (if i < end_pos
      then (case impl_at p i fs of
              None \<Rightarrow> None
            | Some (c, fs1) \<Rightarrow>
                prescan_file_loop p (Suc i) end_pos (if c = newline then starts @ [i + 1] else starts) fs1)
      else Some (starts, fs))"
  by pat_completeness auto
termination
  by (relation "measure (\<lambda>(p, i, end_pos, _). end_pos - i)") auto

declare prescan_file_loop.simps [simp del]

definition prescan_file :: "nat \<Rightarrow> char file_state \<Rightarrow> (nat list \<times> char file_state) option" where
  "prescan_file p fs = prescan_file_loop p 0 (impl_size fs) [0] fs"

definition source_map_of_file :: "nat \<Rightarrow> char file_state \<Rightarrow> source_map option" where
  "source_map_of_file p fs =
     map_option (\<lambda>(starts, fs1). \<lparr>line_starts = starts, contiguous = [], file_source = Some fs1\<rparr>)
       (prescan_file p fs)"

subsection \<open>Queries\<close>

definition upper_bound :: "nat list \<Rightarrow> nat \<Rightarrow> nat" where
  "upper_bound xs k = length (takeWhile (\<lambda>x. x \<le> k) xs)"

definition locate :: "source_map \<Rightarrow> nat \<Rightarrow> source_location" where
  "locate m offset =
     (let line_idx = upper_bound (line_starts m) offset - 1;
          line_start = line_starts m ! line_idx
      in \<lparr>sl_offset = offset, sl_line = line_idx + 1, sl_column = (offset - line_start + 1) mod 2 ^ 64\<rparr>)"

definition num_lines :: "source_map \<Rightarrow> nat" where
  "num_lines m = length (line_starts m)"

definition offset_of :: "source_map \<Rightarrow> nat \<Rightarrow> nat \<Rightarrow> nat" where
  "offset_of m line column =
     (if line = 0 \<or> line > length (line_starts m) then npos
      else nat ((int (line_starts m ! (line - 1)) + (int column - 1)) mod 2 ^ 64))"

definition substr :: "string \<Rightarrow> nat \<Rightarrow> nat \<Rightarrow> string option" where
  "substr s pos n = (if pos \<le> length s then Some (take n (drop pos s)) else None)"

text \<open>Where \<open>line_view\<close> ends a line.\<close>

definition line_view_end :: "source_map \<Rightarrow> nat \<Rightarrow> nat" where
  "line_view_end m line =
     (let start = line_starts m ! (line - 1)
      in if line < length (line_starts m) then
           let e = line_starts m ! line - 1
           in if e > start \<and> contiguous m ! (e - 1) = carriage then e - 1 else e
         else
           let e = length (contiguous m)
           in if e > start \<and> contiguous m ! (e - 1) = carriage then e - 1 else e)"

definition line_view :: "source_map \<Rightarrow> nat \<Rightarrow> string option" where
  "line_view m line =
     (if file_source m \<noteq> None then None
      else if line = 0 \<or> line > length (line_starts m) then Some []
      else let start = line_starts m ! (line - 1)
           in substr (contiguous m) start (line_view_end m line - start))"

text \<open>
  Where \<open>line_content\<close> ends a line of a file, from the line starts, and the loop that copies
  the line.
\<close>

definition line_content_end ::
  "nat \<Rightarrow> nat list \<Rightarrow> nat \<Rightarrow> char file_state \<Rightarrow> (nat \<times> char file_state) option" where
  "line_content_end p starts line fs =
     (let start = starts ! (line - 1); source_size = impl_size fs
      in if line < length starts then
           let e = starts ! line - 1
           in if e > start then
                (case impl_at p (e - 1) fs of
                   None \<Rightarrow> None
                 | Some (c, fs1) \<Rightarrow> Some (if c = carriage then e - 1 else e, fs1))
              else Some (e, fs)
         else
           let e = source_size
           in if e > start then
                (case impl_at p (e - 1) fs of
                   None \<Rightarrow> None
                 | Some (c, fs1) \<Rightarrow> Some (if c = carriage then e - 1 else e, fs1))
              else Some (e, fs))"

function copy_line ::
  "nat \<Rightarrow> nat \<Rightarrow> nat \<Rightarrow> string \<Rightarrow> char file_state \<Rightarrow> (string \<times> char file_state) option" where
  "copy_line p i e result fs =
     (if i < e
      then (case impl_at p i fs of
              None \<Rightarrow> None
            | Some (c, fs1) \<Rightarrow> copy_line p (Suc i) e (result @ [c]) fs1)
      else Some (result, fs))"
  by pat_completeness auto
termination
  by (relation "measure (\<lambda>(p, i, e, _). e - i)") auto

declare copy_line.simps [simp del]

definition line_content :: "nat \<Rightarrow> source_map \<Rightarrow> nat \<Rightarrow> (string \<times> source_map) option" where
  "line_content p m line =
     (if line = 0 \<or> line > length (line_starts m) then Some ([], m)
      else case file_source m of
          None \<Rightarrow> map_option (\<lambda>s. (s, m)) (line_view m line)
        | Some fs \<Rightarrow>
            (case line_content_end p (line_starts m) line fs of
               None \<Rightarrow> None
             | Some (e, fs1) \<Rightarrow>
                 map_option (\<lambda>(s, fs2). (s, m\<lparr>file_source := Some fs2\<rparr>))
                   (copy_line p (line_starts m ! (line - 1)) e [] fs1)))"

text \<open>A client that asks for one line after the other.\<close>

fun read_lines :: "nat \<Rightarrow> nat list \<Rightarrow> source_map \<Rightarrow> string list option" where
  "read_lines p [] m = Some []"
| "read_lines p (line # rest) m =
     (case line_content p m line of
        None \<Rightarrow> None
      | Some (s, m1) \<Rightarrow> map_option ((#) s) (read_lines p rest m1))"

subsection \<open>The line starts\<close>

lemma prescan_loop_eq:
  "prescan_loop s i acc = acc @ map Suc (filter (\<lambda>k. s ! k = newline) [i..<length s])"
proof (induction s i acc rule: prescan_loop.induct)
  case (1 s i acc)
  then show ?case
    by (subst prescan_loop.simps) (auto simp: upt_conv_Cons)
qed

lemma prescan_eq:
  "prescan s = 0 # map Suc (filter (\<lambda>k. s ! k = newline) [0..<length s])"
  by (simp add: prescan_def prescan_loop_eq)

lemma line_starts_string [simp]:
  "line_starts (source_map_of_string s) = prescan s"
  "contiguous (source_map_of_string s) = s"
  "file_source (source_map_of_string s) = None"
  by (simp_all add: source_map_of_string_def)

lemma prescan_sorted: "sorted_wrt (<) (prescan s)"
proof -
  have "sorted_wrt (<) (filter (\<lambda>k. s ! k = newline) [0..<length s])"
    by (simp add: sorted_wrt_filter)
  then show ?thesis
    by (auto simp: prescan_eq sorted_wrt_map)
qed

lemma prescan_nonempty [simp]: "prescan s \<noteq> []" "0 < length (prescan s)"
  by (simp_all add: prescan_eq)

lemma prescan_0 [simp]: "prescan s ! 0 = 0"
  by (simp add: prescan_eq)

lemma prescan_bound: "x \<in> set (prescan s) \<Longrightarrow> x \<le> length s"
  by (auto simp: prescan_eq)

lemma prescan_mono: "i < j \<Longrightarrow> j < length (prescan s) \<Longrightarrow> prescan s ! i < prescan s ! j"
  using prescan_sorted by (simp add: sorted_wrt_iff_nth_less)

lemma filter_nth_upt: "filter (\<lambda>k. P (xs ! k)) [0..<length xs] = filter (\<lambda>k. P (xs ! k)) [0..<length xs]
  \<and> length (filter (\<lambda>k. P (xs ! k)) [0..<length xs]) = length (filter P xs)"
proof -
  have "filter P xs = filter P (map (\<lambda>k. xs ! k) [0..<length xs])"
    by (simp add: map_nth)
  also have "\<dots> = map (\<lambda>k. xs ! k) (filter (\<lambda>k. P (xs ! k)) [0..<length xs])"
    by (simp add: filter_map o_def)
  finally show ?thesis
    by simp
qed

subsection \<open>upper_bound on the line starts\<close>

lemma takeWhile_le_sorted:
  "sorted_wrt (<) (xs :: nat list) \<Longrightarrow> takeWhile (\<lambda>x. x \<le> k) xs = filter (\<lambda>x. x \<le> k) xs"
  by (induction xs) (auto simp: empty_filter_conv)

lemma upper_bound_split:
  assumes "sorted_wrt (<) xs" and "i < length xs"
  shows "i < upper_bound xs k \<longleftrightarrow> xs ! i \<le> k"
  using assms
proof (induction xs arbitrary: i)
  case Nil
  then show ?case by simp
next
  case (Cons x xs)
  show ?case
  proof (cases i)
    case 0
    then show ?thesis by (simp add: upper_bound_def)
  next
    case (Suc j)
    with Cons.prems have x: "x < xs ! j" by simp
    from Cons.prems Suc have "j < upper_bound xs k \<longleftrightarrow> xs ! j \<le> k"
      by (intro Cons.IH) auto
    moreover have "upper_bound (x # xs) k = (if x \<le> k then Suc (upper_bound xs k) else 0)"
      by (simp add: upper_bound_def)
    ultimately show ?thesis
      using x Suc by (cases "x \<le> k") simp_all
  qed
qed

lemma upper_bound_pos: "1 \<le> upper_bound (prescan s) k"
  by (simp add: upper_bound_def prescan_eq)

lemma upper_bound_le: "upper_bound xs k \<le> length xs"
  by (simp add: upper_bound_def length_takeWhile_le)

lemma located_line:
  obtains i where "upper_bound (prescan s) off = Suc i" and "i < length (prescan s)"
    and "prescan s ! i \<le> off"
    and "Suc i < length (prescan s) \<longrightarrow> off < prescan s ! Suc i"
proof -
  obtain i where i: "upper_bound (prescan s) off = Suc i"
    using upper_bound_pos [of s off] by (cases "upper_bound (prescan s) off") auto
  have len: "i < length (prescan s)"
    using i upper_bound_le [of "prescan s" off] by simp
  moreover have "prescan s ! i \<le> off"
    using upper_bound_split [OF prescan_sorted len, of off] i by simp
  moreover have "Suc i < length (prescan s) \<longrightarrow> off < prescan s ! Suc i"
    using upper_bound_split [OF prescan_sorted, of "Suc i" s off] i by auto
  ultimately show thesis using i that by blast
qed

lemma upper_bound_count:
  "upper_bound (prescan s) off = 1 + length (filter (\<lambda>c. c = newline) (take off s))"
proof -
  let ?nl = "\<lambda>k. s ! k = newline"
  have "upper_bound (prescan s) off
      = Suc (length (filter (\<lambda>x. x \<le> off) (map Suc (filter ?nl [0..<length s]))))"
    using prescan_sorted [of s] by (simp add: upper_bound_def takeWhile_le_sorted prescan_eq)
  also have "filter (\<lambda>x. x \<le> off) (map Suc (filter ?nl [0..<length s]))
      = map Suc (filter (\<lambda>k. Suc k \<le> off \<and> ?nl k) [0..<length s])"
    by (simp add: filter_map o_def conj_commute)
  also have "filter (\<lambda>k. Suc k \<le> off \<and> ?nl k) [0..<length s]
      = filter ?nl (filter (\<lambda>k. k < off) [0..<length s])"
    by (auto simp: Suc_le_eq conj_commute intro: filter_cong)
  also have "filter (\<lambda>k. k < off) [0..<length s] = [0..<length (take off s)]"
    by (induction s rule: rev_induct) (auto simp: min_def)
  also have "filter ?nl [0..<length (take off s)]
      = filter (\<lambda>k. take off s ! k = newline) [0..<length (take off s)]"
    by (intro filter_cong) auto
  finally show ?thesis
    using filter_nth_upt [of "\<lambda>c. c = newline" "take off s"] by simp
qed


subsection \<open>Lines of a text\<close>

text \<open>
  The reference notion of a line: the text between newline characters, and a trailing
  carriage return dropped.
\<close>

fun split_lines :: "string \<Rightarrow> string list" where
  "split_lines [] = [[]]"
| "split_lines (c # cs) =
     (if c = newline then [] # split_lines cs
      else (c # hd (split_lines cs)) # tl (split_lines cs))"

definition strip_cr :: "string \<Rightarrow> string" where
  "strip_cr s = (if s \<noteq> [] \<and> last s = carriage then butlast s else s)"

lemma split_lines_nonempty [simp]: "split_lines s \<noteq> []"
  by (cases s) auto

definition raw_line :: "string \<Rightarrow> nat \<Rightarrow> string" where
  "raw_line s i =
     (let start = prescan s ! i;
          e = (if Suc i < length (prescan s) then prescan s ! Suc i - 1 else length s)
      in take (e - start) (drop start s))"

lemma prescan_Cons:
  "prescan (c # s) =
     (if c = newline then 0 # map Suc (prescan s) else 0 # map Suc (tl (prescan s)))"
proof -
  have "filter (\<lambda>k. (c # s) ! k = newline) [0..<length (c # s)]
      = (if c = newline then [0] else []) @ map Suc (filter (\<lambda>k. s ! k = newline) [0..<length s])"
    by (simp add: upt_conv_Cons filter_map o_def map_Suc_upt [symmetric] del: upt_Suc)
  then show ?thesis
    by (simp add: prescan_eq)
qed

lemma prescan_Cons_other [simp]:
  assumes "c \<noteq> newline"
  shows "length (prescan (c # s)) = length (prescan s)"
    and "Suc k < length (prescan s) \<Longrightarrow> prescan (c # s) ! Suc k = Suc (prescan s ! Suc k)"
  using assms by (simp_all add: prescan_Cons nth_tl)

lemma prescan_Cons_newline [simp]:
  "length (prescan (newline # s)) = Suc (length (prescan s))"
  "k < length (prescan s) \<Longrightarrow> prescan (newline # s) ! Suc k = Suc (prescan s ! k)"
  by (simp_all add: prescan_Cons)

lemma length_split_lines: "length (split_lines s) = length (prescan s)"
  by (induction s) (auto simp: prescan_Cons prescan_eq [of "[]"])

lemma raw_line_Cons_newline:
  "i < length (prescan s) \<Longrightarrow> raw_line (newline # s) (Suc i) = raw_line s i"
  "raw_line (newline # s) 0 = []"
  by (auto simp: raw_line_def Let_def)

lemma raw_line_Cons_other:
  assumes "c \<noteq> newline" and "i < length (prescan s)"
  shows "raw_line (c # s) i = (if i = 0 then c # raw_line s 0 else raw_line s i)"
proof (cases i)
  case 0
  have "Suc 0 < length (prescan s) \<Longrightarrow> 0 < prescan s ! Suc 0"
    using prescan_mono [of 0 1 s] by simp
  then show ?thesis
    using assms 0 by (auto simp: raw_line_def Let_def take_Cons')
next
  case (Suc j)
  moreover have "0 < prescan s ! Suc j"
    using assms(2) Suc prescan_mono [of 0 "Suc j" s] by simp
  ultimately show ?thesis
    using assms by (auto simp: raw_line_def Let_def)
qed

lemma raw_line_split: "i < length (prescan s) \<Longrightarrow> raw_line s i = split_lines s ! i"
proof (induction s arbitrary: i)
  case Nil
  then show ?case by (simp add: raw_line_def prescan_eq)
next
  case (Cons c s)
  show ?case
  proof (cases "c = newline")
    case True
    with Cons show ?thesis
      by (cases i) (auto simp: raw_line_Cons_newline prescan_Cons)
  next
    case False
    with Cons.prems have i: "i < length (prescan s)"
      by (auto simp: prescan_Cons)
    show ?thesis
      using False Cons.IH [OF i] Cons.IH [of 0] i
      by (cases i) (auto simp: raw_line_Cons_other nth_tl hd_conv_nth length_split_lines)
  qed
qed


subsection \<open>Properties\<close>

lemma strip_cr_take:
  assumes "start \<le> e" and "e \<le> length s"
  shows "take ((if e > start \<and> s ! (e - 1) = carriage then e - 1 else e) - start) (drop start s)
       = strip_cr (take (e - start) (drop start s))"
proof (cases "e = start")
  case True
  then show ?thesis by (simp add: strip_cr_def)
next
  case False
  with assms have lt: "start < e" by simp
  let ?l = "take (e - start) (drop start s)"
  have len: "length ?l = e - start" and ne: "?l \<noteq> []"
    using assms lt by auto
  then have "last ?l = s ! (e - 1)"
    using assms lt by (simp add: last_conv_nth)
  moreover have "butlast ?l = take (e - 1 - start) (drop start s)"
    using assms lt len by (simp add: butlast_take)
  ultimately show ?thesis
    using lt ne by (auto simp: strip_cr_def)
qed

lemma line_end_bounds:
  assumes "0 < line" and "line \<le> length (prescan s)"
  shows "prescan s ! (line - 1) \<le> (if line < length (prescan s) then prescan s ! line - 1 else length s)"
    and "(if line < length (prescan s) then prescan s ! line - 1 else length s) \<le> length s"
    and "prescan s ! (line - 1) \<le> length s"
proof -
  show *: "prescan s ! (line - 1) \<le> length s"
    using assms prescan_bound nth_mem [of "line - 1" "prescan s"] by simp
  show "(if line < length (prescan s) then prescan s ! line - 1 else length s) \<le> length s"
    using prescan_bound [of "prescan s ! line" s] nth_mem [of line "prescan s"] by auto
  show "prescan s ! (line - 1)
      \<le> (if line < length (prescan s) then prescan s ! line - 1 else length s)"
    using * assms prescan_mono [of "line - 1" line s] by auto
qed

lemma line_view_end_raw:
  assumes "0 < line" and "line \<le> length (prescan s)"
  shows "take (line_view_end (source_map_of_string s) line - prescan s ! (line - 1)) (drop (prescan s ! (line - 1)) s)
       = strip_cr (split_lines s ! (line - 1))"
proof -
  let ?a = "prescan s ! (line - 1)"
  let ?e = "if line < length (prescan s) then prescan s ! line - 1 else length s"
  have "line_view_end (source_map_of_string s) line = (if ?e > ?a \<and> s ! (?e - 1) = carriage then ?e - 1 else ?e)"
    by (simp add: line_view_end_def Let_def)
  then have "take (line_view_end (source_map_of_string s) line - ?a) (drop ?a s)
    = strip_cr (take (?e - ?a) (drop ?a s))"
    using line_end_bounds [OF assms] by (simp only: strip_cr_take)
  also have "take (?e - ?a) (drop ?a s) = raw_line s (line - 1)"
    using assms by (simp add: raw_line_def Let_def)
  also have "\<dots> = split_lines s ! (line - 1)"
    using assms by (intro raw_line_split) simp
  finally show ?thesis .
qed

definition line_text :: "string \<Rightarrow> nat \<Rightarrow> string" where
  "line_text s line =
     (if line = 0 \<or> line > length (split_lines s) then [] else strip_cr (split_lines s ! (line - 1)))"

text \<open>
  C22: \<open>line_view\<close> returns, for every line number, the text between the newlines that bound
  the line, without a carriage return at its end, and the empty view for a line number out of
  range; on a contiguous map it never throws. The carriage return is dropped on the last line
  as well, where no newline follows it, so that it does not belong to a line ending.
\<close>

theorem line_view_correct:
  "line_view (source_map_of_string s) line =
     Some (if line = 0 \<or> line > length (split_lines s) then []
           else let l = split_lines s ! (line - 1)
                in if l \<noteq> [] \<and> last l = CHR 0x0D then butlast l else l)"
proof (cases "line = 0 \<or> line > length (prescan s)")
  case True
  then show ?thesis by (simp add: line_view_def length_split_lines)
next
  case False
  then have line: "0 < line" "line \<le> length (prescan s)" by auto
  have "prescan s ! (line - 1) \<le> length s"
    using line_end_bounds(3) [OF line] .
  moreover have "strip_cr l = (if l \<noteq> [] \<and> last l = CHR 0x0D then butlast l else l)" for l
    by (simp add: strip_cr_def carriage_def)
  ultimately show ?thesis
    using line line_view_end_raw [OF line]
    by (simp add: line_view_def length_split_lines Let_def substr_def del: One_nat_def)
qed

lemma line_view_text: "line_view (source_map_of_string s) line = Some (line_text s line)"
proof (cases "line = 0 \<or> line > length (prescan s)")
  case True
  then show ?thesis by (auto simp: line_view_def line_text_def length_split_lines)
next
  case False
  then have line: "0 < line" "line \<le> length (prescan s)" by auto
  then show ?thesis
    using line_end_bounds(3) [OF line] line_view_end_raw [OF line]
    by (simp add: line_view_def line_text_def length_split_lines Let_def substr_def del: One_nat_def)
qed

text \<open>A text that is one line and ends in a carriage return loses it.\<close>

lemma last_line_loses_cr:
  "line_view (source_map_of_string [CHR ''a'', CHR 0x0D]) 1 = Some ''a''"
  by (simp add: line_view_text line_text_def newline_def strip_cr_def carriage_def)

subsection \<open>Maps over files\<close>

text \<open>What a read of the file may do to the source.\<close>

definition same_file :: "nat \<Rightarrow> string \<Rightarrow> char file_state \<Rightarrow> bool" where
  "same_file p text fs \<longleftrightarrow> fs_inv p fs \<and> fs_items fs = text"

lemma impl_size_file: "same_file p text fs \<Longrightarrow> impl_size fs = length text"
  by (auto simp: same_file_def fs_inv_def impl_size_def fs_size_def)

lemma impl_at_file:
  assumes "same_file p text fs" and "i < length text"
  obtains fs1 where "impl_at p i fs = Some (text ! i, fs1)" "same_file p text fs1"
  using assms fs_get_items [of p fs i]
  by (auto simp: same_file_def impl_at_def fs_at_def it_deref_def fs_seek_def)

lemma prescan_file_loop_file:
  assumes "same_file p text fs" and "e \<le> length text"
  shows "\<exists>fs1. prescan_file_loop p i e acc fs
      = Some (acc @ map Suc (filter (\<lambda>k. text ! k = newline) [i..<e]), fs1) \<and> same_file p text fs1"
  using assms
proof (induction p i e acc fs rule: prescan_file_loop.induct)
  case (1 p i e acc fs)
  show ?case
  proof (cases "i < e")
    case True
    then have "i < length text" using "1.prems"(2) by simp
    then obtain fs1 where fs1: "impl_at p i fs = Some (text ! i, fs1)" "same_file p text fs1"
      using impl_at_file [OF "1.prems"(1)] by blast
    then show ?thesis
      using "1.IH" [OF True fs1(1) refl fs1(2) "1.prems"(2)] True
      by (subst prescan_file_loop.simps) (auto simp: upt_conv_Cons)
  next
    case False
    then show ?thesis
      using "1.prems" by (subst prescan_file_loop.simps) auto
  qed
qed

lemma copy_line_file:
  assumes "same_file p text fs" and "e \<le> length text"
  shows "\<exists>fs1. copy_line p i e acc fs = Some (acc @ take (e - i) (drop i text), fs1) \<and> same_file p text fs1"
  using assms
proof (induction p i e acc fs rule: copy_line.induct)
  case (1 p i e acc fs)
  show ?case
  proof (cases "i < e")
    case True
    then have i: "i < length text" using "1.prems"(2) by simp
    then obtain fs1 where fs1: "impl_at p i fs = Some (text ! i, fs1)" "same_file p text fs1"
      using impl_at_file [OF "1.prems"(1)] by blast
    have "take (e - i) (drop i text) = text ! i # take (e - Suc i) (drop (Suc i) text)"
      using True i by (simp add: Cons_nth_drop_Suc [symmetric] take_Cons')
    then show ?thesis
      using "1.IH" [OF True fs1(1) refl fs1(2) "1.prems"(2)] True fs1(1)
      by (subst copy_line.simps) auto
  next
    case False
    then show ?thesis
      using "1.prems" by (subst copy_line.simps) auto
  qed
qed

lemma line_content_end_file:
  assumes "same_file p text fs" and line: "0 < line" "line \<le> length (prescan text)"
  obtains fs1 where "line_content_end p (prescan text) line fs
      = Some (line_view_end (source_map_of_string text) line, fs1)" "same_file p text fs1"
proof -
  let ?a = "prescan text ! (line - 1)"
  have ends: "\<exists>fs1. (if e > ?a then
           (case impl_at p (e - 1) fs of
              None \<Rightarrow> None
            | Some (c, fs1) \<Rightarrow> Some (if c = carriage then e - 1 else e, fs1))
         else Some (e, fs)) = Some (if e > ?a \<and> text ! (e - 1) = carriage then e - 1 else e, fs1) \<and> same_file p text fs1"
    if "e \<le> length text" for e
  proof (cases "e > ?a")
    case True
    then have "e - 1 < length text" using that by simp
    then obtain fs1 where "impl_at p (e - 1) fs = Some (text ! (e - 1), fs1)" "same_file p text fs1"
      using impl_at_file [OF assms(1)] by blast
    then show ?thesis using True by auto
  qed (use assms(1) in auto)
  show thesis
  proof (cases "line < length (prescan text)")
    case True
    then show thesis
      using that ends [of "prescan text ! line - 1"] line_end_bounds(2) [OF line]
      by (auto simp: line_content_end_def line_view_end_def Let_def simp del: One_nat_def split: if_split_asm)
  next
    case False
    then show thesis
      using that ends [of "length text"] impl_size_file [OF assms(1)]
      by (auto simp: line_content_end_def line_view_end_def Let_def simp del: One_nat_def split: if_split_asm)
  qed
qed

text \<open>A map of the file with these items.\<close>

definition file_map :: "nat \<Rightarrow> string \<Rightarrow> source_map \<Rightarrow> bool" where
  "file_map p text m \<longleftrightarrow>
     line_starts m = prescan text \<and> (\<exists>fs. file_source m = Some fs \<and> same_file p text fs)"

lemma line_view_end_le:
  assumes "0 < line" and "line \<le> length (prescan s)"
  shows "line_view_end (source_map_of_string s) line \<le> length s"
  using line_end_bounds(2) [OF assms] by (auto simp: line_view_end_def Let_def)

lemma line_content_file:
  assumes "file_map p text m"
  shows "\<exists>m1. line_content p m line = Some (line_text text line, m1) \<and> file_map p text m1"
proof (cases "line = 0 \<or> line > length (prescan text)")
  case True
  then show ?thesis
    using assms by (auto simp: line_content_def line_text_def file_map_def length_split_lines)
next
  case False
  then have line: "0 < line" "line \<le> length (prescan text)" by auto
  obtain fs where fs: "file_source m = Some fs" "same_file p text fs" "line_starts m = prescan text"
    using assms by (auto simp: file_map_def)
  let ?e = "line_view_end (source_map_of_string text) line" and ?a = "prescan text ! (line - 1)"
  obtain fs1 where fs1: "line_content_end p (prescan text) line fs = Some (?e, fs1)" "same_file p text fs1"
    using line_content_end_file [OF fs(2) line] by blast
  obtain fs2 where fs2: "copy_line p ?a ?e [] fs1 = Some (take (?e - ?a) (drop ?a text), fs2)" "same_file p text fs2"
    using copy_line_file [OF fs1(2) line_view_end_le [OF line], of ?a "[]"] by auto
  show ?thesis
    using line fs fs1 fs2 line_view_end_raw [OF line]
    by (simp add: line_content_def line_text_def file_map_def length_split_lines)
qed

lemma read_lines_file: "file_map p text m \<Longrightarrow> read_lines p lines m = Some (map (line_text text) lines)"
proof (induction lines arbitrary: m)
  case (Cons line rest)
  then show ?case using line_content_file [OF Cons.prems, of line] by auto
qed simp

lemma read_lines_string: "read_lines p lines (source_map_of_string s) = Some (map (line_text s) lines)"
  by (induction lines) (auto simp: line_content_def line_view_text line_text_def length_split_lines)

lemma source_map_of_file_map:
  assumes "fs_inv p fs"
  shows "\<exists>m. source_map_of_file p fs = Some m \<and> file_map p (fs_items fs) m"
proof -
  have same: "same_file p (fs_items fs) fs" using assms by (simp add: same_file_def)
  obtain fs1 where "prescan_file p fs = Some (prescan (fs_items fs), fs1)" "same_file p (fs_items fs) fs1"
    using prescan_file_loop_file [OF same order_refl, of 0 "[0]"] impl_size_file [OF same]
    by (auto simp: prescan_file_def prescan_eq)
  then show ?thesis by (simp add: source_map_of_file_def file_map_def)
qed

text \<open>
  C23: a map over a paged file shows what the map of the same text in memory shows: whatever
  the page size and whatever its two buffers hold, the construction succeeds, the queries on
  offsets agree, and any sequence of requests for lines, each of which may refill the
  buffers, gets the same lines.
\<close>

theorem line_content_file_eq_contiguous:
  assumes "fs_inv p fs"
  shows "\<exists>m. source_map_of_file p fs = Some m \<and>
    num_lines m = num_lines (source_map_of_string (fs_items fs)) \<and>
    (\<forall>off. locate m off = locate (source_map_of_string (fs_items fs)) off) \<and>
    (\<forall>line column. offset_of m line column = offset_of (source_map_of_string (fs_items fs)) line column) \<and>
    (\<forall>lines. read_lines p lines m \<noteq> None \<and>
       read_lines p lines m = read_lines p lines (source_map_of_string (fs_items fs)))"
proof -
  obtain m where m: "source_map_of_file p fs = Some m" "file_map p (fs_items fs) m"
    using source_map_of_file_map [OF assms] by blast
  then show ?thesis
    using read_lines_file [OF m(2)]
    by (auto simp: file_map_def locate_def offset_of_def num_lines_def read_lines_string)
qed

theorem line_content_file_eq_contiguous_witness:
  "\<exists>m. source_map_of_file 2 (fs_open 2 [CHR ''a'', CHR ''b'', CHR 0x0A, CHR ''c''] ''--'' ''--'') = Some m \<and>
     read_lines 2 [2, 1, 7] m = read_lines 2 [2, 1, 7] (source_map_of_string [CHR ''a'', CHR ''b'', CHR 0x0A, CHR ''c''])"
proof -
  let ?fs = "fs_open 2 [CHR ''a'', CHR ''b'', CHR 0x0A, CHR ''c''] ''--'' ''--''"
  have "fs_inv 2 ?fs" "fs_items ?fs = [CHR ''a'', CHR ''b'', CHR 0x0A, CHR ''c'']"
    by (simp_all add: fs_inv_open)
  with line_content_file_eq_contiguous [of 2 ?fs] show ?thesis by (auto simp del: read_lines.simps)
qed

subsection \<open>Offsets and lines\<close>

lemma filter_newline_between:
  assumes "prescan s ! i \<le> k" and "i < length (prescan s)" and "k < length s"
    and "Suc i < length (prescan s) \<Longrightarrow> k < prescan s ! Suc i - 1"
  shows "s ! k \<noteq> newline"
proof
  assume "s ! k = newline"
  then have "Suc k \<in> set (prescan s)"
    using assms(3) by (simp add: prescan_eq)
  then obtain j where j: "j < length (prescan s)" "prescan s ! j = Suc k"
    by (auto simp: in_set_conv_nth)
  from assms(1,2) j have "i < j"
    using prescan_mono [of j i s] by (cases i j rule: linorder_cases) auto
  then have "prescan s ! Suc i \<le> prescan s ! j"
    using prescan_mono [of "Suc i" j s] j by (cases "Suc i = j") auto
  with assms(4) j \<open>i < j\<close> show False by auto
qed

lemma prescan_after_newline:
  "0 < i \<Longrightarrow> i < length (prescan s) \<Longrightarrow> prescan s ! i > 0 \<and> s ! (prescan s ! i - 1) = newline"
proof -
  assume i: "0 < i" "i < length (prescan s)"
  then have "prescan s ! i \<in> set (tl (prescan s))"
    by (metis One_nat_def Suc_less_eq Suc_pred diff_less_mono length_tl nth_mem nth_tl less_eq_Suc_le)
  then show ?thesis
    by (auto simp: prescan_eq)
qed

lemma column_count:
  assumes "ls \<le> m" and "m \<le> length s" and "0 < ls \<Longrightarrow> s ! (ls - 1) = newline"
    and "\<And>k. ls \<le> k \<Longrightarrow> k < m \<Longrightarrow> s ! k \<noteq> newline"
  shows "length (takeWhile (\<lambda>c. c \<noteq> newline) (rev (take m s))) = m - ls"
proof -
  have "take m s = take ls s @ drop ls (take m s)"
    using assms(1) by (metis append_take_drop_id min.absorb1 take_take)
  then have split: "rev (take m s) = rev (drop ls (take m s)) @ rev (take ls s)"
    by (metis rev_append)
  have all: "\<forall>c\<in>set (rev (drop ls (take m s))). c \<noteq> newline"
    using assms(2,4) by (auto simp: in_set_conv_nth)
  have "takeWhile (\<lambda>c. c \<noteq> newline) (rev (take ls s)) = []"
  proof (cases "0 < ls")
    case True
    then have "take ls s = take (ls - 1) s @ [newline]"
      using assms(1-3) take_Suc_conv_app_nth [of "ls - 1" s] by simp
    then show ?thesis by simp
  next
    case False
    then show ?thesis by simp
  qed
  with split all have "takeWhile (\<lambda>c. c \<noteq> newline) (rev (take m s)) = rev (drop ls (take m s))"
    by (simp add: takeWhile_append)
  then show ?thesis using assms(1,2) by simp
qed

lemma located_column:
  assumes "upper_bound (prescan s) off = Suc i"
  shows "1 + length (takeWhile (\<lambda>c. c \<noteq> newline) (rev (take off s))) + (off - length s)
      = off - prescan s ! i + 1"
    and "length (filter (\<lambda>c. c = newline) (take off s)) = i"
proof -
  have i: "i < length (prescan s)" "prescan s ! i \<le> off" "Suc i < length (prescan s) \<longrightarrow> off < prescan s ! Suc i"
    using located_line [of s off] assms by auto
  let ?m = "min off (length s)"
  have ls: "prescan s ! i \<le> length s"
    using i(1) by (intro prescan_bound nth_mem)
  have "length (takeWhile (\<lambda>c. c \<noteq> newline) (rev (take ?m s))) = ?m - prescan s ! i"
  proof (rule column_count)
    show "prescan s ! i \<le> ?m" using i(2) ls by simp
    show "s ! (prescan s ! i - 1) = newline" if "0 < prescan s ! i"
      using that prescan_after_newline [of i s] i(1) by (cases i) auto
    show "s ! k \<noteq> newline" if k: "prescan s ! i \<le> k" "k < ?m" for k
      using i k by (intro filter_newline_between [of s i k]) auto
  qed simp
  then show "1 + length (takeWhile (\<lambda>c. c \<noteq> newline) (rev (take off s))) + (off - length s)
      = off - prescan s ! i + 1"
    using i(2) ls by (simp add: min_def split: if_splits)
  show "length (filter (\<lambda>c. c = newline) (take off s)) = i"
    using upper_bound_count [of s off] assms by simp
qed

text \<open>
  C19: for a text whose length and an offset that fit in a \<open>size_t\<close>, \<open>locate\<close> gives the line
  that holds the offset (one more than the number of newlines before it) and the column
  counted from that line's start; for an offset past the end the line is the last one and
  the column still counts the raw offset. The one exception is the offset \<open>npos\<close> on a text
  without newlines, whose column wraps to \<open>0\<close>.
\<close>

theorem locate_correct:
  assumes "off < 2 ^ 64" and "length s < 2 ^ 64"
  shows "locate (source_map_of_string s) off =
     \<lparr>sl_offset = off,
      sl_line = 1 + length (filter (\<lambda>c. c = newline) (take off s)),
      sl_column =
        (if off = npos \<and> newline \<notin> set s then 0
         else 1 + length (takeWhile (\<lambda>c. c \<noteq> newline) (rev (take off s))) + (off - length s))\<rparr>"
proof -
  obtain i where i: "upper_bound (prescan s) off = Suc i" "i < length (prescan s)" "prescan s ! i \<le> off"
    using located_line [of s off] by blast
  have "(off - prescan s ! i + 1) mod 2 ^ 64 = (if off = npos \<and> newline \<notin> set s then 0 else off - prescan s ! i + 1)"
  proof (cases "off = npos")
    case True
    show ?thesis
    proof (cases "newline \<in> set s")
      case False
      then have "filter (\<lambda>c. c = newline) (take off s) = []"
        by (auto simp: filter_empty_conv dest: in_set_takeD)
      then have "i = 0" using located_column(2) [OF i(1)] by simp
      then show ?thesis using False True by (simp add: npos_def)
    next
      case nl: True
      have "take off s = s" using True assms(2) by (simp add: npos_def)
      then have "0 < i"
        using nl located_column(2) [OF i(1)] by (auto simp: filter_empty_conv)
      then have "0 < prescan s ! i" using prescan_mono [of 0 i s] i(2) by simp
      then show ?thesis using nl assms(1) i(3) by simp
    qed
  next
    case False
    then have "off - prescan s ! i + 1 < 2 ^ 64" using assms(1) by (simp add: npos_def)
    then show ?thesis using False by simp
  qed
  then show ?thesis
    using located_column [OF i(1)] i(1) by (simp add: locate_def Let_def)
qed

theorem locate_correct_witness:
  "locate (source_map_of_string [CHR ''a'', CHR 0x0A, CHR ''b'']) 2 = \<lparr>sl_offset = 2, sl_line = 2, sl_column = 1\<rparr>"
  using locate_correct [of 2 "[CHR ''a'', CHR 0x0A, CHR ''b'']"] by (simp add: newline_def npos_def)

text \<open>Columns are documented to start at one.\<close>

lemma locate_npos: "sl_column (locate (source_map_of_string ''a'') npos) = 0"
  by (simp add: locate_def Let_def upper_bound_def prescan_eq newline_def npos_def)

text \<open>
  C20: \<open>offset_of\<close> undoes \<open>locate\<close>, for every offset a 64-bit \<open>size_t\<close> can hold.
\<close>

theorem offset_of_locate:
  assumes "off < 2 ^ 64"
  shows "offset_of (source_map_of_string s) (sl_line (locate (source_map_of_string s) off))
           (sl_column (locate (source_map_of_string s) off)) = off"
proof -
  obtain i where i: "upper_bound (prescan s) off = Suc i" "i < length (prescan s)"
      "prescan s ! i \<le> off"
    using located_line [of s off] by blast
  have "(int (prescan s ! i) + (int ((off - prescan s ! i + 1) mod 2 ^ 64) - 1)) mod 2 ^ 64
      = (int (prescan s ! i) + (int (off - prescan s ! i + 1) - 1)) mod 2 ^ 64"
    by (simp only: zmod_int of_nat_power of_nat_numeral) (metis mod_add_right_eq mod_diff_left_eq)
  also have "\<dots> = int off mod 2 ^ 64"
    using i(3) by (simp add: of_nat_diff)
  also have "\<dots> = int off"
    using assms by (simp add: mod_pos_pos_trivial)
  finally show ?thesis
    using i by (simp add: offset_of_def locate_def Let_def zmod_int)
qed

theorem offset_of_locate_witness:
  "(7 :: nat) < 2 ^ 64 \<and>
   offset_of (source_map_of_string [CHR ''a'', newline, CHR ''b''])
     (sl_line (locate (source_map_of_string [CHR ''a'', newline, CHR ''b'']) 7))
     (sl_column (locate (source_map_of_string [CHR ''a'', newline, CHR ''b'']) 7)) = 7"
proof -
  have h: "(7 :: nat) < 2 ^ 64" by simp
  show ?thesis using h offset_of_locate [OF h] by blast
qed

text \<open>
  C21: \<open>locate\<close> undoes \<open>offset_of\<close> for every line of the text and every column that lies
  on that line (its terminator included), when line start, column and offset fit in 64 bits.
\<close>

theorem locate_offset_of:
  assumes "1 \<le> line" and "line \<le> num_lines (source_map_of_string s)" and "1 \<le> column"
    and "line < num_lines (source_map_of_string s) \<Longrightarrow> prescan s ! (line - 1) + column \<le> prescan s ! line"
    and "prescan s ! (line - 1) + column \<le> 2 ^ 64" and "column < 2 ^ 64"
  shows "locate (source_map_of_string s) (offset_of (source_map_of_string s) line column)
       = \<lparr>sl_offset = offset_of (source_map_of_string s) line column, sl_line = line, sl_column = column\<rparr>"
proof -
  let ?a = "prescan s ! (line - 1)" and ?o = "prescan s ! (line - 1) + column - 1"
  have len: "line \<le> length (prescan s)" using assms(2) by (simp add: num_lines_def)
  have "(int ?a + (int column - 1)) mod 2 ^ 64 = int ?o"
    using assms(3,5) by (simp add: mod_pos_pos_trivial of_nat_diff)
  then have off: "offset_of (source_map_of_string s) line column = ?o"
    using assms(1) len by (simp add: offset_of_def)
  have "line - 1 < upper_bound (prescan s) ?o"
    using assms(1,3) len by (simp add: upper_bound_split [OF prescan_sorted])
  moreover have "\<not> line < upper_bound (prescan s) ?o"
  proof (cases "line < length (prescan s)")
    case True
    with assms(3,4) show ?thesis
      by (simp add: upper_bound_split [OF prescan_sorted] num_lines_def)
  next
    case False
    with upper_bound_le [of "prescan s" ?o] show ?thesis by simp
  qed
  ultimately have "upper_bound (prescan s) ?o = line"
    using assms(1) by simp
  then show ?thesis
    using assms(1,3,6) by (simp add: off locate_def Let_def)
qed

theorem locate_offset_of_witness:
  "locate (source_map_of_string [CHR ''a'', newline, CHR ''b''])
     (offset_of (source_map_of_string [CHR ''a'', newline, CHR ''b'']) 2 1)
   = \<lparr>sl_offset = 2, sl_line = 2, sl_column = 1\<rparr>"
proof -
  let ?s = "[CHR ''a'', newline, CHR ''b'']"
  have p: "prescan ?s = [0, 2]"
    by (simp add: prescan_eq newline_def)
  have "offset_of (source_map_of_string ?s) 2 1 = 2"
    by (simp add: offset_of_def p)
  moreover have "locate (source_map_of_string ?s) (offset_of (source_map_of_string ?s) 2 1)
      = \<lparr>sl_offset = offset_of (source_map_of_string ?s) 2 1, sl_line = 2, sl_column = 1\<rparr>"
    by (rule locate_offset_of) (simp_all add: num_lines_def p)
  ultimately show ?thesis by simp
qed

end
