(* ===== verification/Input_Source.thy ===== *)
theory Input_Source
  imports File_Source
begin

text \<open>
  \<open>include/peglib/InputSource.h\<close>: the interface a parse context reads its input through
  (\<open>at\<close>, \<open>size\<close>, \<open>release_before\<close>, and \<open>slice\<close> built on them), as a locale; its two
  providers, \<open>SpanSource\<close> (a contiguous range) and \<open>FileSourceSource\<close> (a paged file),
  as interpretations. The rest of the development reads input as a list of elements, which
  is what every provider of the interface shows.
\<close>

subsection \<open>The interface\<close>

fun slice_loop :: "(nat \<Rightarrow> 's \<Rightarrow> ('v \<times> 's) option) \<Rightarrow> nat \<Rightarrow> nat \<Rightarrow> 's \<Rightarrow> ('v list \<times> 's) option" where
  "slice_loop at_op offset 0 s = Some ([], s)"
| "slice_loop at_op offset (Suc n) s =
     (case at_op offset s of
        None \<Rightarrow> None
      | Some (v, s1) \<Rightarrow> map_option (\<lambda>(vs, s2). (v # vs, s2)) (slice_loop at_op (Suc offset) n s1))"

definition slice ::
  "('s \<Rightarrow> 'v list option) \<Rightarrow> (nat \<Rightarrow> 's \<Rightarrow> ('v \<times> 's) option) \<Rightarrow> nat \<Rightarrow> nat \<Rightarrow> 's \<Rightarrow> ('v list \<times> 's) option" where
  "slice contiguous_data at_op offset count s =
     (case contiguous_data s of
        Some d \<Rightarrow> (if offset + count \<le> length d then Some (take count (drop offset d), s) else None)
      | None \<Rightarrow> slice_loop at_op offset count s)"

datatype input_op = ReadAt nat | ReleaseBefore nat

fun run_ops ::
  "(nat \<Rightarrow> 's \<Rightarrow> ('v \<times> 's) option) \<Rightarrow> (nat \<Rightarrow> 's \<Rightarrow> 's) \<Rightarrow> input_op list \<Rightarrow> 's \<Rightarrow> 'v list option" where
  "run_ops at_op rel_op [] s = Some []"
| "run_ops at_op rel_op (ReadAt i # ops) s =
     (case at_op i s of
        None \<Rightarrow> None
      | Some (v, s') \<Rightarrow> map_option ((#) v) (run_ops at_op rel_op ops s'))"
| "run_ops at_op rel_op (ReleaseBefore i # ops) s = run_ops at_op rel_op ops (rel_op i s)"

fun reads_in_range :: "nat \<Rightarrow> input_op list \<Rightarrow> bool" where
  "reads_in_range n [] = True"
| "reads_in_range n (ReadAt i # ops) = (i < n \<and> reads_in_range n ops)"
| "reads_in_range n (ReleaseBefore i # ops) = reads_in_range n ops"

fun read_values :: "'v list \<Rightarrow> input_op list \<Rightarrow> 'v list" where
  "read_values xs [] = []"
| "read_values xs (ReadAt i # ops) = xs ! i # read_values xs ops"
| "read_values xs (ReleaseBefore i # ops) = read_values xs ops"

locale input_source =
  fixes at_op :: "nat \<Rightarrow> 's \<Rightarrow> ('v \<times> 's) option"
    and size_op :: "'s \<Rightarrow> nat"
    and release_op :: "nat \<Rightarrow> 's \<Rightarrow> 's"
    and content :: "'s \<Rightarrow> 'v list"
    and inv :: "'s \<Rightarrow> bool"
  assumes size_content: "inv s \<Longrightarrow> size_op s = length (content s)"
    and at_content: "inv s \<Longrightarrow> i < length (content s) \<Longrightarrow>
      \<exists>s'. at_op i s = Some (content s ! i, s') \<and> inv s' \<and> content s' = content s"
    and release_inv: "inv s \<Longrightarrow> inv (release_op i s)"
    and release_content: "inv s \<Longrightarrow> content (release_op i s) = content s"
begin

lemma slice_loop_content:
  assumes "inv s" and "offset + count \<le> length (content s)"
  shows "\<exists>s'. slice_loop at_op offset count s = Some (take count (drop offset (content s)), s')
              \<and> inv s' \<and> content s' = content s"
  using assms
proof (induction count arbitrary: offset s)
  case 0
  then show ?case by simp
next
  case (Suc n)
  then obtain s1 where s1: "at_op offset s = Some (content s ! offset, s1)" "inv s1"
      "content s1 = content s"
    using at_content [of s offset] by auto
  then obtain s2 where "slice_loop at_op (Suc offset) n s1
      = Some (take n (drop (Suc offset) (content s)), s2)" "inv s2" "content s2 = content s"
    using Suc.IH [of s1 "Suc offset"] Suc.prems by auto
  moreover have "take (Suc n) (drop offset (content s))
      = content s ! offset # take n (drop (Suc offset) (content s))"
    using Suc.prems by (simp add: Cons_nth_drop_Suc [symmetric])
  ultimately show ?case using s1 by simp
qed

lemma run_ops_content:
  assumes "inv s" and "reads_in_range (size_op s) ops"
  shows "run_ops at_op release_op ops s = Some (read_values (content s) ops)"
  using assms
proof (induction ops arbitrary: s)
  case Nil
  then show ?case by simp
next
  case (Cons op ops)
  show ?case
  proof (cases op)
    case (ReadAt i)
    with Cons.prems obtain s' where s': "at_op i s = Some (content s ! i, s')" "inv s'"
        "content s' = content s"
      using at_content [of s i] by (auto simp: size_content)
    then have "run_ops at_op release_op ops s' = Some (read_values (content s') ops)"
      using Cons.prems ReadAt by (intro Cons.IH) (auto simp: size_content)
    with s' ReadAt show ?thesis by simp
  next
    case (ReleaseBefore i)
    then have "run_ops at_op release_op ops (release_op i s)
        = Some (read_values (content (release_op i s)) ops)"
      using Cons.prems
      by (intro Cons.IH) (auto simp: size_content release_inv release_content)
    with ReleaseBefore Cons.prems(1) show ?thesis by (simp add: release_content)
  qed
qed

end

subsection \<open>The two providers\<close>

text \<open>\<open>SpanSource\<close>: the state is the range itself; reading past it is undefined.\<close>

definition span_at :: "nat \<Rightarrow> 'v list \<Rightarrow> ('v \<times> 'v list) option" where
  "span_at i s = (if i < length s then Some (s ! i, s) else None)"

definition span_size :: "'v list \<Rightarrow> nat" where
  "span_size s = length s"

definition span_release_before :: "nat \<Rightarrow> 'v list \<Rightarrow> 'v list" where
  "span_release_before i s = s"

definition span_contiguous :: "'v list \<Rightarrow> 'v list option" where
  "span_contiguous s = Some s"

definition file_contiguous :: "'v file_state \<Rightarrow> 'v list option" where
  "file_contiguous s = None"

interpretation span: input_source span_at span_size span_release_before "\<lambda>s. s" "\<lambda>_. True"
  by unfold_locales (auto simp: span_at_def span_size_def span_release_before_def)

interpretation paged: input_source "fs_get p" fs_size fs_release_before fs_items "fs_inv p" for p
  by unfold_locales
    (simp add: fs_size_def fs_inv_def, simp_all add: fs_get_items fs_inv_release)


text \<open>
  C24: a paged file is indistinguishable from the same items in memory: every sequence of
  reads and releases, in any order and over any page size, gives the same values.
\<close>

theorem paged_equals_span:
  assumes "0 < p" and "length a0 = p" and "length a1 = p" and "reads_in_range (length items) ops"
  shows "run_ops (fs_get p) fs_release_before ops (fs_open p items a0 a1)
       = run_ops span_at span_release_before ops items"
proof -
  note opened = fs_inv_open [OF assms(1-3), of items]
  have "fs_size (fs_open p items a0 a1) = length items"
    using paged.size_content [OF opened(1)] opened(2) by simp
  then show ?thesis
    using paged.run_ops_content [OF opened(1), of ops] span.run_ops_content [of items ops]
      opened(2) assms(4) by (simp add: span_size_def)
qed

theorem paged_equals_span_witness:
  "run_ops (fs_get 2) fs_release_before [ReadAt 4, ReleaseBefore 5, ReadAt 0, ReadAt 4]
       (fs_open 2 ''peglib'' ''--'' ''--'') = Some ''ipi''"
  using paged_equals_span [of 2 "''--''" "''--''" "''peglib''" "[ReadAt 4, ReleaseBefore 5, ReadAt 0, ReadAt 4]"]
  by (simp add: span_at_def span_release_before_def)

text \<open>
  \<open>slice\<close> gives the same elements over a paged file as over a contiguous range, where
  it copies the elements in one go.
\<close>

theorem slice_paged_equals_span:
  assumes "fs_inv p s" and "offset + count \<le> length (fs_items s)"
  shows "map_option fst (slice file_contiguous (fs_get p) offset count s)
       = map_option fst (slice span_contiguous span_at offset count (fs_items s))"
  using paged.slice_loop_content [OF assms] assms(2)
  by (auto simp: slice_def file_contiguous_def span_contiguous_def)

theorem slice_paged_equals_span_witness:
  "map_option fst (slice file_contiguous (fs_get 2) 1 3 (fs_open 2 ''peglib'' ''--'' ''--''))
     = Some ''egl''"
proof -
  have "fs_inv 2 (fs_open 2 ''peglib'' ''--'' ''--'')"
    by (rule fs_inv_open) simp_all
  then show ?thesis
    using slice_paged_equals_span [of 2 "fs_open 2 ''peglib'' ''--'' ''--''" 1 3]
    by (simp add: fs_inv_open(2) slice_def span_contiguous_def)
qed

end
