(* ===== verification/Expected.thy ===== *)
theory Expected
  imports Source_Map "HOL-Library.Word"
begin

text \<open>
  \<open>include/peglib/ParseError.h\<close>: the items recorded at the furthest failure, the sorted
  vector that stores them (\<open>ExpectedSet\<close>), the rendering of elements for messages, and the
  two carriers of a failure (\<open>Diagnostic\<close>, \<open>ParseError\<close>). \<open>std::lower_bound\<close> on a sorted
  vector is the number of leading elements below the key; \<open>std::sort\<close> and \<open>std::unique\<close>
  are \<open>sort\<close> and \<open>remdups_adj\<close>; \<open>std::string\<close> compares bytes as unsigned, which is the
  order of \<open>char\<close> here.
\<close>

unbundle bit_operations_syntax

subsection \<open>Expected items\<close>

datatype expected_kind = RuleLabel | RuleName | Literal | Range

datatype expected_item = ExpectedItem (ei_kind: expected_kind) (ei_text: string)

primrec kind_index :: "expected_kind \<Rightarrow> nat" where
  "kind_index RuleLabel = 0"
| "kind_index RuleName = 1"
| "kind_index Literal = 2"
| "kind_index Range = 3"

lemma kind_index_inject [simp]: "kind_index a = kind_index b \<longleftrightarrow> a = b"
  by (cases a; cases b) simp_all

definition item_less :: "expected_item \<Rightarrow> expected_item \<Rightarrow> bool" where
  "item_less a b =
     (if ei_kind a \<noteq> ei_kind b then kind_index (ei_kind a) < kind_index (ei_kind b)
      else ei_text a < ei_text b)"

instantiation expected_item :: linorder
begin

definition less_expected_item :: "expected_item \<Rightarrow> expected_item \<Rightarrow> bool" where
  "less_expected_item a b = item_less a b"

definition less_eq_expected_item :: "expected_item \<Rightarrow> expected_item \<Rightarrow> bool" where
  "less_eq_expected_item a b = (item_less a b \<or> a = b)"

instance
proof
  fix x y z :: expected_item
  show "(x < y) = (x \<le> y \<and> \<not> y \<le> x)"
    by (cases x; cases y)
       (auto simp: less_expected_item_def less_eq_expected_item_def item_less_def split: if_splits)
  show "x \<le> x"
    by (simp add: less_eq_expected_item_def)
  show "x \<le> z" if "x \<le> y" "y \<le> z"
    using that by (cases x; cases y; cases z)
       (auto simp: less_eq_expected_item_def item_less_def split: if_splits)
  show "x = y" if "x \<le> y" "y \<le> x"
    using that by (cases x; cases y)
       (auto simp: less_eq_expected_item_def item_less_def split: if_splits)
  show "x \<le> y \<or> y \<le> x"
    by (cases x; cases y)
       (auto simp: less_eq_expected_item_def item_less_def split: if_splits,
        metis kind_index_inject nat_neq_iff)
qed

end

subsection \<open>The expected set\<close>

type_synonym expected_set = "expected_item list"

definition lower_bound :: "'a::linorder list \<Rightarrow> 'a \<Rightarrow> nat" where
  "lower_bound xs k = length (takeWhile (\<lambda>x. x < k) xs)"

definition es_insert :: "expected_item \<Rightarrow> expected_set \<Rightarrow> expected_set" where
  "es_insert item xs =
     (let it = lower_bound xs item
      in if it < length xs \<and> xs ! it = item then xs
         else take it xs @ item # drop it xs)"

definition es_of_list :: "expected_item list \<Rightarrow> expected_set" where
  "es_of_list xs = remdups_adj (sort xs)"

text \<open>
  What a client of the set relies on: an order-insensitive collection without duplicates,
  in iteration order.
\<close>

locale item_store =
  fixes empty_op :: "'s"
    and insert_op :: "'a::linorder \<Rightarrow> 's \<Rightarrow> 's"
    and items :: "'s \<Rightarrow> 'a::linorder list"
    and inv :: "'s \<Rightarrow> bool"
  assumes inv_empty: "inv empty_op"
    and items_empty: "items empty_op = []"
    and inv_insert: "inv s \<Longrightarrow> inv (insert_op x s)"
    and items_insert: "inv s \<Longrightarrow> set (items (insert_op x s)) = insert x (set (items s))"
    and inv_sorted: "inv s \<Longrightarrow> sorted_wrt (<) (items s)"
begin

lemma fold_insert:
  "inv s \<Longrightarrow> inv (fold insert_op xs s) \<and> set (items (fold insert_op xs s)) = set xs \<union> set (items s)"
  by (induction xs arbitrary: s) (auto simp: inv_insert items_insert)

lemma items_determined:
  "inv s \<Longrightarrow> inv t \<Longrightarrow> set (items s) = set (items t) \<Longrightarrow> items s = items t"
  using inv_sorted by (metis strict_sorted_equal)

lemma fold_insert_cong:
  "set xs = set ys \<Longrightarrow> items (fold insert_op xs empty_op) = items (fold insert_op ys empty_op)"
  using fold_insert [OF inv_empty] by (intro items_determined) auto

end

lemma lower_bound_split:
  assumes "sorted_wrt (<) xs"
  shows "\<forall>x\<in>set (take (lower_bound xs k) xs). x < k" "\<forall>x\<in>set (drop (lower_bound xs k) xs). k \<le> x"
proof -
  have "take (lower_bound xs k) xs = takeWhile (\<lambda>x. x < k) xs"
    by (simp add: lower_bound_def takeWhile_eq_take [symmetric])
  then show "\<forall>x\<in>set (take (lower_bound xs k) xs). x < k"
    by (auto dest: set_takeWhileD)
  have "drop (lower_bound xs k) xs = dropWhile (\<lambda>x. x < k) xs"
    by (simp add: lower_bound_def dropWhile_eq_drop [symmetric])
  moreover have "\<forall>x\<in>set (dropWhile (\<lambda>x. x < k) xs). k \<le> x"
    using assms
    by (induction xs) (auto intro: order.trans less_imp_le)
  ultimately show "\<forall>x\<in>set (drop (lower_bound xs k) xs). k \<le> x"
    by simp
qed

lemma es_insert_sorted:
  assumes "sorted_wrt (<) xs"
  shows "sorted_wrt (<) (es_insert k xs)" and "set (es_insert k xs) = insert k (set xs)"
proof -
  let ?i = "lower_bound xs k"
  have split: "xs = take ?i xs @ drop ?i xs" by simp
  have "sorted_wrt (<) (take ?i xs @ k # drop ?i xs)"
    if *: "\<not> (?i < length xs \<and> xs ! ?i = k)"
  proof -
    have "\<forall>x\<in>set (drop ?i xs). k < x"
    proof (cases "?i < length xs")
      case True
      with * have "xs ! ?i \<noteq> k" by simp
      moreover have drop: "drop ?i xs = xs ! ?i # drop (Suc ?i) xs"
        using True by (simp add: Cons_nth_drop_Suc)
      ultimately have "k < xs ! ?i"
        using lower_bound_split(2) [OF assms, of k] by (auto simp: less_le)
      moreover have "sorted_wrt (<) (xs ! ?i # drop (Suc ?i) xs)"
        using assms split drop by (metis sorted_wrt_append)
      ultimately show ?thesis
        using drop by (auto intro: less_trans)
    next
      case False
      then show ?thesis by simp
    qed
    moreover have "sorted_wrt (<) (take ?i xs)" "sorted_wrt (<) (drop ?i xs)"
      using assms by (simp_all add: sorted_wrt_take sorted_wrt_drop)
    ultimately show ?thesis
      using lower_bound_split(1) [OF assms, of k] by (auto simp: sorted_wrt_append intro: less_trans)
  qed
  with assms show "sorted_wrt (<) (es_insert k xs)"
    by (simp add: es_insert_def Let_def)
  have all: "set (take ?i xs) \<union> set (drop ?i xs) = set xs"
    by (metis set_append split)
  show "set (es_insert k xs) = insert k (set xs)"
  proof (cases "?i < length xs \<and> xs ! ?i = k")
    case True
    then have "k \<in> set xs" by (metis nth_mem)
    with True show ?thesis by (simp add: es_insert_def Let_def insert_absorb)
  next
    case False
    then have "es_insert k xs = take ?i xs @ k # drop ?i xs"
      by (simp only: es_insert_def Let_def if_False)
    with all show ?thesis by auto
  qed
qed

lemma strict_remdups_adj: "sorted (xs :: 'a::linorder list) \<Longrightarrow> sorted_wrt (<) (remdups_adj xs)"
proof (induction xs rule: remdups_adj.induct)
  case (3 x y xs)
  then show ?case
    by (cases "x = y") (auto intro: le_neq_trans dest: bspec)
qed simp_all

lemma es_of_list_sorted: "sorted_wrt (<) (es_of_list xs)" "set (es_of_list xs) = set xs"
  by (simp_all add: es_of_list_def strict_remdups_adj)

interpretation es: item_store "[]" es_insert "\<lambda>s. s" "sorted_wrt (<)"
  by unfold_locales (simp_all add: es_insert_sorted)


text \<open>
  C26: inserting keeps the vector sorted and free of duplicates and adds exactly the item;
  an item already present leaves it unchanged.
\<close>

theorem es_insert_correct:
  assumes "sorted_wrt (<) xs"
  shows "sorted_wrt (<) (es_insert item xs) \<and> distinct (es_insert item xs)
       \<and> set (es_insert item xs) = insert item (set xs)
       \<and> (item \<in> set xs \<longrightarrow> es_insert item xs = xs)"
proof -
  have s: "sorted_wrt (<) (es_insert item xs)" "set (es_insert item xs) = insert item (set xs)"
    using es_insert_sorted [OF assms] by blast+
  then have "es_insert item xs = xs" if "item \<in> set xs"
    using that assms by (intro strict_sorted_equal) (simp_all add: insert_absorb)
  with s show ?thesis by (simp add: sorted_wrt_less_distinct)
qed

theorem es_insert_correct_witness:
  "sorted_wrt (<) (es_insert (ExpectedItem Literal ''b'') [ExpectedItem RuleName ''z'', ExpectedItem Literal ''c''])"
proof -
  have "sorted_wrt (<) [ExpectedItem RuleName ''z'', ExpectedItem Literal ''c'']"
    by (simp add: less_expected_item_def item_less_def)
  then show ?thesis
    using es_insert_correct [of "[ExpectedItem RuleName ''z'', ExpectedItem Literal ''c'']"
        "ExpectedItem Literal ''b''"] by blast
qed

text \<open>
  The order in which failures are reported does not matter: inserting the same items
  in any order, with repetitions, gives the same vector, the one the sorting constructor
  builds from them.
\<close>

theorem es_insert_order_irrelevant:
  "fold es_insert xs [] = es_of_list xs"
  using es.fold_insert [of "[]" xs] es_of_list_sorted [of xs]
  by (intro strict_sorted_equal) auto

end
