(* ===== verification/Display.thy ===== *)
theory Display
  imports Expected
begin

text \<open>
  \<open>include/peglib/ParseError.h\<close>, rendering: the display of an element as UTF-8
  (\<open>to_display_cpo\<close>), the escapes of characters and strings in messages, and the texts of
  \<open>Diagnostic::format\<close> and \<open>ParseError::what\<close>. A C++ \<open>char\<close> is an Isabelle \<open>char\<close> (one
  byte), a wide integral \<open>CharT\<close> is its value as a \<open>32 word\<close>, and \<open>static_cast<char>\<close>
  keeps the low eight bits, which is what \<open>char_of\<close> does.
\<close>

subsection \<open>Elements as UTF-8\<close>

definition byte_of_word :: "32 word \<Rightarrow> char" where
  "byte_of_word w = char_of (unat w)"

definition char_to_display :: "char \<Rightarrow> string" where
  "char_to_display c = [c]"

definition wide_to_display :: "32 word \<Rightarrow> string" where
  "wide_to_display cp =
     (if cp \<le> 0x7F then [byte_of_word cp]
      else if cp \<le> 0x7FF then
        [byte_of_word (0xC0 OR drop_bit 6 cp), byte_of_word (0x80 OR (cp AND 0x3F))]
      else if cp \<le> 0xFFFF then
        [byte_of_word (0xE0 OR drop_bit 12 cp),
         byte_of_word (0x80 OR (drop_bit 6 cp AND 0x3F)),
         byte_of_word (0x80 OR (cp AND 0x3F))]
      else
        [byte_of_word (0xF0 OR drop_bit 18 cp),
         byte_of_word (0x80 OR (drop_bit 12 cp AND 0x3F)),
         byte_of_word (0x80 OR (drop_bit 6 cp AND 0x3F)),
         byte_of_word (0x80 OR (cp AND 0x3F))])"

text \<open>A non-integral element: the hook found by ADL, or the placeholder.\<close>

definition custom_or_placeholder :: "('c \<Rightarrow> string) option \<Rightarrow> 'c \<Rightarrow> string" where
  "custom_or_placeholder hook c = (case hook of Some f \<Rightarrow> f c | None \<Rightarrow> ''<token>'')"

subsection \<open>Escapes\<close>

definition hex_digit :: "nat \<Rightarrow> char" where
  "hex_digit d = (if d < 10 then char_of (48 + d) else char_of (55 + d))"

fun hex_fixed :: "nat \<Rightarrow> nat \<Rightarrow> string" where
  "hex_fixed 0 n = []"
| "hex_fixed (Suc k) n = hex_fixed k (n div 16) @ [hex_digit (n mod 16)]"

definition quote_char :: char where "quote_char = CHR 0x27"
definition dquote_char :: char where "dquote_char = CHR 0x22"
definition backslash :: char where "backslash = CHR 0x5C"

text \<open>\<open>static_cast<std::uint32_t>\<close> of a (signed) \<open>char\<close> extends the sign.\<close>

definition char_to_u32 :: "char \<Rightarrow> nat" where
  "char_to_u32 c = (let b = of_char c in if b < 128 then b else b + 0xFFFFFF00)"

definition escape_char :: "char \<Rightarrow> string" where
  "escape_char c =
     (let v = char_to_u32 c
      in [quote_char] @
         (if v = 9 then [backslash, CHR ''t'']
          else if v = 10 then [backslash, CHR ''n'']
          else if v = 13 then [backslash, CHR ''r'']
          else if v = 92 then [backslash, backslash]
          else if v = 39 then [backslash, quote_char]
          else if 0x20 \<le> v \<and> v \<le> 0x7E then [char_of v]
          else [backslash, CHR ''x''] @ hex_fixed 2 (of_char c)) @
         [quote_char])"

definition escape_wide_char :: "32 word \<Rightarrow> string" where
  "escape_wide_char c =
     (let v = unat c
      in [quote_char] @
         (if v = 9 then [backslash, CHR ''t'']
          else if v = 10 then [backslash, CHR ''n'']
          else if v = 13 then [backslash, CHR ''r'']
          else if v = 92 then [backslash, backslash]
          else if v = 39 then [backslash, quote_char]
          else if 0x20 \<le> v \<and> v \<le> 0x7E then [char_of v]
          else [backslash, CHR ''U''] @ hex_fixed 8 v) @
         [quote_char])"

definition escape_custom :: "('c \<Rightarrow> string) option \<Rightarrow> 'c \<Rightarrow> string" where
  "escape_custom hook c = [CHR ''<''] @ custom_or_placeholder hook c @ [CHR ''>'']"

definition escape_str_char :: "char \<Rightarrow> string" where
  "escape_str_char c =
     (let b = of_char c :: nat
      in if b = 9 then [backslash, CHR ''t'']
         else if b = 10 then [backslash, CHR ''n'']
         else if b = 13 then [backslash, CHR ''r'']
         else if b = 92 then [backslash, backslash]
         else if b = 34 then [backslash, dquote_char]
         else if 0x20 \<le> b \<and> b \<le> 0x7E then [c]
         else [backslash, CHR ''x''] @ hex_fixed 2 b)"

definition escape_string :: "string \<Rightarrow> string" where
  "escape_string s = [dquote_char] @ concat (map escape_str_char s) @ [dquote_char]"

definition escape_str_wide :: "32 word \<Rightarrow> string" where
  "escape_str_wide c =
     (let v = unat c
      in if v = 9 then [backslash, CHR ''t'']
         else if v = 10 then [backslash, CHR ''n'']
         else if v = 13 then [backslash, CHR ''r'']
         else if v = 92 then [backslash, backslash]
         else if v = 34 then [backslash, dquote_char]
         else if 0x20 \<le> v \<and> v \<le> 0x7E then [char_of v]
         else [backslash, CHR ''U''] @ hex_fixed 8 v)"

definition escape_wide_string :: "32 word list \<Rightarrow> string" where
  "escape_wide_string s = [dquote_char] @ concat (map escape_str_wide s) @ [dquote_char]"

text \<open>
  What the engine uses of the element type: its display, its escape and its order. The
  three dictionaries are the template instances the library supports.
\<close>

record 'c elem_ops =
  to_display :: "'c \<Rightarrow> string"
  escape_for_expected :: "'c \<Rightarrow> string"
  elem_le :: "'c \<Rightarrow> 'c \<Rightarrow> bool"

definition signed_char :: "char \<Rightarrow> int" where
  "signed_char c = (let b = of_char c in if b < 128 then b else b - 256)"

definition char_ops :: "char elem_ops" where
  "char_ops = \<lparr>to_display = char_to_display, escape_for_expected = escape_char,
               elem_le = (\<lambda>a b. signed_char a \<le> signed_char b)\<rparr>"

definition char32_ops :: "32 word elem_ops" where
  "char32_ops = \<lparr>to_display = wide_to_display, escape_for_expected = escape_wide_char,
                 elem_le = (\<le>)\<rparr>"

definition token_ops :: "('c \<Rightarrow> string) option \<Rightarrow> ('c \<Rightarrow> 'c \<Rightarrow> bool) \<Rightarrow> 'c elem_ops" where
  "token_ops hook le = \<lparr>to_display = custom_or_placeholder hook,
                        escape_for_expected = escape_custom hook, elem_le = le\<rparr>"

subsection \<open>Diagnostics\<close>

datatype diagnostic = Diagnostic (diag_pos: nat) (diag_expected: expected_set)

datatype parse_error = ParseError (err_pos: nat) (err_expected: expected_set)

fun dec_string :: "nat \<Rightarrow> string" where
  "dec_string n = (if n < 10 then [char_of (48 + n)] else dec_string (n div 10) @ [char_of (48 + n mod 10)])"

declare dec_string.simps [simp del]

fun join_items :: "nat \<Rightarrow> nat \<Rightarrow> expected_item list \<Rightarrow> string" where
  "join_items n i [] = []"
| "join_items n i (item # rest) =
     (if 0 < i then (if i + 1 = n then '' or '' else '', '') else []) @ ei_text item
       @ join_items n (i + 1) rest"

definition diag_format :: "diagnostic \<Rightarrow> source_map \<Rightarrow> string \<Rightarrow> string" where
  "diag_format d m filename =
     (let loc = locate m (diag_pos d)
      in filename @ '':'' @ dec_string (sl_line loc) @ '':'' @ dec_string (sl_column loc) @ '': error: '' @
         (if diag_expected d = [] then ''unexpected input''
          else ''expected '' @ join_items (length (diag_expected d)) 0 (diag_expected d)))"

fun join_or :: "bool \<Rightarrow> expected_item list \<Rightarrow> string" where
  "join_or first [] = []"
| "join_or first (item # rest) = (if first then [] else '' or '') @ ei_text item @ join_or False rest"

definition error_what :: "parse_error \<Rightarrow> string" where
  "error_what e = ''parse error at offset '' @ dec_string (err_pos e) @
     (if err_expected e = [] then [] else '': expected '' @ join_or True (err_expected e))"

definition to_diagnostic :: "parse_error \<Rightarrow> diagnostic" where
  "to_diagnostic e = Diagnostic (err_pos e) (err_expected e)"

subsection \<open>UTF-8 decodes back\<close>

text \<open>A decoder for the four shapes of a UTF-8 sequence, over byte values.\<close>

fun utf8_decode :: "nat list \<Rightarrow> nat option" where
  "utf8_decode [a] = (if a < 128 then Some a else None)"
| "utf8_decode [a, b] = (if a div 32 = 6 \<and> b div 64 = 2 then Some ((a mod 32) * 64 + b mod 64) else None)"
| "utf8_decode [a, b, c] =
     (if a div 16 = 14 \<and> b div 64 = 2 \<and> c div 64 = 2
      then Some ((a mod 16) * 4096 + (b mod 64) * 64 + c mod 64) else None)"
| "utf8_decode [a, b, c, d] =
     (if a div 8 = 30 \<and> b div 64 = 2 \<and> c div 64 = 2 \<and> d div 64 = 2
      then Some ((a mod 8) * 262144 + (b mod 64) * 4096 + (c mod 64) * 64 + d mod 64) else None)"
| "utf8_decode _ = None"

lemma or_low_bits:
  assumes "x < 2 ^ k"
  shows "(2 ^ k * a :: nat) OR x = 2 ^ k * a + x"
proof -
  have x: "x = take_bit k x"
    using assms by (simp add: take_bit_nat_eq_self)
  have "push_bit k a AND take_bit k x = 0"
    by (rule bit_eqI) (auto simp: bit_and_iff bit_take_bit_iff bit_push_bit_iff)
  then have "push_bit k a OR x = push_bit k a + x"
    using x by (metis disjunctive_add_eq_or)
  then show ?thesis
    by (simp add: push_bit_eq_mult mult.commute)
qed

lemma unat_masks:
  "unat (x AND 0x3F :: 32 word) = unat x mod 64"
  "unat (drop_bit n x :: 32 word) = unat x div 2 ^ n"
proof -
  have "x AND 0x3F = take_bit 6 x"
    by (simp add: take_bit_eq_mask mask_eq_exp_minus_1)
  then have "unat (x AND 0x3F) = take_bit 6 (unat x)"
    by (simp only: unsigned_take_bit_eq)
  then show "unat (x AND 0x3F) = unat x mod 64"
    by (simp add: take_bit_eq_mod)
  show "unat (drop_bit n x) = unat x div 2 ^ n"
    by (simp only: unsigned_drop_bit_eq)
       (simp add: drop_bit_eq_div take_bit_nat_eq_self unsigned_less [of x, simplified])
qed

lemma unat_or_lead:
  "unat x < 64 \<Longrightarrow> unat (0x80 OR x :: 32 word) = 128 + unat x"
  "unat x < 32 \<Longrightarrow> unat (0xC0 OR x :: 32 word) = 192 + unat x"
  "unat x < 16 \<Longrightarrow> unat (0xE0 OR x :: 32 word) = 224 + unat x"
  using or_low_bits [of "unat x" 6 2] or_low_bits [of "unat x" 5 6] or_low_bits [of "unat x" 4 14]
  by (simp_all add: unsigned_or_eq)

lemma unat_or_lead4:
  "unat x < 8 \<Longrightarrow> unat (0xF0 OR x :: 32 word) = 240 + unat x"
  using or_low_bits [of "unat x" 3 30] by (simp add: unsigned_or_eq)

definition byte_value :: "char \<Rightarrow> nat" where
  "byte_value c = of_char c"

lemma byte_value_of_word: "byte_value (byte_of_word w) = unat w mod 256"
  by (simp add: byte_value_def byte_of_word_def)

lemmas utf8_bytes = byte_value_of_word unat_masks unat_or_lead unat_or_lead4

lemma digit_split: "a < k \<Longrightarrow> (k * q + a) div k = q \<and> (k * q + a) mod k = (a :: nat)"
  by (simp add: div_mult_self_is_m)

lemma cont_byte:
  "a < 64 \<Longrightarrow> (128 + a) div 64 = 2 \<and> (128 + a) mod 64 = (a :: nat)"
  using digit_split [of a 64 2] by simp

lemma lead_bytes:
  "a < 32 \<Longrightarrow> (192 + a) div 32 = 6 \<and> (192 + a) mod 32 = (a :: nat)"
  "a < 16 \<Longrightarrow> (224 + a) div 16 = 14 \<and> (224 + a) mod 16 = (a :: nat)"
  "a < 8 \<Longrightarrow> (240 + a) div 8 = 30 \<and> (240 + a) mod 8 = (a :: nat)"
  using digit_split [of a 32 6] digit_split [of a 16 14] digit_split [of a 8 30] by simp_all

lemma base64_digits:
  fixes n :: nat
  shows "n div 64 * 64 + n mod 64 = n"
    and "n div 4096 * 4096 + n div 64 mod 64 * 64 + n mod 64 = n"
    and "n div 262144 * 262144 + n div 4096 mod 64 * 4096 + n div 64 mod 64 * 64 + n mod 64 = n"
proof -
  have s: "m div 64 * 64 + m mod 64 = m" for m :: nat
    by (rule div_mult_mod_eq)
  have q: "n div 4096 = n div 64 div 64" "n div 262144 = n div 64 div 64 div 64"
    by (simp_all add: div_mult2_eq [symmetric])
  show "n div 64 * 64 + n mod 64 = n" by (rule s)
  show "n div 4096 * 4096 + n div 64 mod 64 * 64 + n mod 64 = n"
    using s [of n] s [of "n div 64"] unfolding q by linarith
  show "n div 262144 * 262144 + n div 4096 mod 64 * 4096 + n div 64 mod 64 * 64 + n mod 64 = n"
    using s [of n] s [of "n div 64"] s [of "n div 64 div 64"] unfolding q by linarith
qed

lemma utf8_decode_bytes:
  "a < 32 \<Longrightarrow> b < 64 \<Longrightarrow> utf8_decode [192 + a, 128 + b] = Some (a * 64 + b)"
  "a < 16 \<Longrightarrow> b < 64 \<Longrightarrow> c < 64 \<Longrightarrow>
   utf8_decode [224 + a, 128 + b, 128 + c] = Some (a * 4096 + b * 64 + c)"
  "a < 8 \<Longrightarrow> b < 64 \<Longrightarrow> c < 64 \<Longrightarrow> d < 64 \<Longrightarrow>
   utf8_decode [240 + a, 128 + b, 128 + c, 128 + d] = Some (a * 262144 + b * 4096 + c * 64 + d)"
  by (simp_all only: utf8_decode.simps lead_bytes cont_byte) simp_all

text \<open>
  C27: the display of a code point is its UTF-8 encoding: decoding the bytes gives the code
  point back, for every value below \<open>2^21\<close> (all of Unicode, whose last code point is
  \<open>0x10FFFF\<close>); beyond it the leading byte has no room for the top bits.
\<close>

theorem wide_to_display_utf8:
  assumes "unat cp < 2 ^ 21"
  shows "utf8_decode (map byte_value (wide_to_display cp)) = Some (unat cp)"
proof -
  let ?n = "unat cp"
  consider "cp \<le> 0x7F" | "\<not> cp \<le> 0x7F" "cp \<le> 0x7FF" | "\<not> cp \<le> 0x7FF" "\<not> cp \<le> 0x7F" "cp \<le> 0xFFFF"
    | "\<not> cp \<le> 0xFFFF" "\<not> cp \<le> 0x7FF" "\<not> cp \<le> 0x7F"
    by (metis (full_types) order_trans word_le_nat_alt nat_le_linear)
  then show ?thesis
  proof cases
    case 1
    then have "?n \<le> 127" by (simp add: word_le_nat_alt)
    with 1 show ?thesis by (simp add: wide_to_display_def byte_value_of_word)
  next
    case 2
    then have "?n div 64 < 32" by (simp add: word_le_nat_alt)
    with 2 show ?thesis
      by (simp add: wide_to_display_def utf8_bytes utf8_decode_bytes(1) base64_digits(1)
          del: utf8_decode.simps)
  next
    case 3
    then have "?n div 4096 < 16" by (simp add: word_le_nat_alt)
    with 3 show ?thesis
      by (simp add: wide_to_display_def utf8_bytes utf8_decode_bytes(2) base64_digits(2)
          del: utf8_decode.simps)
  next
    case 4
    from assms have "?n div 262144 < 8" by simp
    with 4 show ?thesis
      by (simp add: wide_to_display_def utf8_bytes utf8_decode_bytes(3) base64_digits(3)
          del: utf8_decode.simps)
  qed
qed


theorem wide_to_display_utf8_witness:
  "utf8_decode (map byte_value (wide_to_display 0x1F600)) = Some 0x1F600"
  using wide_to_display_utf8 [of "0x1F600"] by simp

subsection \<open>Escaped strings read back\<close>

definition hex_val :: "char \<Rightarrow> nat" where
  "hex_val c = (let n = of_char c in if n \<le> 57 then n - 48 else n - 55)"

text \<open>
  A reader of a quoted literal: what it does after the opening quote, up to the first quote
  that is not escaped; it returns the characters and what follows the literal.
\<close>

fun read_escaped :: "string \<Rightarrow> (string \<times> string) option" where
  "read_escaped [] = None"
| "read_escaped (c # cs) =
     (if c = dquote_char then Some ([], cs)
      else if c \<noteq> backslash then map_option (apfst ((#) c)) (read_escaped cs)
      else case cs of
          [] \<Rightarrow> None
        | d # r \<Rightarrow>
            if d = CHR ''t'' then map_option (apfst ((#) (char_of (9 :: nat)))) (read_escaped r)
            else if d = CHR ''n'' then map_option (apfst ((#) (char_of (10 :: nat)))) (read_escaped r)
            else if d = CHR ''r'' then map_option (apfst ((#) (char_of (13 :: nat)))) (read_escaped r)
            else if d = CHR ''x'' then
              (case r of
                 h1 # h2 # r' \<Rightarrow> map_option (apfst ((#) (char_of (16 * hex_val h1 + hex_val h2)))) (read_escaped r')
               | _ \<Rightarrow> None)
            else if d = backslash \<or> d = dquote_char then map_option (apfst ((#) d)) (read_escaped r)
            else None)"

definition read_literal :: "string \<Rightarrow> (string \<times> string) option" where
  "read_literal s = (case s of [] \<Rightarrow> None | c # cs \<Rightarrow> if c = dquote_char then read_escaped cs else None)"

lemma of_char_less: "(of_char c :: nat) < 256"
  by simp

lemma hex_val_digit: "d < 16 \<Longrightarrow> hex_val (hex_digit d) = d"
  by (simp add: hex_val_def hex_digit_def Let_def)

lemma hex_digit_not_backslash: "d < 16 \<Longrightarrow> hex_digit d \<noteq> backslash"
proof
  assume "d < 16" and "hex_digit d = backslash"
  then have "(of_char (hex_digit d) :: nat) = of_char backslash" by simp
  with \<open>d < 16\<close> show False
    by (simp add: hex_digit_def backslash_def split: if_splits)
qed

lemma hex_fixed_2: "b < 256 \<Longrightarrow> hex_fixed 2 b = [hex_digit (b div 16), hex_digit (b mod 16)]"
  by (simp add: numeral_2_eq_2)

lemma char_eqI: "(of_char c :: nat) = of_char d \<Longrightarrow> c = d"
  by simp

lemma char_of_special: "char_of (92 :: nat) = CHR 0x5C" "char_of (34 :: nat) = CHR 0x22"
  by (rule char_eqI, simp)+

lemma read_escaped_char:
  "read_escaped (escape_str_char c @ r) = map_option (apfst ((#) c)) (read_escaped r)"
proof -
  define b :: nat where "b = of_char c"
  have c: "c = char_of b" and b256: "b < 256"
    by (simp_all add: b_def)
  have ne: "c \<noteq> backslash" if "b \<noteq> 92"
    using that by (auto simp: b_def backslash_def)
  have nq: "c \<noteq> dquote_char" if "b \<noteq> 34"
    using that by (auto simp: b_def dquote_char_def)
  consider "b = 9" | "b = 10" | "b = 13" | "b = 92" | "b = 34"
    | "b \<notin> {9, 10, 13, 92, 34}" "0x20 \<le> b \<and> b \<le> 0x7E"
    | "b \<notin> {9, 10, 13, 92, 34}" "\<not> (0x20 \<le> b \<and> b \<le> 0x7E)"
    by auto
  then show ?thesis
  proof cases
    case 7
    moreover have "b div 16 < 16" "b mod 16 < 16" "16 * (b div 16) + b mod 16 = b"
      using b256 by simp_all
    ultimately show ?thesis
      using c b256 unfolding escape_str_char_def b_def [symmetric]
      by (auto simp: Let_def hex_fixed_2 hex_val_digit backslash_def dquote_char_def)
  qed (use c ne nq in \<open>simp_all add: escape_str_char_def Let_def b_def [symmetric] backslash_def
      dquote_char_def char_of_special\<close>)
qed

text \<open>
  C28: a literal in a message reads back: whatever the bytes of the string and whatever follows
  in the text, a reader that starts at the opening quote stops at the closing quote of the
  literal, not at one inside it, and gets the string. So two different literals never look
  alike in a message.
\<close>

theorem escape_string_roundtrip:
  "read_literal (escape_string s @ rest) = Some (s, rest)"
proof -
  have "read_escaped (concat (map escape_str_char s) @ dquote_char # rest) = Some (s, rest)"
    by (induction s) (simp_all add: read_escaped_char)
  then show ?thesis
    by (simp add: read_literal_def escape_string_def)
qed

definition printable :: "char \<Rightarrow> bool" where
  "printable c \<longleftrightarrow> 0x20 \<le> (of_char c :: nat) \<and> (of_char c :: nat) \<le> 0x7E"

lemma hex_digit_printable: "d < 16 \<Longrightarrow> printable (hex_digit d)"
  by (auto simp: printable_def hex_digit_def)

lemma hex_fixed_printable: "\<forall>c\<in>set (hex_fixed k n). printable c"
  by (induction k n rule: hex_fixed.induct) (auto intro: hex_digit_printable)

lemma escape_str_char_printable: "\<forall>d\<in>set (escape_str_char c). printable d"
  using hex_fixed_printable [of 2 "of_char c"]
  by (auto simp: escape_str_char_def Let_def backslash_def dquote_char_def printable_def)

lemma escape_str_wide_printable: "\<forall>d\<in>set (escape_str_wide c). printable d"
  using hex_fixed_printable [of 8 "unat c"]
  by (auto simp: escape_str_wide_def Let_def backslash_def dquote_char_def printable_def)

text \<open>
  Whatever bytes or code points the grammar and the input hold, the texts recorded in
  an expected set are printable ASCII.
\<close>

theorem escapes_printable:
  "list_all printable (escape_char c) \<and> list_all printable (escape_wide_char w)
   \<and> list_all printable (escape_string s) \<and> list_all printable (escape_wide_string ws)"
proof -
  have "list_all printable (escape_char c)"
    using hex_fixed_printable [of 2 "of_char c"]
    by (auto simp: escape_char_def Let_def backslash_def quote_char_def printable_def list_all_iff)
  moreover have "list_all printable (escape_wide_char w)"
    using hex_fixed_printable [of 8 "unat w"]
    by (auto simp: escape_wide_char_def Let_def backslash_def quote_char_def printable_def list_all_iff)
  moreover have "list_all printable (escape_string s)"
    using escape_str_char_printable
    by (auto simp: escape_string_def list_all_iff) (simp_all add: printable_def dquote_char_def)
  moreover have "list_all printable (escape_wide_string ws)"
    using escape_str_wide_printable
    by (auto simp: escape_wide_string_def list_all_iff) (simp_all add: printable_def dquote_char_def)
  ultimately show ?thesis by blast
qed

subsection \<open>The text of a diagnostic\<close>

fun or_list :: "string list \<Rightarrow> string" where
  "or_list [] = []"
| "or_list [a] = a"
| "or_list [a, b] = a @ '' or '' @ b"
| "or_list (a # b # c # rest) = a @ '', '' @ or_list (b # c # rest)"

lemma join_items_tail:
  "0 < i \<Longrightarrow> join_items (i + length items) i items
     = (case items of [] \<Rightarrow> [] | [x] \<Rightarrow> '' or '' @ ei_text x
        | x # y # r \<Rightarrow> '', '' @ or_list (map ei_text items))"
proof (induction items arbitrary: i)
  case Nil
  then show ?case by simp
next
  case (Cons x xs)
  from Cons.IH [of "Suc i"] have "join_items (i + Suc (length xs)) (Suc i) xs
     = (case xs of [] \<Rightarrow> [] | [x] \<Rightarrow> '' or '' @ ei_text x
        | x # y # r \<Rightarrow> '', '' @ or_list (map ei_text xs))"
    by simp
  with Cons.prems show ?case
    by (auto split: list.splits)
qed

text \<open>
  The diagnostic names the source position of the failure as line and column, then
  every expected item in the order of the set, separated by commas and by \<open>or\<close> before the
  last one.
\<close>

theorem diag_format_text:
  "diag_format (Diagnostic pos (x # xs)) m filename =
     filename @ '':'' @ dec_string (sl_line (locate m pos)) @ '':'' @
     dec_string (sl_column (locate m pos)) @ '': error: expected '' @
     or_list (map ei_text (x # xs))"
proof -
  have "join_items (Suc (length xs)) 0 (x # xs) = or_list (map ei_text (x # xs))"
    using join_items_tail [of 1 xs] by (auto split: list.splits)
  then show ?thesis
    by (simp add: diag_format_def Let_def del: join_items.simps)
qed

end
