(* ===== verification/Parse_Context.thy ===== *)
theory Parse_Context
  imports Display Input_Source
begin

text \<open>
  \<open>include/peglib/Context.h\<close>: the state one parse threads through every expression. A
  pointer to a \<open>ParseTreeNode\<close> is the index of the node in the arena (\<open>None\<close> for a null
  pointer), a \<open>NonTerminal*\<close> is the name under which the grammar owns the rule, and an
  \<open>LRFrame*\<close> is a position in the left-recursion stack, whose top is the head of the list.
  The input is the list of elements the input source shows (see \<open>Input_Source\<close>), so
  \<open>release_before\<close> does not change it. An operation that asserts gives \<open>Fault\<close> (or \<open>None\<close>)
  where the assertion fails.
\<close>

subsection \<open>Data\<close>

datatype span = Span (sp_start: nat) (sp_end: nat)

type_synonym rule_ref = string

type_synonym node_ref = "nat option"

record tree_node =
  nd_name :: string
  start_offset :: nat
  end_offset :: nat
  nd_children :: "node_ref list"
  producer :: "rule_ref option"
  alt_winner :: "nat option"

record parse_result =
  success :: bool
  tree :: node_ref

record rule_state =
  m_last_pos :: nat
  m_cached_result :: parse_result

record lr_frame =
  fr_rule :: rule_ref
  fr_pos :: nat
  fr_last_pos :: nat
  fr_is_head :: bool

record cut_record =
  cr_pos :: nat
  cr_cut :: bool

record 'c ctx =
  m_input :: "'c list"
  m_position :: nat
  m_last_cut :: nat
  m_node_arena :: "tree_node list"
  m_mem :: "nat \<rightharpoonup> (rule_ref \<rightharpoonup> rule_state)"
  m_cut :: "cut_record list"
  m_lr_stack :: "lr_frame list"
  m_growing_head :: "nat \<rightharpoonup> rule_ref"
  m_furthest_failure_pos :: nat
  m_expected :: expected_set
  m_has_error :: bool
  m_diagnostics :: "diagnostic list"
  m_skipper :: "rule_ref option"
  m_skip_enabled :: bool

type_synonym ('c, 'a) parse_outcome = "('c ctx, parse_error, 'a) outcome"

definition make_ctx :: "'c list \<Rightarrow> 'c ctx" where
  "make_ctx input =
     \<lparr>m_input = input, m_position = 0, m_last_cut = 0, m_node_arena = [], m_mem = Map.empty,
      m_cut = [], m_lr_stack = [], m_growing_head = Map.empty, m_furthest_failure_pos = 0,
      m_expected = [], m_has_error = False, m_diagnostics = [], m_skipper = None,
      m_skip_enabled = True\<rparr>"

text \<open>
  A context over a file owns the source, which it reads through the adapter of
  \<open>Input_Source\<close>: its input is what that shows. \<open>array0\<close> and \<open>array1\<close> are what the two page
  buffers hold before the file is read.
\<close>

definition file_ctx :: "'c file_state \<Rightarrow> 'c ctx" where
  "file_ctx fs = make_ctx (fs_items fs)"

definition from_file :: "nat \<Rightarrow> 'c list \<Rightarrow> 'c list \<Rightarrow> 'c list \<Rightarrow> 'c ctx" where
  "from_file p items array0 array1 = file_ctx (fs_open p items array0 array1)"

lemma from_file_ctx:
  "0 < p \<Longrightarrow> length array0 = p \<Longrightarrow> length array1 = p \<Longrightarrow> from_file p items array0 array1 = make_ctx items"
  by (simp add: from_file_def file_ctx_def fs_inv_open(2))

definition null_result :: parse_result where
  "null_result = \<lparr>success = False, tree = None\<rparr>"

definition default_rule_state :: rule_state where
  "default_rule_state = \<lparr>m_last_pos = 0, m_cached_result = null_result\<rparr>"

definition empty_node :: tree_node where
  "empty_node = \<lparr>nd_name = [], start_offset = 0, end_offset = 0, nd_children = [],
                 producer = None, alt_winner = None\<rparr>"

subsection \<open>Position and input\<close>

definition input_size :: "'c ctx \<Rightarrow> nat" where
  "input_size c = length (m_input c)"

definition mark :: "'c ctx \<Rightarrow> nat" where
  "mark c = m_position c"

definition set_state :: "nat \<Rightarrow> 'c ctx \<Rightarrow> 'c ctx" where
  "set_state pos c = c\<lparr>m_position := pos\<rparr>"

definition ended :: "'c ctx \<Rightarrow> bool" where
  "ended c \<longleftrightarrow> input_size c \<le> m_position c"

definition current :: "'c ctx \<Rightarrow> 'c option" where
  "current c = (if m_position c < input_size c then Some (m_input c ! m_position c) else None)"

definition ctx_at :: "nat \<Rightarrow> 'c ctx \<Rightarrow> 'c option" where
  "ctx_at offset c = (if offset < input_size c then Some (m_input c ! offset) else None)"

definition next_pos :: "'c ctx \<Rightarrow> 'c ctx" where
  "next_pos c = (if m_position c < input_size c then c\<lparr>m_position := m_position c + 1\<rparr> else c)"

definition reset :: "nat \<Rightarrow> 'c ctx \<Rightarrow> ('c, unit) parse_outcome" where
  "reset pos c = (if pos \<le> input_size c then Ret () (c\<lparr>m_position := pos\<rparr>) else Fault)"

subsection \<open>The node arena\<close>

definition make_node :: "'c ctx \<Rightarrow> nat \<times> 'c ctx" where
  "make_node c = (length (m_node_arena c), c\<lparr>m_node_arena := m_node_arena c @ [empty_node]\<rparr>)"

definition node_at :: "nat \<Rightarrow> 'c ctx \<Rightarrow> tree_node" where
  "node_at i c = m_node_arena c ! i"

definition upd_node :: "nat \<Rightarrow> (tree_node \<Rightarrow> tree_node) \<Rightarrow> 'c ctx \<Rightarrow> 'c ctx" where
  "upd_node i f c = c\<lparr>m_node_arena := (m_node_arena c)[i := f (m_node_arena c ! i)]\<rparr>"

subsection \<open>The packrat memo\<close>

text \<open>
  \<open>rule_state\<close>: get or create the entry; the flag tells whether it was created.
\<close>

definition rule_state :: "rule_ref \<Rightarrow> nat \<Rightarrow> 'c ctx \<Rightarrow> (bool \<times> rule_state) \<times> 'c ctx" where
  "rule_state rule pos c =
     (let records = (case m_mem c pos of None \<Rightarrow> Map.empty | Some r \<Rightarrow> r)
      in case records rule of
           Some st \<Rightarrow> ((False, st), c\<lparr>m_mem := (m_mem c)(pos \<mapsto> records)\<rparr>)
         | None \<Rightarrow> ((True, default_rule_state),
                    c\<lparr>m_mem := (m_mem c)(pos \<mapsto> records(rule \<mapsto> default_rule_state))\<rparr>))"

definition update_rule_state :: "rule_ref \<Rightarrow> nat \<Rightarrow> rule_state \<Rightarrow> 'c ctx \<Rightarrow> bool \<times> 'c ctx" where
  "update_rule_state rule start_pos st c =
     (case m_mem c start_pos of
        None \<Rightarrow> (False, c)
      | Some memos \<Rightarrow>
          (case memos rule of
             None \<Rightarrow> (False, c)
           | Some _ \<Rightarrow> (True, c\<lparr>m_mem := (m_mem c)(start_pos \<mapsto> memos(rule \<mapsto> st))\<rparr>)))"

definition memo_get :: "rule_ref \<Rightarrow> nat \<Rightarrow> 'c ctx \<Rightarrow> rule_state" where
  "memo_get rule pos c =
     (case m_mem c pos of
        None \<Rightarrow> default_rule_state
      | Some memos \<Rightarrow> (case memos rule of None \<Rightarrow> default_rule_state | Some st \<Rightarrow> st))"

subsection \<open>Left recursion: the invocation stack and the growing heads\<close>

definition lr_push :: "lr_frame \<Rightarrow> 'c ctx \<Rightarrow> 'c ctx" where
  "lr_push frame c = c\<lparr>m_lr_stack := frame # m_lr_stack c\<rparr>"

text \<open>
  \<open>lr_pop\<close> asserts that the frame it is given is the top one; a frame is known by its
  position, the number of frames below it.
\<close>

definition lr_pop :: "nat \<Rightarrow> 'c ctx \<Rightarrow> (lr_frame, 'c ctx) prod option" where
  "lr_pop depth c =
     (case m_lr_stack c of
        [] \<Rightarrow> None
      | f # rest \<Rightarrow> (if length rest = depth then Some (f, c\<lparr>m_lr_stack := rest\<rparr>) else None))"

definition lr_in_progress :: "rule_ref \<Rightarrow> nat \<Rightarrow> 'c ctx \<Rightarrow> bool" where
  "lr_in_progress rule pos c \<longleftrightarrow> list_ex (\<lambda>f. fr_pos f = pos \<and> fr_rule f = rule) (m_lr_stack c)"

definition growing_head :: "nat \<Rightarrow> 'c ctx \<Rightarrow> rule_ref option" where
  "growing_head pos c = m_growing_head c pos"

definition set_growing_head :: "nat \<Rightarrow> rule_ref \<Rightarrow> 'c ctx \<Rightarrow> 'c ctx" where
  "set_growing_head pos rule c = c\<lparr>m_growing_head := (m_growing_head c)(pos \<mapsto> rule)\<rparr>"

definition clear_growing_head :: "nat \<Rightarrow> 'c ctx \<Rightarrow> 'c ctx" where
  "clear_growing_head pos c = c\<lparr>m_growing_head := (m_growing_head c)(pos := None)\<rparr>"

definition clear_siblings_at :: "nat \<Rightarrow> rule_ref \<Rightarrow> 'c ctx \<Rightarrow> 'c ctx" where
  "clear_siblings_at pos keep c =
     (case m_mem c pos of
        None \<Rightarrow> c
      | Some memos \<Rightarrow>
          c\<lparr>m_mem := (m_mem c)(pos \<mapsto>
               (\<lambda>rule. if rule = keep \<or> lr_in_progress rule pos c then memos rule else None))\<rparr>)"

text \<open>The same with the kept entries as a function of their own, for evaluation.\<close>

definition kept_memos ::
  "rule_ref \<Rightarrow> nat \<Rightarrow> lr_frame list \<Rightarrow> (rule_ref \<rightharpoonup> rule_state) \<Rightarrow> rule_ref \<Rightarrow> rule_state option" where
  "kept_memos keep pos frames memos rule =
     (if rule = keep \<or> list_ex (\<lambda>f. fr_pos f = pos \<and> fr_rule f = rule) frames then memos rule else None)"

lemma clear_siblings_at_code [code]:
  "clear_siblings_at pos keep c =
     (case m_mem c pos of
        None \<Rightarrow> c
      | Some memos \<Rightarrow> c\<lparr>m_mem := (m_mem c)(pos \<mapsto> kept_memos keep pos (m_lr_stack c) memos)\<rparr>)"
  by (auto simp: clear_siblings_at_def kept_memos_def [abs_def] lr_in_progress_def split: option.split)

subsection \<open>Cut scopes\<close>

definition set_cut :: "bool \<Rightarrow> 'c ctx \<Rightarrow> 'c ctx" where
  "set_cut b c =
     (case m_cut c of
        [] \<Rightarrow> c
      | r # rest \<Rightarrow> c\<lparr>m_cut := r\<lparr>cr_cut := b, cr_pos := mark c\<rparr> # rest\<rparr>)"

definition get_cut :: "'c ctx \<Rightarrow> bool" where
  "get_cut c = (case m_cut c of [] \<Rightarrow> False | r # _ \<Rightarrow> cr_cut r)"

definition init_cut :: "'c ctx \<Rightarrow> 'c ctx" where
  "init_cut c = c\<lparr>m_cut := \<lparr>cr_pos = mark c, cr_cut = False\<rparr> # m_cut c\<rparr>"

definition remove_cut :: "'c ctx \<Rightarrow> ('c, unit) parse_outcome" where
  "remove_cut c =
     (case m_cut c of
        [] \<Rightarrow> Fault
      | r # rest \<Rightarrow>
          let c1 = (if get_cut c
                    then c\<lparr>m_last_cut := cr_pos r,
                           m_mem := (\<lambda>pos. if pos < cr_pos r then None else m_mem c pos)\<rparr>
                    else c)
          in Ret () (c1\<lparr>m_cut := rest\<rparr>))"

subsection \<open>Auto-skip\<close>

text \<open>
  \<open>run_skipper\<close> parses the skipper rule with skipping switched off and ignores its result;
  an exception leaves the flag as it is. \<open>parse_rule\<close> is \<open>NonTerminal::parse\<close>.
\<close>

definition run_skipper ::
  "(rule_ref \<Rightarrow> 'c ctx \<Rightarrow> ('c, parse_result) parse_outcome) \<Rightarrow> 'c ctx \<Rightarrow> ('c, unit) parse_outcome" where
  "run_skipper parse_rule c =
     (if m_skip_enabled c
      then case m_skipper c of
          None \<Rightarrow> Ret () c
        | Some s \<Rightarrow>
            let prev = m_skip_enabled c
            in bind_o (parse_rule s (c\<lparr>m_skip_enabled := False\<rparr>))
                 (\<lambda>_ c'. Ret () (c'\<lparr>m_skip_enabled := prev\<rparr>))
      else Ret () c)"

definition internal_set_skipper :: "rule_ref option \<Rightarrow> 'c ctx \<Rightarrow> 'c ctx" where
  "internal_set_skipper s c = c\<lparr>m_skipper := s\<rparr>"

definition set_skip_enabled :: "bool \<Rightarrow> 'c ctx \<Rightarrow> 'c ctx" where
  "set_skip_enabled e c = c\<lparr>m_skip_enabled := e\<rparr>"

subsection \<open>Errors and diagnostics\<close>

definition record_failure :: "nat \<Rightarrow> expected_item \<Rightarrow> 'c ctx \<Rightarrow> 'c ctx" where
  "record_failure pos item c =
     (if \<not> m_has_error c \<or> pos > m_furthest_failure_pos c
      then c\<lparr>m_furthest_failure_pos := pos, m_expected := es_insert item [], m_has_error := True\<rparr>
      else if pos = m_furthest_failure_pos c
      then c\<lparr>m_expected := es_insert item (m_expected c)\<rparr>
      else c)"

definition record_failure_lazy :: "nat \<Rightarrow> (unit \<Rightarrow> expected_item) \<Rightarrow> 'c ctx \<Rightarrow> 'c ctx" where
  "record_failure_lazy pos producer_fn c =
     (if \<not> m_has_error c \<or> pos > m_furthest_failure_pos c
      then c\<lparr>m_furthest_failure_pos := pos, m_expected := es_insert (producer_fn ()) [],
             m_has_error := True\<rparr>
      else if pos = m_furthest_failure_pos c
      then c\<lparr>m_expected := es_insert (producer_fn ()) (m_expected c)\<rparr>
      else c)"

definition take_error :: "'c ctx \<Rightarrow> diagnostic option \<times> 'c ctx" where
  "take_error c =
     (if \<not> m_has_error c then (None, c)
      else (Some (Diagnostic (m_furthest_failure_pos c) (m_expected c)),
            c\<lparr>m_has_error := False, m_expected := [], m_furthest_failure_pos := 0\<rparr>))"

definition record_diagnostic :: "diagnostic \<Rightarrow> 'c ctx \<Rightarrow> 'c ctx" where
  "record_diagnostic d c = c\<lparr>m_diagnostics := m_diagnostics c @ [d]\<rparr>"

definition take_diagnostics :: "'c ctx \<Rightarrow> diagnostic list \<times> 'c ctx" where
  "take_diagnostics c = (m_diagnostics c, c\<lparr>m_diagnostics := []\<rparr>)"

text \<open>\<open>cut_error\<close> is the exception the two cut scopes throw.\<close>

definition cut_error :: "'c ctx \<Rightarrow> parse_error" where
  "cut_error c = ParseError (m_furthest_failure_pos c) (m_expected c)"

end
