(* ===== verification/Expr.thy ===== *)
theory Expr
  imports Parse_Context
begin

text \<open>
  The data of a grammar: parsing expressions (one constructor per expression class of
  \<open>Terminals.h\<close> and \<open>Combinators.h\<close>, \<open>RuleExpr\<close> for the \<open>Rule\<close> handle of
  \<open>NonTerminal.h\<close>), recovery specifications (\<open>Recover.h\<close>), the fields of a
  \<open>NonTerminal\<close> and of a \<open>Grammar\<close>; and the operators of \<open>Rule.h\<close> that build
  expressions. Template arguments that C++ carries in types (the children of a sequence,
  the shape of a terminal value) are constructor arguments here.
\<close>

subsection \<open>Expressions\<close>

datatype 'c terminal_value =
    TValue 'c
  | TSet "'c list"
  | TRange 'c 'c
  | TPred "'c \<Rightarrow> bool"

datatype 'c expr =
    TerminalExpr "'c terminal_value"
  | TokenExpr "'c terminal_value"
  | TerminalSeqExpr "'c list"
  | MatcherExpr "'c list \<Rightarrow> span \<Rightarrow> span option"
  | EmptyExpr
  | SequenceExpr "'c expr list"
  | AlternationExpr "'c expr list"
  | ZeroOrMoreExpr "'c expr"
  | OneOrMoreExpr "'c expr"
  | NTimesExpr "'c expr" nat
  | OptionalExpr "'c expr"
  | NotExpr "'c expr"
  | AndExpr "'c expr"
  | CutExpr
  | LexemeExpr "'c expr"
  | RuleExpr rule_ref

text \<open>
  The bounds the four repetition classes pass to \<open>Repetition\<close>. The upper bound is a
  64-bit signed integer, negative for unbounded; \<open>to_int64\<close> is the cast of a \<open>size_t\<close>.
\<close>

definition to_int64 :: "nat \<Rightarrow> int" where
  "to_int64 n = (int n + 2 ^ 63) mod 2 ^ 64 - 2 ^ 63"

fun reps :: "'c expr \<Rightarrow> (nat \<times> int) option" where
  "reps (ZeroOrMoreExpr e) = Some (0, -1)"
| "reps (OneOrMoreExpr e) = Some (1, -1)"
| "reps (NTimesExpr e n) = Some (n, to_int64 n)"
| "reps (OptionalExpr e) = Some (0, 1)"
| "reps _ = None"

text \<open>The check of the constructor of \<open>Repetition\<close> (\<open>std::invalid_argument\<close> otherwise).\<close>

definition rep_bounds_ok :: "nat \<Rightarrow> int \<Rightarrow> bool" where
  "rep_bounds_ok min_rep max_rep \<longleftrightarrow> max_rep < 0 \<or> (0 \<le> max_rep \<and> int min_rep \<le> max_rep)"

subsection \<open>Recovery\<close>

record 'c recover_spec =
  is_sync_token :: "('c \<Rightarrow> bool) option"
  rs_label :: string

definition no_recovery :: "'c recover_spec" where
  "no_recovery = \<lparr>is_sync_token = None, rs_label = []\<rparr>"

definition configured :: "'c recover_spec \<Rightarrow> bool" where
  "configured spec \<longleftrightarrow> is_sync_token spec \<noteq> None"

definition recover_set :: "'c list \<Rightarrow> string \<Rightarrow> 'c recover_spec" where
  "recover_set sync label = \<lparr>is_sync_token = Some (\<lambda>c. c \<in> set sync), rs_label = label\<rparr>"

text \<open>\<open>nl\<close> is the newline cast to the element type.\<close>

definition recover_eol :: "'c \<Rightarrow> string \<Rightarrow> 'c recover_spec" where
  "recover_eol nl label = \<lparr>is_sync_token = Some (\<lambda>c. c = nl), rs_label = label\<rparr>"

definition recover_eof :: "string \<Rightarrow> 'c recover_spec" where
  "recover_eof label = \<lparr>is_sync_token = Some (\<lambda>_. False), rs_label = label\<rparr>"

definition recover_predicate :: "('c \<Rightarrow> bool) \<Rightarrow> string \<Rightarrow> 'c recover_spec" where
  "recover_predicate pred label = \<lparr>is_sync_token = Some pred, rs_label = label\<rparr>"

subsection \<open>Typed values, rules and grammars\<close>

text \<open>
  The values a typed fold computes: nothing, an element of the input, a value of
  \<open>NodeType\<close>, a tuple, a vector or an optional.
\<close>

datatype ('c, 'v) tval =
    VoidV
  | ElemV 'c
  | NodeV 'v
  | TupleV "('c, 'v) tval list"
  | VecV "('c, 'v) tval list"
  | OptV "('c, 'v) tval option"

text \<open>
  A semantic action reads the input, the span of its rule and the typed results of the body.
\<close>

type_synonym ('c, 'v) action = "'c list \<Rightarrow> span \<Rightarrow> ('c, 'v) tval list \<Rightarrow> 'v"

text \<open>
  \<open>m_typed_fold\<close> is the closure \<open>set_action\<close> stores: the static type of the body (an
  expression) and the action.
\<close>

record ('c, 'v) non_terminal =
  m_rule :: "'c expr option"
  m_name :: string
  m_label :: string
  m_recover :: "'c recover_spec"
  m_typed_fold :: "('c expr \<times> ('c, 'v) action) option"
  m_on_match :: bool

definition new_non_terminal :: "('c, 'v) non_terminal" where
  "new_non_terminal = \<lparr>m_rule = None, m_name = [], m_label = [], m_recover = no_recovery,
                      m_typed_fold = None, m_on_match = False\<rparr>"

definition is_defined :: "('c, 'v) non_terminal \<Rightarrow> bool" where
  "is_defined nt \<longleftrightarrow> m_rule nt \<noteq> None"

text \<open>\<open>m_rules\<close> is an ordered map: an association list sorted by name.\<close>

record ('c, 'v) grammar =
  m_rules :: "(rule_ref \<times> ('c, 'v) non_terminal) list"
  m_start :: string
  g_skipper :: "rule_ref option"
  g_ops :: "'c elem_ops"

definition lookup_rule :: "('c, 'v) grammar \<Rightarrow> rule_ref \<Rightarrow> ('c, 'v) non_terminal option" where
  "lookup_rule G r = map_of (m_rules G) r"

subsection \<open>The operators of \<open>Rule.h\<close>\<close>

definition op_seq :: "'c expr \<Rightarrow> 'c expr \<Rightarrow> 'c expr" where
  "op_seq e1 e2 =
     (case e1 of
        SequenceExpr es1 \<Rightarrow>
          (case e2 of SequenceExpr es2 \<Rightarrow> SequenceExpr (es1 @ es2) | _ \<Rightarrow> SequenceExpr (es1 @ [e2]))
      | _ \<Rightarrow>
          (case e2 of SequenceExpr es2 \<Rightarrow> SequenceExpr (e1 # es2) | _ \<Rightarrow> SequenceExpr [e1, e2]))"

definition op_seq_value :: "'c expr \<Rightarrow> 'c \<Rightarrow> 'c expr" where
  "op_seq_value e v = op_seq e (TerminalExpr (TValue v))"

definition op_value_seq :: "'c \<Rightarrow> 'c expr \<Rightarrow> 'c expr" where
  "op_value_seq v e = op_seq (TerminalExpr (TValue v)) e"

definition op_alt :: "'c expr \<Rightarrow> 'c expr \<Rightarrow> 'c expr" where
  "op_alt e1 e2 =
     (case e1 of
        AlternationExpr es1 \<Rightarrow>
          (case e2 of AlternationExpr es2 \<Rightarrow> AlternationExpr (es1 @ es2) | _ \<Rightarrow> AlternationExpr (es1 @ [e2]))
      | _ \<Rightarrow>
          (case e2 of AlternationExpr es2 \<Rightarrow> AlternationExpr (e1 # es2) | _ \<Rightarrow> AlternationExpr [e1, e2]))"

definition op_alt_value :: "'c expr \<Rightarrow> 'c \<Rightarrow> 'c expr" where
  "op_alt_value e v = op_alt e (TerminalExpr (TValue v))"

definition op_value_alt :: "'c \<Rightarrow> 'c expr \<Rightarrow> 'c expr" where
  "op_value_alt v e = op_alt (TerminalExpr (TValue v)) e"

fun op_star :: "'c expr \<Rightarrow> 'c expr" where
  "op_star (ZeroOrMoreExpr e) = ZeroOrMoreExpr e"
| "op_star e = ZeroOrMoreExpr e"

definition op_times :: "nat \<Rightarrow> 'c expr \<Rightarrow> 'c expr" where
  "op_times n e = NTimesExpr e n"

fun op_plus :: "'c expr \<Rightarrow> 'c expr" where
  "op_plus (OneOrMoreExpr e) = OneOrMoreExpr e"
| "op_plus e = OneOrMoreExpr e"

fun op_opt :: "'c expr \<Rightarrow> 'c expr" where
  "op_opt (OptionalExpr e) = OptionalExpr e"
| "op_opt e = OptionalExpr e"

fun op_not :: "'c expr \<Rightarrow> 'c expr" where
  "op_not (NotExpr e) = e"
| "op_not e = NotExpr e"

fun op_and :: "'c expr \<Rightarrow> 'c expr" where
  "op_and (AndExpr e) = e"
| "op_and e = AndExpr e"

subsection \<open>Flattening\<close>

text \<open>The children \<open>>>\<close> (or \<open>|\<close>) contributes for an operand.\<close>

fun seq_children :: "'c expr \<Rightarrow> 'c expr list" where
  "seq_children (SequenceExpr es) = es"
| "seq_children e = [e]"

fun alt_children :: "'c expr \<Rightarrow> 'c expr list" where
  "alt_children (AlternationExpr es) = es"
| "alt_children e = [e]"

lemma op_seq_children: "op_seq a b = SequenceExpr (seq_children a @ seq_children b)"
  by (simp add: op_seq_def split: expr.split)

lemma op_alt_children: "op_alt a b = AlternationExpr (alt_children a @ alt_children b)"
  by (simp add: op_alt_def split: expr.split)

text \<open>
  An expression as a client writes it: operands that are neither sequences nor choices, under
  \<open>>>\<close> and \<open>|\<close>, bracketed in any way; what the operators build of it; and the operands of the
  chain of one operator at its root, in the order they are written.
\<close>

datatype 'c op_tree =
    Operand "'c expr"
  | Then "'c op_tree" "'c op_tree"
  | Or "'c op_tree" "'c op_tree"

fun build_ops :: "'c op_tree \<Rightarrow> 'c expr" where
  "build_ops (Operand e) = e"
| "build_ops (Then a b) = op_seq (build_ops a) (build_ops b)"
| "build_ops (Or a b) = op_alt (build_ops a) (build_ops b)"

fun then_chain :: "'c op_tree \<Rightarrow> 'c op_tree list" where
  "then_chain (Then a b) = then_chain a @ then_chain b"
| "then_chain t = [t]"

fun or_chain :: "'c op_tree \<Rightarrow> 'c op_tree list" where
  "or_chain (Or a b) = or_chain a @ or_chain b"
| "or_chain t = [t]"

fun plain_operands :: "'c op_tree \<Rightarrow> bool" where
  "plain_operands (Operand e) \<longleftrightarrow> seq_children e = [e] \<and> alt_children e = [e]"
| "plain_operands (Then a b) \<longleftrightarrow> plain_operands a \<and> plain_operands b"
| "plain_operands (Or a b) \<longleftrightarrow> plain_operands a \<and> plain_operands b"

lemma chain_children:
  "plain_operands t \<Longrightarrow>
   seq_children (build_ops t) = map build_ops (then_chain t) \<and> alt_children (build_ops t) = map build_ops (or_chain t)"
  by (induction t) (simp_all add: op_seq_children op_alt_children)

text \<open>
  C30: the operators flatten: a chain of \<open>>>\<close>, however it is bracketed, builds one sequence
  whose children are what its operands build, all of them and in the order they are written,
  and a chain of \<open>|\<close> one choice; a choice inside a sequence, or a sequence inside a choice,
  stays one child.
\<close>

theorem operators_flatten:
  assumes "plain_operands a" and "plain_operands b"
  shows "build_ops (Then a b) = SequenceExpr (map build_ops (then_chain a @ then_chain b)) \<and>
    build_ops (Or a b) = AlternationExpr (map build_ops (or_chain a @ or_chain b))"
  using chain_children [OF assms(1)] chain_children [OF assms(2)]
  by (simp add: op_seq_children op_alt_children)

theorem operators_flatten_witness:
  "build_ops (Then (Operand (RuleExpr ''a'')) (Then (Operand CutExpr) (Or (Operand EmptyExpr) (Operand (RuleExpr ''b'')))))
     = SequenceExpr [RuleExpr ''a'', CutExpr, AlternationExpr [EmptyExpr, RuleExpr ''b'' :: nat expr]]"
  using operators_flatten [of "Operand (RuleExpr ''a'')"
    "Then (Operand CutExpr) (Or (Operand EmptyExpr) (Operand (RuleExpr ''b'' :: nat expr)))"]
  by (simp add: op_alt_children)

end
