(* ===== verification/Terminals.thy ===== *)
theory Terminals
  imports Expr
begin

text \<open>
  \<open>include/peglib/Terminals.h\<close> and the matching helpers of \<open>ParserFwd.h\<close>: the leaf
  expressions. \<open>ops\<close> is the dictionary of the element type.
\<close>

definition ok_result :: "node_ref \<Rightarrow> parse_result" where
  "ok_result t = \<lparr>success = True, tree = t\<rparr>"

text \<open>
  \<open>symbolConsumable\<close>, one case per overload; \<open>None\<close> when the assertion on a range fails.
\<close>

fun symbol_consumable :: "'c elem_ops \<Rightarrow> 'c \<Rightarrow> 'c terminal_value \<Rightarrow> bool option" where
  "symbol_consumable ops v (TValue a) = Some (v = a)"
| "symbol_consumable ops v (TSet values) = Some (v \<in> set values)"
| "symbol_consumable ops v (TRange lo hi) =
     (if elem_le ops lo hi then Some (elem_le ops lo v \<and> elem_le ops v hi) else None)"
| "symbol_consumable ops v (TPred f) = Some (f v)"

fun comma_join :: "string list \<Rightarrow> string" where
  "comma_join [] = []"
| "comma_join [x] = x"
| "comma_join (x # y # r) = x @ '', '' @ comma_join (y # r)"

fun terminal_item :: "'c elem_ops \<Rightarrow> 'c terminal_value \<Rightarrow> string \<Rightarrow> expected_item" where
  "terminal_item ops (TValue v) fallback = ExpectedItem Literal (escape_for_expected ops v)"
| "terminal_item ops (TRange lo hi) fallback =
     ExpectedItem Range (escape_for_expected ops lo @ ''..'' @ escape_for_expected ops hi)"
| "terminal_item ops (TSet values) fallback =
     ExpectedItem Range (comma_join (map (escape_for_expected ops) values))"
| "terminal_item ops (TPred f) fallback = ExpectedItem Literal fallback"

definition record_terminal_expected ::
  "'c elem_ops \<Rightarrow> 'c terminal_value \<Rightarrow> string \<Rightarrow> 'c ctx \<Rightarrow> 'c ctx" where
  "record_terminal_expected ops v fallback c =
     record_failure_lazy (mark c) (\<lambda>_. terminal_item ops v fallback) c"

text \<open>The shared guard: not at the end, and the current element matches.\<close>

definition try_symbol :: "'c elem_ops \<Rightarrow> 'c terminal_value \<Rightarrow> 'c ctx \<Rightarrow> bool option" where
  "try_symbol ops v c =
     (if ended c then Some False
      else case current c of None \<Rightarrow> None | Some x \<Rightarrow> symbol_consumable ops x v)"

definition terminal_parse ::
  "'c elem_ops \<Rightarrow> 'c terminal_value \<Rightarrow> 'c ctx \<Rightarrow> ('c, parse_result) parse_outcome" where
  "terminal_parse ops v c =
     (case try_symbol ops v c of
        None \<Rightarrow> Fault
      | Some True \<Rightarrow> Ret (ok_result None) (next_pos c)
      | Some False \<Rightarrow> Ret null_result (record_terminal_expected ops v ''<terminal>'' c))"

definition token_parse ::
  "'c elem_ops \<Rightarrow> 'c terminal_value \<Rightarrow> 'c ctx \<Rightarrow> ('c, parse_result) parse_outcome" where
  "token_parse ops v c =
     (case try_symbol ops v c of
        None \<Rightarrow> Fault
      | Some True \<Rightarrow>
          let (node, c1) = make_node (next_pos c)
          in Ret (ok_result (Some node))
               (upd_node node (\<lambda>n. n\<lparr>start_offset := mark c1 - 1, end_offset := mark c1\<rparr>) c1)
      | Some False \<Rightarrow> Ret null_result (record_terminal_expected ops v ''<token>'' c))"

definition seq_item :: "'c elem_ops \<Rightarrow> 'c list \<Rightarrow> expected_item" where
  "seq_item ops vs = ExpectedItem Literal (escape_string (concat (map (to_display ops) vs)))"

fun terminal_seq_loop ::
  "'c elem_ops \<Rightarrow> 'c list \<Rightarrow> nat \<Rightarrow> 'c list \<Rightarrow> 'c ctx \<Rightarrow> ('c, parse_result) parse_outcome" where
  "terminal_seq_loop ops all_values init_state [] c = Ret (ok_result None) c"
| "terminal_seq_loop ops all_values init_state (v # vs) c =
     (case try_symbol ops (TValue v) c of
        None \<Rightarrow> Fault
      | Some True \<Rightarrow> terminal_seq_loop ops all_values init_state vs (next_pos c)
      | Some False \<Rightarrow>
          let c1 = set_state init_state c
          in Ret null_result (record_failure_lazy (mark c1) (\<lambda>_. seq_item ops all_values) c1))"

definition terminal_seq_parse ::
  "'c elem_ops \<Rightarrow> 'c list \<Rightarrow> 'c ctx \<Rightarrow> ('c, parse_result) parse_outcome" where
  "terminal_seq_parse ops vs c = terminal_seq_loop ops vs (mark c) vs c"

definition matcher_parse ::
  "('c list \<Rightarrow> span \<Rightarrow> span option) \<Rightarrow> 'c ctx \<Rightarrow> ('c, parse_result) parse_outcome" where
  "matcher_parse fn c =
     (let start = mark c
      in case fn (m_input c) (Span start start) of
           Some consumed \<Rightarrow>
             bind_o (reset (sp_end consumed) c) (\<lambda>_ c1.
               let (node, c2) = make_node c1
               in Ret (ok_result (Some node))
                    (upd_node node (\<lambda>n. n\<lparr>start_offset := start, end_offset := sp_end consumed\<rparr>) c2))
         | None \<Rightarrow> Ret null_result c)"

definition empty_parse :: "'c ctx \<Rightarrow> ('c, parse_result) parse_outcome" where
  "empty_parse c = Ret (ok_result None) c"

end
