(* ===== verification/Combinators.thy ===== *)
theory Combinators
  imports Terminals
begin

text \<open>
  \<open>include/peglib/Combinators.h\<close>: the composite expressions. As in the source, where
  \<open>repeat_parse_impl\<close> and \<open>predicate_parse_impl\<close> take the child's parse as a callable, each
  operation here takes the parse of its children (\<open>run\<close>, \<open>child\<close>) and the call of the
  skipper (\<open>skip\<close>) as arguments. The fuel of the repetition loop bounds its iterations.
\<close>

type_synonym 'c parser = "'c ctx \<Rightarrow> ('c, parse_result) parse_outcome"

definition push_child :: "nat \<Rightarrow> node_ref \<Rightarrow> 'c ctx \<Rightarrow> 'c ctx" where
  "push_child node child c =
     (case child of
        None \<Rightarrow> c
      | Some t \<Rightarrow> upd_node node (\<lambda>n. n\<lparr>nd_children := nd_children n @ [Some t]\<rparr>) c)"

text \<open>The node a sequence or a repetition makes before its children run.\<close>

definition start_node :: "'c ctx \<Rightarrow> nat \<times> 'c ctx" where
  "start_node c =
     (let (node, c1) = make_node c
      in (node, upd_node node (\<lambda>n. n\<lparr>start_offset := mark c1\<rparr>) c1))"

subsection \<open>Sequence\<close>

fun parse_seq ::
  "('c expr \<Rightarrow> 'c parser) \<Rightarrow> ('c ctx \<Rightarrow> ('c, unit) parse_outcome) \<Rightarrow> nat \<Rightarrow> nat \<Rightarrow> 'c expr list
     \<Rightarrow> 'c ctx \<Rightarrow> ('c, bool) parse_outcome" where
  "parse_seq run skip node i [] c = Ret True c"
| "parse_seq run skip node i (e # es) c =
     bind_o (if i > 0 then skip c else Ret () c) (\<lambda>_ c1.
     bind_o (run e c1) (\<lambda>r c2.
       if success r then parse_seq run skip node (Suc i) es (push_child node (tree r) c2)
       else Ret False c2))"

definition sequence_parse ::
  "('c expr \<Rightarrow> 'c parser) \<Rightarrow> ('c ctx \<Rightarrow> ('c, unit) parse_outcome) \<Rightarrow> 'c expr list \<Rightarrow> 'c parser" where
  "sequence_parse run skip es c =
     (let state = m_position c;
          (node, c1) = start_node c
      in bind_o (parse_seq run skip node 0 es c1) (\<lambda>ok c2.
           if ok then Ret (ok_result (Some node)) (upd_node node (\<lambda>n. n\<lparr>end_offset := mark c2\<rparr>) c2)
           else Ret null_result (set_state state c2)))"

subsection \<open>Alternation\<close>

fun parse_alt :: "('c expr \<Rightarrow> 'c parser) \<Rightarrow> nat \<Rightarrow> 'c expr list \<Rightarrow> 'c parser" where
  "parse_alt run i [] c = Ret null_result c"
| "parse_alt run i (e # es) c =
     bind_o (run e c) (\<lambda>r c1.
       if success r then
         Ret r (case tree r of None \<Rightarrow> c1 | Some t \<Rightarrow> upd_node t (\<lambda>n. n\<lparr>alt_winner := Some i\<rparr>) c1)
       else if get_cut c1 then Throw (cut_error c1) c1
       else parse_alt run (Suc i) es c1)"

definition alternation_parse :: "('c expr \<Rightarrow> 'c parser) \<Rightarrow> 'c expr list \<Rightarrow> 'c parser" where
  "alternation_parse run es c = scope_guard remove_cut (parse_alt run 0 es (init_cut c))"

subsection \<open>Repetition\<close>

definition resize :: "nat \<Rightarrow> node_ref list \<Rightarrow> node_ref list" where
  "resize n xs = take n xs @ replicate (n - length xs) None"

fun rep_loop ::
  "nat \<Rightarrow> 'c parser \<Rightarrow> ('c ctx \<Rightarrow> ('c, unit) parse_outcome) \<Rightarrow> int \<Rightarrow> nat \<Rightarrow> nat \<Rightarrow> nat \<Rightarrow> 'c ctx
     \<Rightarrow> ('c, nat \<times> nat \<times> bool) parse_outcome" where
  "rep_loop 0 child skip max_rep node loop_count last_success c = Diverge"
| "rep_loop (Suc fuel) child skip max_rep node loop_count last_success c =
     bind_o (if loop_count > 0 then skip c else Ret () c) (\<lambda>_ c1.
       let start_state = m_position c1
       in bind_o (child (set_cut False c1)) (\<lambda>r c2.
            if success r then
              let count = loop_count + 1; last = m_position c2; c3 = push_child node (tree r) c2
              in if max_rep > 0 \<and> int count \<ge> max_rep then Ret (count, last, False) c3
                 else if m_position c3 = start_state then Ret (count, last, False) c3
                 else rep_loop fuel child skip max_rep node count last c3
            else Ret (loop_count, last_success, True) c2))"

definition rep_finish ::
  "nat \<Rightarrow> int \<Rightarrow> nat \<Rightarrow> nat \<Rightarrow> nat \<times> nat \<times> bool \<Rightarrow> 'c parser" where
  "rep_finish min_rep max_rep node init_state = (\<lambda>(count, last, failed) c.
     if count < min_rep then Ret null_result (set_state init_state c)
     else
       let c1 = (if failed
                 then upd_node node (\<lambda>n. n\<lparr>nd_children := resize count (nd_children n)\<rparr>)
                        (set_state last c)
                 else c)
       in if max_rep < 0 \<and> failed \<and> get_cut c1 then Throw (cut_error c1) c1
          else Ret (ok_result (Some node)) (upd_node node (\<lambda>n. n\<lparr>end_offset := mark c1\<rparr>) c1))"

definition repeat_body ::
  "nat \<Rightarrow> 'c parser \<Rightarrow> ('c ctx \<Rightarrow> ('c, unit) parse_outcome) \<Rightarrow> nat \<Rightarrow> int \<Rightarrow> 'c parser" where
  "repeat_body fuel child skip min_rep max_rep c =
     (let init_state = m_position c;
          (node, c1) = start_node c
      in bind_o (rep_loop fuel child skip max_rep node 0 init_state c1)
           (rep_finish min_rep max_rep node init_state))"

definition repeat_parse_impl ::
  "nat \<Rightarrow> 'c parser \<Rightarrow> ('c ctx \<Rightarrow> ('c, unit) parse_outcome) \<Rightarrow> nat \<Rightarrow> int \<Rightarrow> 'c parser" where
  "repeat_parse_impl fuel child skip min_rep max_rep c =
     scope_guard remove_cut (repeat_body fuel child skip min_rep max_rep (init_cut c))"

subsection \<open>Predicates, cut and lexeme\<close>

definition predicate_parse_impl :: "'c parser \<Rightarrow> bool \<Rightarrow> 'c parser" where
  "predicate_parse_impl child negate c =
     (let init_state = m_position c
      in bind_o (child c) (\<lambda>r c1.
           Ret \<lparr>success = (if negate then \<not> success r else success r), tree = None\<rparr>
             (set_state init_state c1)))"

definition cut_parse :: "'c parser" where
  "cut_parse c = Ret (ok_result None) (set_cut True c)"

definition lexeme_parse :: "'c parser \<Rightarrow> 'c parser" where
  "lexeme_parse child c =
     (let prev = m_skip_enabled c
      in scope_guard (\<lambda>s. Ret () (set_skip_enabled prev s)) (child (set_skip_enabled False c)))"

end
