(* ===== verification/Non_Terminal.thy ===== *)
theory Non_Terminal
  imports Combinators
begin

text \<open>
  \<open>include/peglib/NonTerminal.h\<close>: the parse of a rule with packrat memo, left recursion by
  growing a seed, and recovery. \<open>body\<close> is the parse of the rule's body. The frame of the
  running rule is the top of the left-recursion stack (its address in the source is the
  address of a local variable of the call). The fuel of the growth loop bounds its
  iterations.
\<close>

definition with_frame ::
  "(lr_frame \<Rightarrow> 'c ctx \<Rightarrow> ('c, 'a) parse_outcome) \<Rightarrow> 'c ctx \<Rightarrow> ('c, 'a) parse_outcome" where
  "with_frame f c = (case m_lr_stack c of [] \<Rightarrow> Fault | fr # _ \<Rightarrow> f fr c)"

declare with_frame_def [code_unfold]

definition set_frame_last_pos :: "nat \<Rightarrow> 'c ctx \<Rightarrow> 'c ctx" where
  "set_frame_last_pos p c =
     (case m_lr_stack c of [] \<Rightarrow> c | fr # rest \<Rightarrow> c\<lparr>m_lr_stack := fr\<lparr>fr_last_pos := p\<rparr> # rest\<rparr>)"

subsection \<open>The growth loop\<close>

fun grow_loop ::
  "nat \<Rightarrow> 'c parser \<Rightarrow> rule_ref \<Rightarrow> nat \<Rightarrow> rule_state \<Rightarrow> parse_result \<Rightarrow> 'c ctx
     \<Rightarrow> ('c, parse_result \<times> rule_state) parse_outcome" where
  "grow_loop 0 body rule start_pos st best c = Diverge"
| "grow_loop (Suc fuel) body rule start_pos st best c =
     bind_o (reset start_pos c) (\<lambda>_ c1.
     with_frame (\<lambda>frame c1'.
       bind_o (body (if fr_is_head frame \<and> success best then clear_siblings_at start_pos rule c1' else c1'))
        (\<lambda>result c2.
         with_frame (\<lambda>frame c2'.
           let end_pos = mark c2'
           in if success result then
                if end_pos > fr_last_pos frame then
                  let c3 = set_frame_last_pos end_pos c2';
                      st' = \<lparr>m_last_pos = end_pos, m_cached_result = result\<rparr>;
                      (ok, c4) = update_rule_state rule start_pos st' c3
                  in if \<not> ok then Ret (result, st') c4
                     else grow_loop fuel body rule start_pos st' result c4
                else
                  let best' = (if \<not> success best then result else best);
                      st' = \<lparr>m_last_pos = fr_last_pos frame, m_cached_result = best'\<rparr>
                  in Ret (best', st') (snd (update_rule_state rule start_pos st' c2'))
              else Ret (best, st) c2') c2)) c1)"

definition parse_impl ::
  "nat \<Rightarrow> 'c parser \<Rightarrow> rule_ref \<Rightarrow> nat \<Rightarrow> 'c ctx \<Rightarrow> ('c, parse_result \<times> rule_state) parse_outcome" where
  "parse_impl fuel body rule start_pos c =
     (let c1 = set_frame_last_pos start_pos c;
          st = \<lparr>m_last_pos = start_pos, m_cached_result = null_result\<rparr>;
          c2 = snd (update_rule_state rule start_pos st c1)
      in bind_o (grow_loop fuel body rule start_pos st null_result c2) (\<lambda>(best, st') c3.
         with_frame (\<lambda>frame c4. bind_o (reset (fr_last_pos frame) c4) (\<lambda>_ c5. Ret (best, st') c5)) c3))"

subsection \<open>Entering a rule that has a memo entry\<close>

fun mark_head_frames :: "rule_ref \<Rightarrow> nat \<Rightarrow> lr_frame list \<Rightarrow> bool \<times> lr_frame list" where
  "mark_head_frames rule pos [] = (False, [])"
| "mark_head_frames rule pos (f # fs) =
     (if fr_pos f = pos \<and> fr_rule f = rule
      then (\<not> fr_is_head f, f\<lparr>fr_is_head := True\<rparr> # fs)
      else (let (fresh, fs') = mark_head_frames rule pos fs in (fresh, f # fs')))"

definition mark_head :: "rule_ref \<Rightarrow> nat \<Rightarrow> 'c ctx \<Rightarrow> 'c ctx" where
  "mark_head rule pos c =
     (let (fresh, fs) = mark_head_frames rule pos (m_lr_stack c); c1 = c\<lparr>m_lr_stack := fs\<rparr>
      in if fresh then set_growing_head pos rule c1 else c1)"

definition return_cached :: "rule_state \<Rightarrow> 'c parser" where
  "return_cached st c = bind_o (reset (m_last_pos st) c) (\<lambda>_ c1. Ret (m_cached_result st) c1)"

definition reenter :: "rule_ref \<Rightarrow> nat \<Rightarrow> rule_state \<Rightarrow> 'c parser" where
  "reenter rule start_pos st c =
     (if lr_in_progress rule start_pos c then
        let c1 = mark_head rule start_pos c
        in return_cached (memo_get rule start_pos c1) c1
      else case growing_head start_pos c of
          Some head \<Rightarrow> (if head \<noteq> rule then return_cached (memo_get rule start_pos c) c
                        else return_cached st c)
        | None \<Rightarrow> return_cached st c)"

subsection \<open>Failure and recovery\<close>

function scan_sync :: "('c \<Rightarrow> bool) \<Rightarrow> 'c list \<Rightarrow> nat \<Rightarrow> nat" where
  "scan_sync sync input scan =
     (if scan < length input \<and> \<not> sync (input ! scan) then scan_sync sync input (scan + 1) else scan)"
  by pat_completeness auto
termination
  by (relation "measure (\<lambda>(_, input, scan). length input - scan)") auto

declare scan_sync.simps [simp del]

definition record_rule_failure :: "('c, 'v) non_terminal \<Rightarrow> nat \<Rightarrow> 'c ctx \<Rightarrow> 'c ctx" where
  "record_rule_failure nt start_pos c =
     (if m_label nt \<noteq> [] then record_failure start_pos (ExpectedItem RuleLabel (m_label nt)) c
      else if m_name nt \<noteq> [] then record_failure start_pos (ExpectedItem RuleName (m_name nt)) c
      else c)"

definition rule_failed ::
  "('c, 'v) non_terminal \<Rightarrow> rule_ref \<Rightarrow> nat \<Rightarrow> rule_state \<Rightarrow> 'c parser" where
  "rule_failed nt rule start_pos st c =
     (let c1 = record_rule_failure nt start_pos c
      in case is_sync_token (m_recover nt) of
           Some sync \<Rightarrow>
             if \<not> get_cut c1 then
               let scan = scan_sync sync (m_input c1) start_pos;
                   resume_at = (if scan < input_size c1 then scan + 1 else input_size c1)
               in bind_o (reset resume_at c1) (\<lambda>_ c2.
                    let label = (if rs_label (m_recover nt) = [] then m_name nt else rs_label (m_recover nt));
                        c3 = record_diagnostic (Diagnostic start_pos (es_of_list [ExpectedItem RuleLabel label])) c2;
                        st' = \<lparr>m_last_pos = resume_at, m_cached_result = ok_result None\<rparr>
                    in Ret (ok_result None) (snd (update_rule_state rule start_pos st' c3)))
             else Ret null_result (snd (update_rule_state rule start_pos (st\<lparr>m_cached_result := null_result\<rparr>) c1))
         | None \<Rightarrow> Ret null_result (snd (update_rule_state rule start_pos (st\<lparr>m_cached_result := null_result\<rparr>) c1)))"

subsection \<open>Success: the node of the rule\<close>

definition build_rule_node ::
  "('c, 'v) non_terminal \<Rightarrow> rule_ref \<Rightarrow> nat \<Rightarrow> node_ref \<Rightarrow> 'c ctx \<Rightarrow> nat \<times> 'c ctx" where
  "build_rule_node nt rule start_pos inner_tree c =
     (if m_typed_fold nt \<noteq> None then
        let (node, c1) = make_node c;
            c2 = upd_node node (\<lambda>n. n\<lparr>nd_name := m_name nt, producer := Some rule,
                                       start_offset := start_pos, end_offset := mark c1\<rparr>) c1
        in (node, push_child node inner_tree c2)
      else
        let (node, c1) = (case inner_tree of Some t \<Rightarrow> (t, c) | None \<Rightarrow> make_node c)
        in (node, upd_node node (\<lambda>n. n\<lparr>nd_name := m_name nt,
                     producer := (case producer n of None \<Rightarrow> Some rule | Some p \<Rightarrow> Some p),
                     start_offset := start_pos, end_offset := mark c1\<rparr>) c1))"

definition rule_matched ::
  "('c, 'v) non_terminal \<Rightarrow> rule_ref \<Rightarrow> nat \<Rightarrow> rule_state \<Rightarrow> parse_result \<Rightarrow> 'c parser" where
  "rule_matched nt rule start_pos st inner c =
     (let (node, c1) = build_rule_node nt rule start_pos (tree inner) c;
          result = ok_result (Some node)
      in Ret result (snd (update_rule_state rule start_pos (st\<lparr>m_cached_result := result\<rparr>) c1)))"

subsection \<open>\<open>NonTerminal::parse\<close>\<close>

definition parse_fresh ::
  "nat \<Rightarrow> ('c expr \<Rightarrow> 'c parser) \<Rightarrow> ('c, 'v) non_terminal \<Rightarrow> rule_ref \<Rightarrow> nat \<Rightarrow> 'c parser" where
  "parse_fresh fuel run nt rule start_pos c =
     (let depth = length (m_lr_stack c);
          c1 = lr_push \<lparr>fr_rule = rule, fr_pos = start_pos, fr_last_pos = start_pos, fr_is_head = False\<rparr> c
      in case m_rule nt of
           None \<Rightarrow> Fault
         | Some e \<Rightarrow>
             bind_o (parse_impl fuel (run e) rule start_pos c1) (\<lambda>(inner, st) c2.
               case lr_pop depth c2 of
                 None \<Rightarrow> Fault
               | Some (frame, c3) \<Rightarrow>
                   let c4 = (if fr_is_head frame then clear_growing_head start_pos c3 else c3)
                   in if \<not> success inner then rule_failed nt rule start_pos st c4
                      else rule_matched nt rule start_pos st inner c4))"

definition nonterminal_parse ::
  "nat \<Rightarrow> ('c expr \<Rightarrow> 'c parser) \<Rightarrow> ('c, 'v) grammar \<Rightarrow> rule_ref \<Rightarrow> 'c parser" where
  "nonterminal_parse fuel run G rule c =
     (case lookup_rule G rule of
        None \<Rightarrow> Fault
      | Some nt \<Rightarrow>
          let start_pos = mark c;
              ((fresh, st), c1) = rule_state rule start_pos c
          in if \<not> fresh then reenter rule start_pos st c1
             else parse_fresh fuel run nt rule start_pos c1)"

end
