(* ===== verification/Engine.thy ===== *)
theory Engine
  imports Non_Terminal
begin

text \<open>
  The virtual call \<open>ParsingExprInterface::parse\<close>: the dispatch over the expression classes.
  The fuel bounds the depth of nested calls and, through the two loops, the number of
  iterations of a repetition or of a growing rule.
\<close>

primrec parse :: "nat \<Rightarrow> ('c, 'v) grammar \<Rightarrow> 'c expr \<Rightarrow> 'c parser" where
  "parse 0 G e c = Diverge"
| "parse (Suc fuel) G e c =
     (let run = parse fuel G;
          skip = run_skipper (\<lambda>r. parse fuel G (RuleExpr r))
      in case e of
           TerminalExpr v \<Rightarrow> terminal_parse (g_ops G) v c
         | TokenExpr v \<Rightarrow> token_parse (g_ops G) v c
         | TerminalSeqExpr vs \<Rightarrow> terminal_seq_parse (g_ops G) vs c
         | MatcherExpr fn \<Rightarrow> matcher_parse fn c
         | EmptyExpr \<Rightarrow> empty_parse c
         | SequenceExpr es \<Rightarrow> sequence_parse run skip es c
         | AlternationExpr es \<Rightarrow> alternation_parse run es c
         | ZeroOrMoreExpr a \<Rightarrow> repeat_parse_impl fuel (run a) skip 0 (-1) c
         | OneOrMoreExpr a \<Rightarrow> repeat_parse_impl fuel (run a) skip 1 (-1) c
         | NTimesExpr a n \<Rightarrow> repeat_parse_impl fuel (run a) skip n (to_int64 n) c
         | OptionalExpr a \<Rightarrow> repeat_parse_impl fuel (run a) skip 0 1 c
         | NotExpr a \<Rightarrow> predicate_parse_impl (run a) True c
         | AndExpr a \<Rightarrow> predicate_parse_impl (run a) False c
         | CutExpr \<Rightarrow> cut_parse c
         | LexemeExpr a \<Rightarrow> lexeme_parse (run a) c
         | RuleExpr r \<Rightarrow> nonterminal_parse fuel run G r c)"

end
