(* ===== verification/Contract.thy ===== *)
theory Contract
  imports Engine
begin

text \<open>
  The contract every \<open>parse\<close> of an expression keeps, stated once as a locale over the parse
  of the children, proved for each composite expression and for a rule inside the locale,
  and discharged for the engine by induction on the fuel. It covers every feature of the
  engine: memo, left recursion, cut, skipper, lexeme, recovery and matchers.
\<close>

subsection \<open>Well-formed grammars\<close>

fun wf_terminal :: "'c elem_ops \<Rightarrow> 'c terminal_value \<Rightarrow> bool" where
  "wf_terminal ops (TRange lo hi) = elem_le ops lo hi"
| "wf_terminal ops _ = True"

text \<open>
  A matcher is called with the empty span at the current position and returns the span it
  consumed: an end that lies between the position and the end of the input.
\<close>

definition matcher_ok :: "('c list \<Rightarrow> span \<Rightarrow> span option) \<Rightarrow> bool" where
  "matcher_ok fn \<longleftrightarrow>
     (\<forall>input s sp. s \<le> length input \<longrightarrow> fn input (Span s s) = Some sp \<longrightarrow>
        s \<le> sp_end sp \<and> sp_end sp \<le> length input)"

definition defined_rule :: "('c, 'v) grammar \<Rightarrow> rule_ref \<Rightarrow> bool" where
  "defined_rule G r = (case lookup_rule G r of None \<Rightarrow> False | Some nt \<Rightarrow> is_defined nt)"

fun wf_expr :: "('c, 'v) grammar \<Rightarrow> 'c expr \<Rightarrow> bool" where
  "wf_expr G (TerminalExpr v) = wf_terminal (g_ops G) v"
| "wf_expr G (TokenExpr v) = wf_terminal (g_ops G) v"
| "wf_expr G (MatcherExpr fn) = matcher_ok fn"
| "wf_expr G (SequenceExpr es) = list_all (wf_expr G) es"
| "wf_expr G (AlternationExpr es) = list_all (wf_expr G) es"
| "wf_expr G (ZeroOrMoreExpr e) = wf_expr G e"
| "wf_expr G (OneOrMoreExpr e) = wf_expr G e"
| "wf_expr G (NTimesExpr e n) = wf_expr G e"
| "wf_expr G (OptionalExpr e) = wf_expr G e"
| "wf_expr G (NotExpr e) = wf_expr G e"
| "wf_expr G (AndExpr e) = wf_expr G e"
| "wf_expr G (LexemeExpr e) = wf_expr G e"
| "wf_expr G (RuleExpr r) = defined_rule G r"
| "wf_expr G (TerminalSeqExpr vs) = True"
| "wf_expr G EmptyExpr = True"
| "wf_expr G CutExpr = True"

definition wf_grammar :: "('c, 'v) grammar \<Rightarrow> bool" where
  "wf_grammar G =
     list_all (\<lambda>(r, nt). case m_rule nt of None \<Rightarrow> True | Some e \<Rightarrow> wf_expr G e) (m_rules G)"

lemma wf_grammar_body:
  "wf_grammar G \<Longrightarrow> lookup_rule G r = Some nt \<Longrightarrow> m_rule nt = Some e \<Longrightarrow> wf_expr G e"
  by (force simp: wf_grammar_def lookup_rule_def list_all_iff dest: map_of_SomeD)

subsection \<open>Well-formed contexts\<close>

definition tree_ok :: "'c ctx \<Rightarrow> node_ref \<Rightarrow> bool" where
  "tree_ok c t \<longleftrightarrow> (case t of None \<Rightarrow> True | Some i \<Rightarrow> i < length (m_node_arena c))"

text \<open>
  A memo entry at a position ends inside the input, not before the position, and exactly at
  it when it caches a failure, which has no tree.
\<close>

definition entry_ok :: "nat \<Rightarrow> nat \<Rightarrow> nat \<Rightarrow> rule_state \<Rightarrow> bool" where
  "entry_ok n arena pos st \<longleftrightarrow>
     pos \<le> m_last_pos st \<and> m_last_pos st \<le> n \<and>
     (\<not> success (m_cached_result st) \<longrightarrow> m_last_pos st = pos \<and> tree (m_cached_result st) = None) \<and>
     (case tree (m_cached_result st) of None \<Rightarrow> True | Some i \<Rightarrow> i < arena)"

definition memo_lookup :: "rule_ref \<Rightarrow> nat \<Rightarrow> 'c ctx \<Rightarrow> rule_state option" where
  "memo_lookup r pos c = (case m_mem c pos of None \<Rightarrow> None | Some memos \<Rightarrow> memos r)"

definition wf_ctx :: "'c ctx \<Rightarrow> bool" where
  "wf_ctx c \<longleftrightarrow>
     m_position c \<le> input_size c \<and>
     (\<forall>r pos st. memo_lookup r pos c = Some st \<longrightarrow>
        entry_ok (input_size c) (length (m_node_arena c)) pos st)"

definition wf_state :: "('c, 'v) grammar \<Rightarrow> 'c ctx \<Rightarrow> bool" where
  "wf_state G c \<longleftrightarrow>
     wf_grammar G \<and> wf_ctx c \<and>
     (case m_skipper c of None \<Rightarrow> True | Some s \<Rightarrow> defined_rule G s)"

subsection \<open>What a parse may change\<close>

definition frame_key :: "lr_frame \<Rightarrow> rule_ref \<times> nat \<times> nat" where
  "frame_key f = (fr_rule f, fr_pos f, fr_last_pos f)"

definition lr_keys :: "'c ctx \<Rightarrow> (rule_ref \<times> nat \<times> nat) list" where
  "lr_keys c = map frame_key (m_lr_stack c)"

definition same_env :: "'c ctx \<Rightarrow> 'c ctx \<Rightarrow> bool" where
  "same_env c c' \<longleftrightarrow>
     m_input c' = m_input c \<and> m_skipper c' = m_skipper c \<and>
     length (m_cut c') = length (m_cut c) \<and> tl (m_cut c') = tl (m_cut c) \<and>
     length (m_node_arena c) \<le> length (m_node_arena c') \<and>
     (m_has_error c \<longrightarrow> m_has_error c' \<and> m_furthest_failure_pos c \<le> m_furthest_failure_pos c')"

definition step_rel :: "('c, 'v) grammar \<Rightarrow> 'c ctx \<Rightarrow> 'c ctx \<Rightarrow> bool" where
  "step_rel G c c' \<longleftrightarrow>
     same_env c c' \<and> wf_state G c' \<and> lr_keys c' = lr_keys c \<and>
     m_skip_enabled c' = m_skip_enabled c \<and> m_position c \<le> m_position c'"

text \<open>
  \<open>ret_rel\<close>: a parse that returns; a failure leaves the position where it was and
  has no tree.
  \<open>throw_rel\<close>: a parse left by an exception; frames of rules it was in stay on the
  left-recursion stack.
\<close>

definition ret_rel :: "('c, 'v) grammar \<Rightarrow> 'c ctx \<Rightarrow> parse_result \<Rightarrow> 'c ctx \<Rightarrow> bool" where
  "ret_rel G c r c' \<longleftrightarrow>
     step_rel G c c' \<and> tree_ok c' (tree r) \<and>
     (\<not> success r \<longrightarrow> m_position c' = m_position c \<and> tree r = None)"

definition throw_rel :: "('c, 'v) grammar \<Rightarrow> 'c ctx \<Rightarrow> parse_error \<Rightarrow> 'c ctx \<Rightarrow> bool" where
  "throw_rel G c e c' \<longleftrightarrow>
     same_env c c' \<and> wf_state G c' \<and> (\<exists>dead. lr_keys c' = dead @ lr_keys c)"

lemma same_env_refl [simp]: "same_env c c"
  by (simp add: same_env_def)

lemma same_env_trans: "same_env a b \<Longrightarrow> same_env b c \<Longrightarrow> same_env a c"
  by (auto simp: same_env_def)

lemma step_rel_refl: "wf_state G c \<Longrightarrow> step_rel G c c"
  by (simp add: step_rel_def)

lemma step_rel_trans: "step_rel G a b \<Longrightarrow> step_rel G b c \<Longrightarrow> step_rel G a c"
  by (auto simp: step_rel_def intro: same_env_trans)

lemma step_rel_wf: "step_rel G a b \<Longrightarrow> wf_state G b"
  by (simp add: step_rel_def)

lemma ret_rel_step: "ret_rel G a r b \<Longrightarrow> step_rel G a b"
  by (simp add: ret_rel_def)

lemma ret_rel_after:
  "step_rel G a b \<Longrightarrow> ret_rel G b r c \<Longrightarrow> success r \<or> m_position b = m_position a \<Longrightarrow> ret_rel G a r c"
  by (auto simp: ret_rel_def intro: step_rel_trans)

lemma tree_ok_cong: "m_node_arena c = m_node_arena c' \<Longrightarrow> tree_ok c t = tree_ok c' t"
  by (cases t) (simp_all add: tree_ok_def)

lemma throw_rel_after: "step_rel G a b \<Longrightarrow> throw_rel G b e c \<Longrightarrow> throw_rel G a e c"
  by (auto simp: throw_rel_def step_rel_def intro: same_env_trans)

lemma throw_rel_here: "step_rel G a b \<Longrightarrow> throw_rel G a e b"
  by (simp add: throw_rel_def step_rel_def)

lemma post_bindI:
  "post m Q1 E \<Longrightarrow> (\<And>a s. Q1 a s \<Longrightarrow> post (f a s) Q E) \<Longrightarrow> post (bind_o m f) Q E"
  by (cases m) simp_all

lemma post_after:
  "step_rel G a b \<Longrightarrow> post m Q (throw_rel G b) \<Longrightarrow> (\<And>x s. Q x s \<Longrightarrow> Q' x s) \<Longrightarrow>
   post m Q' (throw_rel G a)"
  by (cases m) (auto intro: throw_rel_after)

subsection \<open>Memo lookups after the memo operations\<close>

lemma memo_lookup_upd [simp]:
  "memo_lookup r pos (m_position_update f c) = memo_lookup r pos c"
  "memo_lookup r pos (m_node_arena_update g c) = memo_lookup r pos c"
  "memo_lookup r pos (m_cut_update h c) = memo_lookup r pos c"
  "memo_lookup r pos (m_lr_stack_update k c) = memo_lookup r pos c"
  "memo_lookup r pos (m_growing_head_update l c) = memo_lookup r pos c"
  "memo_lookup r pos (m_skip_enabled_update e c) = memo_lookup r pos c"
  "memo_lookup r pos (m_skipper_update s c) = memo_lookup r pos c"
  "memo_lookup r pos (m_diagnostics_update d c) = memo_lookup r pos c"
  "memo_lookup r pos (m_last_cut_update u c) = memo_lookup r pos c"
  "memo_lookup r pos (m_furthest_failure_pos_update q c) = memo_lookup r pos c"
  "memo_lookup r pos (m_expected_update v c) = memo_lookup r pos c"
  "memo_lookup r pos (m_has_error_update w c) = memo_lookup r pos c"
  by (simp_all add: memo_lookup_def)

lemma memo_lookup_rule_state:
  "memo_lookup r pos (snd (rule_state rule p c)) =
     (if r = rule \<and> pos = p \<and> memo_lookup rule p c = None then Some default_rule_state
      else memo_lookup r pos c)"
  by (auto simp: memo_lookup_def rule_state_def Let_def split: option.splits)

lemma rule_state_fst:
  "fst (rule_state rule p c) =
     (case memo_lookup rule p c of None \<Rightarrow> (True, default_rule_state) | Some st \<Rightarrow> (False, st))"
  by (auto simp: memo_lookup_def rule_state_def Let_def split: option.splits)

lemma memo_lookup_update:
  "memo_lookup r pos (snd (update_rule_state rule p st c)) =
     (if r = rule \<and> pos = p \<and> memo_lookup rule p c \<noteq> None then Some st else memo_lookup r pos c)"
  by (auto simp: memo_lookup_def update_rule_state_def split: option.splits)

lemma update_rule_state_fst: "fst (update_rule_state rule p st c) = (memo_lookup rule p c \<noteq> None)"
  by (auto simp: memo_lookup_def update_rule_state_def split: option.splits)

lemma memo_get_lookup:
  "memo_get rule p c = (case memo_lookup rule p c of None \<Rightarrow> default_rule_state | Some st \<Rightarrow> st)"
  by (auto simp: memo_get_def memo_lookup_def split: option.splits)

lemma memo_lookup_clear_siblings:
  "memo_lookup r pos (clear_siblings_at p keep c) =
     (if pos = p \<and> r \<noteq> keep \<and> \<not> lr_in_progress r p c then None else memo_lookup r pos c)"
  by (auto simp: memo_lookup_def clear_siblings_at_def split: option.splits)

lemma rule_state_frame [simp]:
  fixes c :: "'c ctx"
  shows "m_input (snd (rule_state rule p c)) = m_input c"
    "m_position (snd (rule_state rule p c)) = m_position c"
    "m_node_arena (snd (rule_state rule p c)) = m_node_arena c"
    "m_cut (snd (rule_state rule p c)) = m_cut c"
    "m_lr_stack (snd (rule_state rule p c)) = m_lr_stack c"
    "m_skipper (snd (rule_state rule p c)) = m_skipper c"
    "m_skip_enabled (snd (rule_state rule p c)) = m_skip_enabled c"
    "m_has_error (snd (rule_state rule p c)) = m_has_error c"
    "m_furthest_failure_pos (snd (rule_state rule p c)) = m_furthest_failure_pos c"
  by (auto simp: rule_state_def Let_def split: option.splits)

lemma update_rule_state_frame [simp]:
  fixes c :: "'c ctx"
  shows "m_input (snd (update_rule_state rule p st c)) = m_input c"
    "m_position (snd (update_rule_state rule p st c)) = m_position c"
    "m_node_arena (snd (update_rule_state rule p st c)) = m_node_arena c"
    "m_cut (snd (update_rule_state rule p st c)) = m_cut c"
    "m_lr_stack (snd (update_rule_state rule p st c)) = m_lr_stack c"
    "m_skipper (snd (update_rule_state rule p st c)) = m_skipper c"
    "m_skip_enabled (snd (update_rule_state rule p st c)) = m_skip_enabled c"
    "m_has_error (snd (update_rule_state rule p st c)) = m_has_error c"
    "m_furthest_failure_pos (snd (update_rule_state rule p st c)) = m_furthest_failure_pos c"
  by (auto simp: update_rule_state_def split: option.splits)

lemma clear_siblings_frame [simp]:
  fixes c :: "'c ctx"
  shows "m_input (clear_siblings_at p keep c) = m_input c"
    "m_position (clear_siblings_at p keep c) = m_position c"
    "m_node_arena (clear_siblings_at p keep c) = m_node_arena c"
    "m_cut (clear_siblings_at p keep c) = m_cut c"
    "m_lr_stack (clear_siblings_at p keep c) = m_lr_stack c"
    "m_skipper (clear_siblings_at p keep c) = m_skipper c"
    "m_skip_enabled (clear_siblings_at p keep c) = m_skip_enabled c"
    "m_has_error (clear_siblings_at p keep c) = m_has_error c"
    "m_furthest_failure_pos (clear_siblings_at p keep c) = m_furthest_failure_pos c"
  by (auto simp: clear_siblings_at_def split: option.splits)


subsection \<open>How the operations move through the contract\<close>

lemma entry_ok_mono: "entry_ok n a pos st \<Longrightarrow> a \<le> b \<Longrightarrow> entry_ok n b pos st"
  by (auto simp: entry_ok_def split: option.splits)

lemma wf_state_cong:
  assumes "wf_state G c" and "m_input c' = m_input c" and "m_skipper c' = m_skipper c"
    and "length (m_node_arena c) \<le> length (m_node_arena c')"
    and "m_position c' \<le> input_size c'"
    and "\<And>r pos st. memo_lookup r pos c' = Some st \<Longrightarrow>
           memo_lookup r pos c = Some st \<or> entry_ok (input_size c') (length (m_node_arena c')) pos st"
  shows "wf_state G c'"
proof -
  have "entry_ok (input_size c') (length (m_node_arena c')) pos st"
    if "memo_lookup r pos c' = Some st" for r pos st
    using assms(6) [OF that] assms(1,2,4)
    by (auto simp: wf_state_def wf_ctx_def input_size_def intro: entry_ok_mono)
  with assms show ?thesis
    by (auto simp: wf_state_def wf_ctx_def)
qed

lemma wf_state_pos: "wf_state G c \<Longrightarrow> m_position c \<le> input_size c"
  by (simp add: wf_state_def wf_ctx_def)

lemma step_rel_wfI:
  assumes "wf_state G c" and "m_input c' = m_input c" and "m_skipper c' = m_skipper c"
    and "length (m_cut c') = length (m_cut c)" and "tl (m_cut c') = tl (m_cut c)"
    and "length (m_node_arena c) \<le> length (m_node_arena c')"
    and "m_has_error c \<longrightarrow> m_has_error c' \<and> m_furthest_failure_pos c \<le> m_furthest_failure_pos c'"
    and "lr_keys c' = lr_keys c" and "m_skip_enabled c' = m_skip_enabled c"
    and "m_position c \<le> m_position c'" and "m_position c' \<le> input_size c'"
    and "\<And>r pos st. memo_lookup r pos c' = Some st \<Longrightarrow>
           memo_lookup r pos c = Some st \<or> entry_ok (input_size c') (length (m_node_arena c')) pos st"
  shows "step_rel G c c'"
  using assms wf_state_cong [OF assms(1-3) assms(6) assms(11-12)]
  by (simp add: step_rel_def same_env_def)

lemma step_next_pos: "wf_state G c \<Longrightarrow> step_rel G c (next_pos c)"
  by (rule step_rel_wfI)
     (auto simp: next_pos_def lr_keys_def input_size_def dest: wf_state_pos split: if_splits)

lemma step_make_node: "wf_state G c \<Longrightarrow> step_rel G c (snd (make_node c))"
  by (rule step_rel_wfI) (auto simp: make_node_def lr_keys_def input_size_def dest: wf_state_pos)

lemma step_upd_node: "wf_state G c \<Longrightarrow> step_rel G c (upd_node i f c)"
  by (rule step_rel_wfI) (auto simp: upd_node_def lr_keys_def input_size_def dest: wf_state_pos)

lemma step_push_child: "wf_state G c \<Longrightarrow> step_rel G c (push_child i t c)"
  by (auto simp: push_child_def step_upd_node step_rel_refl split: option.split)

lemma step_set_cut: "wf_state G c \<Longrightarrow> step_rel G c (set_cut b c)"
  by (rule step_rel_wfI)
     (auto simp: set_cut_def lr_keys_def input_size_def dest: wf_state_pos split: list.splits)

lemma step_record_failure: "wf_state G c \<Longrightarrow> step_rel G c (record_failure pos item c)"
  by (rule step_rel_wfI)
     (auto simp: record_failure_def lr_keys_def input_size_def dest: wf_state_pos split: if_splits)

lemma record_failure_lazy_eq:
  "record_failure_lazy pos f c = record_failure pos (f ()) c"
  by (simp add: record_failure_lazy_def record_failure_def)

lemma record_failure_pos [simp]:
  "m_position (record_failure pos item c) = m_position c"
  "m_input (record_failure pos item c) = m_input c"
  "m_node_arena (record_failure pos item c) = m_node_arena c"
  "m_lr_stack (record_failure pos item c) = m_lr_stack c"
  "m_cut (record_failure pos item c) = m_cut c"
  by (auto simp: record_failure_def)

lemma upd_node_pos [simp]:
  "m_position (upd_node i f c) = m_position c"
  "m_input (upd_node i f c) = m_input c"
  "length (m_node_arena (upd_node i f c)) = length (m_node_arena c)"
  "m_lr_stack (upd_node i f c) = m_lr_stack c"
  "m_cut (upd_node i f c) = m_cut c"
  by (simp_all add: upd_node_def)

lemma push_child_pos [simp]:
  "m_position (push_child i t c) = m_position c"
  "length (m_node_arena (push_child i t c)) = length (m_node_arena c)"
  by (simp_all add: push_child_def split: option.split)

lemma tree_ok_arena:
  "tree_ok c t \<Longrightarrow> length (m_node_arena c) \<le> length (m_node_arena c') \<Longrightarrow> tree_ok c' t"
  by (auto simp: tree_ok_def split: option.splits)

lemma tree_ok_None [simp]: "tree_ok c None"
  by (simp add: tree_ok_def)

lemma step_rel_arena: "step_rel G c c' \<Longrightarrow> length (m_node_arena c) \<le> length (m_node_arena c')"
  by (simp add: step_rel_def same_env_def)

lemma step_rel_input: "step_rel G c c' \<Longrightarrow> input_size c' = input_size c"
  by (simp add: step_rel_def same_env_def input_size_def)

text \<open>Moving the position (a rewind, or the commit of a partial match).\<close>

lemma step_set_state:
  "step_rel G c c' \<Longrightarrow> m_position c \<le> p \<Longrightarrow> p \<le> input_size c \<Longrightarrow> step_rel G c (set_state p c')"
  by (auto simp: step_rel_def same_env_def set_state_def lr_keys_def input_size_def
      intro: wf_state_cong)

lemma ret_null_rewind:
  "step_rel G c c' \<Longrightarrow> wf_state G c \<Longrightarrow> ret_rel G c null_result (set_state (m_position c) c')"
  by (auto simp: ret_rel_def null_result_def set_state_def step_set_state [unfolded set_state_def]
      dest: wf_state_pos)

lemma ret_ok: "step_rel G c c' \<Longrightarrow> tree_ok c' t \<Longrightarrow> ret_rel G c (ok_result t) c'"
  by (simp add: ret_rel_def ok_result_def)

lemma ret_null_same:
  "step_rel G c c' \<Longrightarrow> m_position c' = m_position c \<Longrightarrow> ret_rel G c null_result c'"
  by (simp add: ret_rel_def null_result_def)

subsection \<open>Leaves\<close>

lemma try_symbol_defined:
  "wf_terminal ops v \<Longrightarrow> \<exists>b. try_symbol ops v c = Some b"
  by (cases v) (auto simp: try_symbol_def current_def ended_def input_size_def)

lemma terminal_contract:
  assumes "wf_terminal ops v" and "wf_state G c"
  shows "post (terminal_parse ops v c) (ret_rel G c) (throw_rel G c)"
proof -
  obtain b where "try_symbol ops v c = Some b"
    using try_symbol_defined [OF assms(1)] by blast
  with assms(2) show ?thesis
    by (cases b) (auto simp: terminal_parse_def record_terminal_expected_def record_failure_lazy_eq
        intro!: ret_ok ret_null_same step_next_pos step_record_failure)
qed

lemma token_contract:
  assumes "wf_terminal ops v" and "wf_state G c"
  shows "post (token_parse ops v c) (ret_rel G c) (throw_rel G c)"
proof -
  obtain b where b: "try_symbol ops v c = Some b"
    using try_symbol_defined [OF assms(1)] by blast
  have 1: "step_rel G c (snd (make_node (next_pos c)))"
    using assms(2) by (meson step_make_node step_next_pos step_rel_trans step_rel_wf)
  then have 2: "step_rel G c (upd_node i f (snd (make_node (next_pos c))))" for i f
    by (meson step_upd_node step_rel_trans step_rel_wf)
  show ?thesis
    using b assms(2)
    by (cases b) (auto simp: token_parse_def record_terminal_expected_def record_failure_lazy_eq
        make_node_def tree_ok_def
        intro!: ret_ok ret_null_same step_record_failure 2 [unfolded make_node_def, simplified])
qed

lemma terminal_seq_loop_contract:
  assumes "step_rel G c0 c" and "wf_state G c0" and "init = m_position c0"
  shows "post (terminal_seq_loop ops all_vs init vs c) (ret_rel G c0) (throw_rel G c0)"
  using assms
proof (induction vs arbitrary: c)
  case Nil
  then show ?case by (simp add: ret_ok)
next
  case (Cons v vs)
  obtain b where b: "try_symbol ops (TValue v) c = Some b"
    using try_symbol_defined [of ops "TValue v"] by auto
  have n: "step_rel G c0 (next_pos c)"
    using Cons.prems(1) by (meson step_next_pos step_rel_trans step_rel_wf)
  have "step_rel G c0 (set_state (m_position c0) c)"
    using Cons.prems(1,2) by (simp add: step_set_state wf_state_pos)
  then have "step_rel G c0 (record_failure p item (set_state (m_position c0) c))" for p item
    by (meson step_record_failure step_rel_trans step_rel_wf)
  then show ?case
    using b Cons.IH [OF n Cons.prems(2,3)] Cons.prems(3)
    by (cases b) (auto simp: record_failure_lazy_eq Let_def set_state_def intro!: ret_null_same)
qed

lemma matcher_contract:
  assumes "matcher_ok fn" and "wf_state G c"
  shows "post (matcher_parse fn c) (ret_rel G c) (throw_rel G c)"
proof (cases "fn (m_input c) (Span (mark c) (mark c))")
  case None
  with assms show ?thesis
    by (simp add: matcher_parse_def ret_null_same step_rel_refl)
next
  case (Some sp)
  then have sp: "m_position c \<le> sp_end sp" "sp_end sp \<le> input_size c"
    using assms wf_state_pos [OF assms(2)] by (auto simp: matcher_ok_def mark_def input_size_def)
  let ?c1 = "c\<lparr>m_position := sp_end sp\<rparr>"
  have 1: "step_rel G c ?c1"
    using step_set_state [OF step_rel_refl [OF assms(2)] sp] by (simp add: set_state_def)
  have 2: "step_rel G c (upd_node i f (snd (make_node ?c1)))" for i f
    using 1 by (meson step_upd_node step_make_node step_rel_trans step_rel_wf)
  show ?thesis
    using Some sp 2 [unfolded make_node_def, simplified]
    by (simp add: matcher_parse_def Let_def reset_def mark_def make_node_def)
       (auto simp: tree_ok_def intro!: ret_ok)
qed


lemma start_node_step:
  assumes "wf_state G c" and "start_node c = (n, c1)"
  shows "step_rel G c c1 \<and> n < length (m_node_arena c1) \<and> m_position c1 = m_position c \<and>
    input_size c1 = input_size c"
proof -
  have c1: "c1 = upd_node n (\<lambda>n. n\<lparr>start_offset := mark (snd (make_node c))\<rparr>) (snd (make_node c))"
      "n = length (m_node_arena c)"
    using assms(2) by (auto simp: start_node_def make_node_def)
  then have "step_rel G c c1"
    using assms(1) by (meson step_upd_node step_make_node step_rel_trans step_rel_wf)
  then show ?thesis
    using c1 by (simp add: make_node_def input_size_def)
qed

subsection \<open>The contract of the children\<close>

lemma wf_init_cut: "wf_state G c \<Longrightarrow> wf_state G (init_cut c)"
  by (rule wf_state_cong) (auto simp: init_cut_def input_size_def dest: wf_state_pos)

text \<open>Leaving a cut scope undoes entering it, up to memo entries before the cut.\<close>

lemma remove_cut_scope:
  assumes "same_env (init_cut c) c'" and "wf_state G c'"
  shows "\<exists>c''. remove_cut c' = Ret () c'' \<and> same_env c c'' \<and> wf_state G c'' \<and>
           m_lr_stack c'' = m_lr_stack c' \<and> m_position c'' = m_position c' \<and>
           m_node_arena c'' = m_node_arena c' \<and> m_skip_enabled c'' = m_skip_enabled c'"
proof -
  obtain r rest where cut: "m_cut c' = r # rest" and rest: "rest = m_cut c"
    using assms(1) by (cases "m_cut c'") (auto simp: same_env_def init_cut_def)
  let ?c1 = "if get_cut c'
      then c'\<lparr>m_last_cut := cr_pos r, m_mem := (\<lambda>pos. if pos < cr_pos r then None else m_mem c' pos)\<rparr>
      else c'"
  let ?c'' = "?c1\<lparr>m_cut := rest\<rparr>"
  have "remove_cut c' = Ret () ?c''"
    by (simp add: remove_cut_def cut Let_def)
  moreover have "same_env c ?c''"
    using assms(1) rest by (auto simp: same_env_def init_cut_def)
  moreover have "wf_state G ?c''"
    using assms(2)
    by (rule wf_state_cong)
       (use assms(2) in \<open>auto simp: input_size_def memo_lookup_def dest: wf_state_pos split: if_splits\<close>)
  ultimately show ?thesis by (intro exI [of _ ?c'']) auto
qed

locale child_parsers =
  fixes G :: "('c, 'v) grammar"
    and run :: "'c expr \<Rightarrow> 'c parser"
    and skip :: "'c ctx \<Rightarrow> ('c, unit) parse_outcome"
  assumes run_contract: "wf_expr G e \<Longrightarrow> wf_state G c \<Longrightarrow> post (run e c) (ret_rel G c) (throw_rel G c)"
    and skip_contract: "wf_state G c \<Longrightarrow> post (skip c) (\<lambda>_. step_rel G c) (throw_rel G c)"
begin

lemma optional_skip:
  "wf_state G c \<Longrightarrow> post (if b then skip c else Ret () c) (\<lambda>_. step_rel G c) (throw_rel G c)"
  by (simp add: skip_contract step_rel_refl)

lemma parse_seq_contract:
  assumes "list_all (wf_expr G) es" and "wf_state G c"
  shows "post (parse_seq run skip node i es c) (\<lambda>_. step_rel G c) (throw_rel G c)"
  using assms
proof (induction es arbitrary: i c)
  case Nil
  then show ?case by (simp add: step_rel_refl)
next
  case (Cons e es)
  have rest: "post (parse_seq run skip node (Suc i) es (push_child node (tree r) c2))
      (\<lambda>_. step_rel G c) (throw_rel G c)" if "step_rel G c c2" for r c2
  proof -
    have s: "step_rel G c (push_child node (tree r) c2)"
      using that by (meson step_push_child step_rel_trans step_rel_wf)
    show ?thesis
      using Cons.prems by (intro post_after [OF s Cons.IH]) (auto intro: step_rel_trans [OF s] step_rel_wf [OF s])
  qed
  show ?case
    unfolding parse_seq.simps
  proof (rule post_bindI [OF optional_skip [OF Cons.prems(2)]])
    fix u c1 assume s1: "step_rel G c c1"
    show "post (bind_o (run e c1) (\<lambda>r c2. if success r
          then parse_seq run skip node (Suc i) es (push_child node (tree r) c2) else Ret False c2))
        (\<lambda>_. step_rel G c) (throw_rel G c)"
    proof (rule post_bindI)
      show "post (run e c1) (\<lambda>r. step_rel G c) (throw_rel G c)"
        using Cons.prems(1) s1
        by (intro post_after [OF s1 run_contract])
           (auto dest: step_rel_wf ret_rel_step intro: step_rel_trans)
    qed (use rest in auto)
  qed
qed

lemma sequence_contract:
  assumes "list_all (wf_expr G) es" and "wf_state G c"
  shows "post (sequence_parse run skip es c) (ret_rel G c) (throw_rel G c)"
proof -
  obtain n c1 where sn: "start_node c = (n, c1)" by (cases "start_node c")
  have s: "step_rel G c c1" and n: "n < length (m_node_arena c1)"
    using start_node_step [OF assms(2) sn] by auto
  show ?thesis
    unfolding sequence_parse_def Let_def sn prod.case
  proof (rule post_bindI)
    show "post (parse_seq run skip n 0 es c1) (\<lambda>_. step_rel G c1) (throw_rel G c)"
      by (rule post_after [OF s parse_seq_contract [OF assms(1) step_rel_wf [OF s]]])
    fix ok c3 assume 3: "step_rel G c1 c3"
    then have c3: "step_rel G c c3"
      by (rule step_rel_trans [OF s])
    have up: "step_rel G c (upd_node n f c3)" for f
      using c3 by (meson step_upd_node step_rel_trans step_rel_wf)
    have "n < length (m_node_arena c3)"
      using n step_rel_arena [OF 3] by simp
    then show "post (if ok then Ret (ok_result (Some n)) (upd_node n (\<lambda>n. n\<lparr>end_offset := mark c3\<rparr>) c3)
         else Ret null_result (set_state (m_position c) c3)) (ret_rel G c) (throw_rel G c)"
      using ret_null_rewind [OF c3 assms(2)] by (auto simp: tree_ok_def intro!: ret_ok up)
  qed
qed

lemma parse_alt_contract:
  assumes "list_all (wf_expr G) es" and "wf_state G c"
  shows "post (parse_alt run i es c) (ret_rel G c) (throw_rel G c)"
  using assms
proof (induction es arbitrary: i c)
  case Nil
  then show ?case by (simp add: ret_null_same step_rel_refl)
next
  case (Cons e es)
  show ?case
    unfolding parse_alt.simps
  proof (rule post_bindI)
    show "post (run e c) (ret_rel G c) (throw_rel G c)"
      using Cons.prems by (simp add: run_contract)
    fix r c1 assume r: "ret_rel G c r c1"
    then have s: "step_rel G c c1" by (rule ret_rel_step)
    have up: "step_rel G c (upd_node t f c1)" for t f
      using s by (meson step_upd_node step_rel_trans step_rel_wf)
    have more: "post (parse_alt run (Suc i) es c1) (ret_rel G c1) (throw_rel G c1)"
      using Cons s by (auto dest: step_rel_wf)
    have rest: "post (parse_alt run (Suc i) es c1) (ret_rel G c) (throw_rel G c)"
      if fail: "\<not> success r"
    proof (rule post_after [OF s more])
      show "ret_rel G c x t" if "ret_rel G c1 x t" for x t
        using ret_rel_after [OF s that] r fail by (simp add: ret_rel_def)
    qed
    show "post (if success r
         then Ret r (case tree r of None \<Rightarrow> c1 | Some t \<Rightarrow> upd_node t (\<lambda>n. n\<lparr>alt_winner := Some i\<rparr>) c1)
         else if get_cut c1 then Throw (cut_error c1) c1 else parse_alt run (Suc i) es c1)
       (ret_rel G c) (throw_rel G c)"
    proof (cases "success r")
      case True
      with r up show ?thesis
        by (cases "tree r") (auto simp: ret_rel_def tree_ok_def)
    next
      case False
      with s rest show ?thesis by (simp add: throw_rel_here)
    qed
  qed
qed

lemma cut_scope_contract:
  assumes "wf_state G c"
    and "post (m (init_cut c)) (ret_rel G (init_cut c)) (throw_rel G (init_cut c))"
  shows "post (scope_guard remove_cut (m (init_cut c))) (ret_rel G c) (throw_rel G c)"
proof (rule post_guard, rule post_mono [OF assms(2)])
  have ic: "lr_keys (init_cut c) = lr_keys c" "m_position (init_cut c) = m_position c"
      "m_skip_enabled (init_cut c) = m_skip_enabled c"
    by (simp_all add: init_cut_def lr_keys_def)
  show "post (remove_cut s) (\<lambda>_. ret_rel G c r) (throw_rel G c)"
    if "ret_rel G (init_cut c) r s" for r s
  proof -
    from that have env: "same_env (init_cut c) s" and wf: "wf_state G s"
      by (auto simp: ret_rel_def step_rel_def)
    obtain c'' where "remove_cut s = Ret () c''" "same_env c c''" "wf_state G c''"
        "m_lr_stack c'' = m_lr_stack s" "m_position c'' = m_position s"
        "m_node_arena c'' = m_node_arena s" "m_skip_enabled c'' = m_skip_enabled s"
      using remove_cut_scope [OF env wf] by blast
    moreover from this have "tree_ok c'' (tree r) = tree_ok s (tree r)"
      by (intro tree_ok_cong) simp
    ultimately show ?thesis
      using that ic by (auto simp: ret_rel_def step_rel_def lr_keys_def)
  qed
  show "post (remove_cut s) (\<lambda>_. throw_rel G c e) (throw_rel G c)"
    if "throw_rel G (init_cut c) e s" for e s
  proof -
    from that have env: "same_env (init_cut c) s" and wf: "wf_state G s"
      by (auto simp: throw_rel_def)
    obtain c'' where "remove_cut s = Ret () c''" "same_env c c''" "wf_state G c''"
        "m_lr_stack c'' = m_lr_stack s"
      using remove_cut_scope [OF env wf] by blast
    then show ?thesis
      using that ic by (auto simp: throw_rel_def lr_keys_def)
  qed
qed

lemma alternation_contract:
  assumes "list_all (wf_expr G) es" and "wf_state G c"
  shows "post (alternation_parse run es c) (ret_rel G c) (throw_rel G c)"
  unfolding alternation_parse_def
  using assms by (intro cut_scope_contract parse_alt_contract wf_init_cut)

lemma predicate_contract:
  assumes "wf_expr G e" and "wf_state G c"
  shows "post (predicate_parse_impl (run e) b c) (ret_rel G c) (throw_rel G c)"
  unfolding predicate_parse_impl_def Let_def
proof (rule post_bindI [OF run_contract [OF assms]])
  fix r s assume "ret_rel G c r s"
  then have "step_rel G c (set_state (m_position c) s)"
    using step_set_state [OF ret_rel_step] wf_state_pos [OF assms(2)] by blast
  then show "post (Ret \<lparr>success = (if b then \<not> success r else success r), tree = None\<rparr>
        (set_state (m_position c) s)) (ret_rel G c) (throw_rel G c)"
    by (simp add: ret_rel_def set_state_def)
qed

lemma lexeme_contract:
  assumes "wf_expr G e" and "wf_state G c"
  shows "post (lexeme_parse (run e) c) (ret_rel G c) (throw_rel G c)"
proof -
  let ?c1 = "set_skip_enabled False c"
  have env: "same_env ?c1 s = same_env c s" "lr_keys ?c1 = lr_keys c"
      "m_position ?c1 = m_position c" for s
    by (simp_all add: set_skip_enabled_def same_env_def lr_keys_def)
  have wf: "wf_state G (set_skip_enabled b s)" if "wf_state G s" for b s
    using that by (rule wf_state_cong) (use that in \<open>auto simp: set_skip_enabled_def input_size_def dest: wf_state_pos\<close>)
  have restore: "same_env c (set_skip_enabled b s) = same_env c s" for b s
    by (simp add: set_skip_enabled_def same_env_def)
  have tree: "tree_ok (set_skip_enabled b s) t = tree_ok s t" for b s t
    by (rule tree_ok_cong) (simp add: set_skip_enabled_def)
  have post1: "post (run e ?c1) (ret_rel G ?c1) (throw_rel G ?c1)"
    using assms by (simp add: run_contract wf)
  show ?thesis
    unfolding lexeme_parse_def Let_def
    by (rule post_guard, rule post_mono [OF post1])
       (auto simp: ret_rel_def throw_rel_def step_rel_def env restore wf tree,
        auto simp: set_skip_enabled_def lr_keys_def)
qed

end


subsection \<open>Repetition\<close>

context child_parsers
begin

lemma rep_loop_contract:
  assumes e: "wf_expr G e" and wf: "wf_state G c0"
    and "step_rel G c0 c" and "m_position c0 \<le> lpos" and "lpos \<le> input_size c0"
  shows "post (rep_loop fuel (run e) skip max_rep node count lpos c)
           (\<lambda>(count', lpos', failed) s. step_rel G c0 s \<and> m_position c0 \<le> lpos' \<and>
              lpos' \<le> input_size c0 \<and> (\<not> failed \<longrightarrow> m_position s = lpos'))
           (throw_rel G c0)" (is "post _ ?Q _")
  using assms(3-5)
proof (induction fuel arbitrary: count lpos c)
  case 0
  then show ?case by simp
next
  case (Suc fuel)
  have "post (if count > 0 then skip c else Ret () c) (\<lambda>_. step_rel G c0) (throw_rel G c0)"
    by (rule post_after [OF Suc.prems(1) optional_skip [OF step_rel_wf [OF Suc.prems(1)]]])
       (rule step_rel_trans [OF Suc.prems(1)])
  then show ?case
    unfolding rep_loop.simps
  proof (rule post_bindI)
    fix u c1 assume s1: "step_rel G c0 c1"
    have sc: "step_rel G c0 (set_cut False c1)"
      using s1 by (meson step_set_cut step_rel_trans step_rel_wf)
    have "post (run e (set_cut False c1)) (\<lambda>r. step_rel G c0) (throw_rel G c0)"
      by (rule post_after [OF sc run_contract [OF e step_rel_wf [OF sc]]])
         (rule step_rel_trans [OF sc ret_rel_step])
    then show "post (let start_state = m_position c1
       in bind_o (run e (set_cut False c1)) (\<lambda>r c2.
            if success r then
              let count = count + 1; lpos = m_position c2; c3 = push_child node (tree r) c2
              in if max_rep > 0 \<and> int count \<ge> max_rep then Ret (count, lpos, False) c3
                 else if m_position c3 = start_state then Ret (count, lpos, False) c3
                 else rep_loop fuel (run e) skip max_rep node count lpos c3
            else Ret (count, lpos, True) c2)) ?Q (throw_rel G c0)"
      unfolding Let_def
    proof (rule post_bindI)
      fix r c2 assume s2: "step_rel G c0 c2"
      have s3: "step_rel G c0 (push_child node (tree r) c2)"
        using s2 by (meson step_push_child step_rel_trans step_rel_wf)
      have lpos: "m_position c0 \<le> m_position c2" "m_position c2 \<le> input_size c0"
        using s2 step_rel_input [OF s2] wf_state_pos [OF step_rel_wf [OF s2]]
        by (auto simp: step_rel_def)
      show "post (if success r then
              if max_rep > 0 \<and> int (count + 1) \<ge> max_rep
              then Ret (count + 1, m_position c2, False) (push_child node (tree r) c2)
              else if m_position (push_child node (tree r) c2) = m_position c1
              then Ret (count + 1, m_position c2, False) (push_child node (tree r) c2)
              else rep_loop fuel (run e) skip max_rep node (count + 1) (m_position c2) (push_child node (tree r) c2)
            else Ret (count, lpos, True) c2) ?Q (throw_rel G c0)"
        using s2 s3 lpos Suc.prems Suc.IH [OF s3 lpos] by simp
    qed
  qed
qed

lemma rep_finish_contract:
  assumes wf: "wf_state G c" and s: "step_rel G c c1" "n < length (m_node_arena c1)"
    and lpos: "m_position c \<le> lpos" "lpos \<le> input_size c"
  shows "post (rep_finish min_rep max_rep n (m_position c) (count, lpos, failed) c1)
    (ret_rel G c) (throw_rel G c)"
proof -
  have "step_rel G c (set_state lpos c1)"
    using step_set_state [OF s(1) lpos] .
  then have s4: "step_rel G c (upd_node n f (set_state lpos c1))" for f
    by (meson step_upd_node step_rel_trans step_rel_wf)
  have s5: "step_rel G c (upd_node n f c1)" "step_rel G c (upd_node n f (upd_node n g (set_state lpos c1)))"
    for f g
    using s(1) s4 by (meson step_upd_node step_rel_trans step_rel_wf)+
  have "n < length (m_node_arena (set_state lpos c1))"
    using s(2) by (simp add: set_state_def)
  then show ?thesis
    using ret_null_rewind [OF s(1) wf] throw_rel_here [OF s4] s(2) s5
    by (cases failed) (auto simp: rep_finish_def Let_def tree_ok_def intro!: ret_ok)
qed

lemma repeat_body_contract:
  assumes e: "wf_expr G e" and wf: "wf_state G c"
  shows "post (repeat_body fuel (run e) skip min_rep max_rep c) (ret_rel G c) (throw_rel G c)"
proof -
  obtain n c1 where sn: "start_node c = (n, c1)" by (cases "start_node c")
  have s: "step_rel G c c1" and n: "n < length (m_node_arena c1)"
      and pos: "m_position c1 = m_position c" "input_size c1 = input_size c"
    using start_node_step [OF wf sn] by auto
  have p: "m_position c1 \<le> m_position c" "m_position c \<le> input_size c1"
    using pos wf_state_pos [OF wf] by simp_all
  show ?thesis
    unfolding repeat_body_def Let_def sn prod.case
  proof (rule post_bindI [OF post_after [OF s rep_loop_contract [OF e step_rel_wf [OF s]
          step_rel_refl [OF step_rel_wf [OF s]] p]]])
    fix x :: "nat \<times> nat \<times> bool" and c2
    assume x: "(case x of (count, lpos, failed) \<Rightarrow> \<lambda>s. step_rel G c1 s \<and> m_position c1 \<le> lpos \<and>
         lpos \<le> input_size c1 \<and> (\<not> failed \<longrightarrow> m_position s = lpos)) c2"
    then have "n < length (m_node_arena c2)"
      using n step_rel_arena [of G c1 c2] by (auto split: prod.splits)
    then show "post (rep_finish min_rep max_rep n (m_position c) x c2) (ret_rel G c) (throw_rel G c)"
      using x pos by (cases x) (auto intro!: rep_finish_contract wf intro: step_rel_trans [OF s])
  qed
qed

lemma repeat_contract:
  assumes e: "wf_expr G e" and wf: "wf_state G c"
  shows "post (repeat_parse_impl fuel (run e) skip min_rep max_rep c) (ret_rel G c) (throw_rel G c)"
  unfolding repeat_parse_impl_def
  by (intro cut_scope_contract repeat_body_contract wf_init_cut e wf)

end

end
