(* ===== verification/Rule_Contract.thy ===== *)
theory Rule_Contract
  imports Contract
begin

text \<open>
  The contract of \<open>NonTerminal::parse\<close> and of the skipper, inside the locale of the
  children's contract; then the engine interprets the locale, by induction on the fuel.
\<close>

subsection \<open>States inside a running rule\<close>

text \<open>
  \<open>in_rule G c rule L c'\<close>: \<open>c'\<close> is a state of the run of \<open>rule\<close> that entered in \<open>c\<close>, and
  the frame of the run has the last position \<open>L\<close>.
\<close>

definition in_rule :: "('c, 'v) grammar \<Rightarrow> 'c ctx \<Rightarrow> rule_ref \<Rightarrow> nat \<Rightarrow> 'c ctx \<Rightarrow> bool" where
  "in_rule G c rule L c' \<longleftrightarrow>
     same_env c c' \<and> wf_state G c' \<and> lr_keys c' = (rule, m_position c, L) # lr_keys c \<and>
     m_skip_enabled c' = m_skip_enabled c \<and> m_position c \<le> m_position c' \<and>
     m_position c \<le> L \<and> L \<le> input_size c"

lemma in_rule_cong:
  assumes "in_rule G c rule L c1"
    and "m_input c2 = m_input c1" "m_skipper c2 = m_skipper c1" "m_cut c2 = m_cut c1"
      "m_skip_enabled c2 = m_skip_enabled c1" "m_has_error c2 = m_has_error c1"
      "m_furthest_failure_pos c2 = m_furthest_failure_pos c1"
    and "lr_keys c2 = (rule, m_position c, L') # lr_keys c"
    and "m_position c \<le> m_position c2" "m_position c2 \<le> input_size c"
    and "length (m_node_arena c1) \<le> length (m_node_arena c2)"
    and "m_position c \<le> L'" "L' \<le> input_size c"
    and "\<And>r pos st. memo_lookup r pos c2 = Some st \<Longrightarrow>
           memo_lookup r pos c1 = Some st \<or> entry_ok (input_size c2) (length (m_node_arena c2)) pos st"
  shows "in_rule G c rule L' c2"
proof -
  from assms(1) have env: "same_env c c1" and wf: "wf_state G c1"
    and skip: "m_skip_enabled c1 = m_skip_enabled c"
    by (auto simp: in_rule_def)
  have "input_size c2 = input_size c"
    using assms(2) env by (simp add: same_env_def input_size_def)
  then have "wf_state G c2"
    using assms by (intro wf_state_cong [OF wf]) auto
  moreover have "same_env c c2"
    using env assms(2-4,6,7,11) by (simp add: same_env_def)
  ultimately show ?thesis
    using assms skip by (simp add: in_rule_def)
qed

text \<open>An exception that leaves the run of \<open>rule\<close> leaves its frame on the stack.\<close>

definition rule_throw :: "('c, 'v) grammar \<Rightarrow> 'c ctx \<Rightarrow> rule_ref \<Rightarrow> parse_error \<Rightarrow> 'c ctx \<Rightarrow> bool" where
  "rule_throw G c rule e c' \<longleftrightarrow>
     throw_rel G c e c' \<and> (\<exists>dead L. lr_keys c' = dead @ (rule, m_position c, L) # lr_keys c)"

lemma in_rule_throw: "in_rule G c rule L c1 \<Longrightarrow> throw_rel G c1 e c2 \<Longrightarrow> rule_throw G c rule e c2"
  by (auto simp: rule_throw_def in_rule_def throw_rel_def intro: same_env_trans)

lemma in_rule_step: "in_rule G c rule L c1 \<Longrightarrow> step_rel G c1 c2 \<Longrightarrow> in_rule G c rule L c2"
  by (auto simp: in_rule_def step_rel_def intro: same_env_trans)

lemma in_rule_wf: "in_rule G c rule L c1 \<Longrightarrow> wf_state G c1"
  by (simp add: in_rule_def)

lemma in_rule_size: "in_rule G c rule L c1 \<Longrightarrow> input_size c1 = input_size c"
  by (simp add: in_rule_def same_env_def input_size_def)

lemma in_rule_frame:
  assumes "in_rule G c rule L c1"
  obtains fr rest where "m_lr_stack c1 = fr # rest" "fr_rule fr = rule"
    "fr_pos fr = m_position c" "fr_last_pos fr = L" "map frame_key rest = lr_keys c"
  using assms by (cases "m_lr_stack c1") (auto simp: in_rule_def lr_keys_def frame_key_def)

lemma in_rule_with_frame:
  assumes "in_rule G c rule L c1"
  obtains fr rest where "m_lr_stack c1 = fr # rest" "fr_last_pos fr = L"
  using in_rule_frame [OF assms] by metis

lemma in_rule_reset:
  assumes "in_rule G c rule L c1" and "m_position c \<le> p" and "p \<le> input_size c"
  shows "reset p c1 = Ret () (c1\<lparr>m_position := p\<rparr>) \<and> in_rule G c rule L (c1\<lparr>m_position := p\<rparr>)"
proof
  show "reset p c1 = Ret () (c1\<lparr>m_position := p\<rparr>)"
    using assms in_rule_size [OF assms(1)] by (simp add: reset_def)
  show "in_rule G c rule L (c1\<lparr>m_position := p\<rparr>)"
    using assms by (intro in_rule_cong [OF assms(1)]) (auto simp: in_rule_def lr_keys_def)
qed

lemma in_rule_clear_siblings:
  assumes "in_rule G c rule L c1"
  shows "in_rule G c rule L (clear_siblings_at p keep c1)"
proof (rule in_rule_cong [OF assms])
  show "m_position (clear_siblings_at p keep c1) \<le> input_size c"
    using wf_state_pos [OF in_rule_wf [OF assms]] in_rule_size [OF assms] by simp
  show "m_skipper (clear_siblings_at p keep c1) = m_skipper c1"
    by (simp add: clear_siblings_at_def split: option.split)
qed (use assms in \<open>auto simp: in_rule_def lr_keys_def memo_lookup_clear_siblings
       split: if_splits\<close>)

lemma in_rule_plant:
  assumes "in_rule G c rule L c1" and "m_position c \<le> p" "p \<le> input_size c"
  shows "in_rule G c rule p (set_frame_last_pos p c1)"
proof -
  obtain fr rest where "m_lr_stack c1 = fr # rest" "fr_rule fr = rule"
    "fr_pos fr = m_position c" "map frame_key rest = lr_keys c"
    using in_rule_frame [OF assms(1)] by metis
  with assms show ?thesis
    using wf_state_pos [OF in_rule_wf [OF assms(1)]] in_rule_size [OF assms(1)]
    by (intro in_rule_cong [OF assms(1)])
       (auto simp: set_frame_last_pos_def lr_keys_def frame_key_def in_rule_def)
qed

lemma in_rule_update:
  assumes "in_rule G c rule L c1"
    and "entry_ok (input_size c) (length (m_node_arena c1)) pos st"
  shows "in_rule G c rule L (snd (update_rule_state r pos st c1))"
proof (rule in_rule_cong [OF assms(1)])
  show "m_position (snd (update_rule_state r pos st c1)) \<le> input_size c"
    using wf_state_pos [OF in_rule_wf [OF assms(1)]] in_rule_size [OF assms(1)] by simp
  show "input_size c \<ge> L" "m_position c \<le> L"
    using assms(1) by (simp_all add: in_rule_def)
qed (use assms in_rule_size [OF assms(1)] in
      \<open>auto simp: in_rule_def lr_keys_def memo_lookup_update input_size_def split: if_splits\<close>)

subsection \<open>Growing the seed\<close>

text \<open>What the growth loop has when it returns: the frame's last position is the entry's.\<close>

definition grown ::
  "('c, 'v) grammar \<Rightarrow> 'c ctx \<Rightarrow> rule_ref \<Rightarrow> parse_result \<times> rule_state \<Rightarrow> 'c ctx \<Rightarrow> bool" where
  "grown G c rule = (\<lambda>(best, st) c'.
     in_rule G c rule (m_last_pos st) c' \<and> tree_ok c' (tree best) \<and>
     (success best \<or> m_last_pos st = m_position c))"

lemma entry_ok_tree:
  "tree_ok c (tree r) \<Longrightarrow> length (m_node_arena c) \<le> a \<Longrightarrow> pos \<le> p \<Longrightarrow> p \<le> n \<Longrightarrow>
   success r \<Longrightarrow> entry_ok n a pos \<lparr>m_last_pos = p, m_cached_result = r\<rparr>"
  by (auto simp: entry_ok_def tree_ok_def split: option.splits)

context child_parsers
begin

lemma grow_loop_contract:
  assumes e: "wf_expr G e"
    and "in_rule G c rule (m_last_pos st) c1" "tree_ok c1 (tree best)"
    and "success best \<or> m_last_pos st = m_position c"
  shows "post (grow_loop fuel (run e) rule (m_position c) st best c1) (grown G c rule) (rule_throw G c rule)"
  using assms(2-)
proof (induction fuel arbitrary: st best c1)
  case 0
  then show ?case by simp
next
  case (Suc fuel)
  let ?p = "m_position c" and ?L = "m_last_pos st"
  let ?c1 = "c1\<lparr>m_position := ?p\<rparr>"
  have L: "?p \<le> ?L" "?L \<le> input_size c" and p: "?p \<le> input_size c"
    using Suc.prems(1) by (auto simp: in_rule_def)
  have r1: "reset ?p c1 = Ret () ?c1" and in1: "in_rule G c rule ?L ?c1"
    using in_rule_reset [OF Suc.prems(1) order_refl p] by auto
  obtain fr rest where fr: "m_lr_stack ?c1 = fr # rest" "fr_last_pos fr = ?L"
    using in_rule_with_frame [OF in1] by metis
  define c1' where "c1' = (if fr_is_head fr \<and> success best then clear_siblings_at ?p rule ?c1 else ?c1)"
  have in1': "in_rule G c rule ?L c1'"
    using in1 in_rule_clear_siblings [OF in1] by (simp add: c1'_def)
  have pos1': "m_position c1' = ?p" and ar1': "m_node_arena c1' = m_node_arena c1"
    by (simp_all add: c1'_def)
  have body: "post (run e c1') (ret_rel G c1') (rule_throw G c rule)"
    using run_contract [OF e in_rule_wf [OF in1']]
    by (rule post_mono) (auto intro: in_rule_throw [OF in1'])
  have after: "post (with_frame (\<lambda>frame c2'.
           let end_pos = mark c2'
           in if success result then
                if end_pos > fr_last_pos frame then
                  let c3 = set_frame_last_pos end_pos c2';
                      st' = \<lparr>m_last_pos = end_pos, m_cached_result = result\<rparr>;
                      (ok, c4) = update_rule_state rule ?p st' c3
                  in if \<not> ok then Ret (result, st') c4
                     else grow_loop fuel (run e) rule ?p st' result c4
                else
                  let best' = (if \<not> success best then result else best);
                      st' = \<lparr>m_last_pos = fr_last_pos frame, m_cached_result = best'\<rparr>
                  in Ret (best', st') (snd (update_rule_state rule ?p st' c2'))
              else Ret (best, st) c2') c2) (grown G c rule) (rule_throw G c rule)"
    if ret: "ret_rel G c1' result c2" for result c2
  proof -
    have step: "step_rel G c1' c2" and tree: "tree_ok c2 (tree result)"
      using ret by (auto simp: ret_rel_def)
    have in2: "in_rule G c rule ?L c2"
      by (rule in_rule_step [OF in1' step])
    have tree_b: "tree_ok c2 (tree best)"
      using Suc.prems(2) step_rel_arena [OF step] ar1' by (auto intro: tree_ok_arena)
    have q: "?p \<le> m_position c2" "m_position c2 \<le> input_size c"
      using in2 wf_state_pos [OF in_rule_wf [OF in2]] in_rule_size [OF in2] by (auto simp: in_rule_def)
    obtain fr2 rest2 where fr2: "m_lr_stack c2 = fr2 # rest2" "fr_last_pos fr2 = ?L"
      using in_rule_with_frame [OF in2] by metis
    let ?c3 = "set_frame_last_pos (m_position c2) c2"
    let ?st = "\<lparr>m_last_pos = m_position c2, m_cached_result = result\<rparr>"
    let ?c4 = "snd (update_rule_state rule ?p ?st ?c3)"
    let ?best = "if \<not> success best then result else best"
    let ?st2 = "\<lparr>m_last_pos = ?L, m_cached_result = ?best\<rparr>"
    have ar3: "m_node_arena ?c3 = m_node_arena c2"
      by (simp add: set_frame_last_pos_def split: list.split)
    have in3: "in_rule G c rule (m_position c2) ?c3"
      by (rule in_rule_plant [OF in2 q])
    have in4: "in_rule G c rule (m_position c2) ?c4" if "success result"
      using that tree q ar3 by (intro in_rule_update [OF in3] entry_ok_tree [where c = c2]) auto
    have tree4: "tree_ok ?c4 (tree result)"
      using tree ar3 by (auto intro: tree_ok_arena)
    have in5: "in_rule G c rule ?L (snd (update_rule_state rule ?p ?st2 c2))" if "success result"
      using that tree tree_b L by (intro in_rule_update [OF in2] entry_ok_tree [where c = c2]) auto
    show ?thesis
      using in4 tree4 in5 in2 tree tree_b fr2(2) Suc.IH [of ?st ?c4 result] Suc.prems(3)
      by (cases "update_rule_state rule ?p ?st ?c3")
         (auto simp: with_frame_def fr2(1) Let_def mark_def grown_def intro: tree_ok_arena)
  qed
  show ?case
    unfolding grow_loop.simps r1 bind_o.simps with_frame_def [of _ ?c1] fr(1) list.case
      c1'_def [symmetric]
    by (rule post_bindI [OF body], rule after)
qed

end

subsection \<open>Entering a rule\<close>

definition seed :: "nat \<Rightarrow> rule_state" where
  "seed p = \<lparr>m_last_pos = p, m_cached_result = null_result\<rparr>"

text \<open>The state \<open>parse_impl\<close> starts to grow in: the fresh entry holds the failure seed.\<close>

lemma in_rule_enter:
  assumes "wf_state G c"
  shows "in_rule G c rule (m_position c)
    (snd (update_rule_state rule (m_position c) (seed (m_position c))
      (set_frame_last_pos (m_position c)
        (lr_push \<lparr>fr_rule = rule, fr_pos = m_position c, fr_last_pos = m_position c, fr_is_head = h\<rparr>
          (snd (rule_state rule (m_position c) c))))))" (is "in_rule G c rule ?p ?c")
proof -
  have lookup: "memo_lookup r pos ?c = Some st \<Longrightarrow>
      memo_lookup r pos c = Some st \<or> (st = seed ?p \<and> pos = ?p)" for r pos st
    by (auto simp: memo_lookup_update memo_lookup_rule_state set_frame_last_pos_def lr_push_def
        split: if_splits)
  have seed: "entry_ok (input_size c) a ?p (seed ?p)" for a
    using wf_state_pos [OF assms] by (simp add: entry_ok_def seed_def null_result_def)
  have fields: "m_input ?c = m_input c" "m_skipper ?c = m_skipper c" "m_cut ?c = m_cut c"
      "m_node_arena ?c = m_node_arena c" "m_position ?c = m_position c"
      "m_skip_enabled ?c = m_skip_enabled c" "m_has_error ?c = m_has_error c"
      "m_furthest_failure_pos ?c = m_furthest_failure_pos c"
    by (simp_all add: set_frame_last_pos_def lr_push_def)
  have "wf_state G ?c"
    using assms
    by (rule wf_state_cong)
       (use fields lookup seed wf_state_pos [OF assms] in \<open>auto simp: input_size_def\<close>)
  moreover have "lr_keys ?c = (rule, ?p, ?p) # lr_keys c"
    by (simp add: set_frame_last_pos_def lr_push_def lr_keys_def frame_key_def)
  moreover have "same_env c ?c"
    using fields by (simp add: same_env_def)
  ultimately show ?thesis
    using wf_state_pos [OF assms] fields by (simp add: in_rule_def)
qed

context child_parsers
begin

lemma parse_impl_contract:
  assumes e: "wf_expr G e" and wf: "wf_state G c"
  shows "post (parse_impl fuel (run e) rule (m_position c)
      (lr_push \<lparr>fr_rule = rule, fr_pos = m_position c, fr_last_pos = m_position c, fr_is_head = h\<rparr>
          (snd (rule_state rule (m_position c) c))))
    (\<lambda>x s. grown G c rule x s \<and> m_position s = m_last_pos (snd x)) (rule_throw G c rule)"
  unfolding parse_impl_def Let_def seed_def [symmetric]
proof (rule post_bindI [OF grow_loop_contract [OF e]])
  show "in_rule G c rule (m_last_pos (seed (m_position c)))
    (snd (update_rule_state rule (m_position c) (seed (m_position c))
      (set_frame_last_pos (m_position c)
        (lr_push \<lparr>fr_rule = rule, fr_pos = m_position c, fr_last_pos = m_position c, fr_is_head = h\<rparr>
          (snd (rule_state rule (m_position c) c))))))"
    using in_rule_enter [OF wf] by (simp add: seed_def)
  show "success null_result \<or> m_last_pos (seed (m_position c)) = m_position c"
    by (simp add: seed_def)
  fix x s assume "grown G c rule x s"
  moreover obtain best st where [simp]: "x = (best, st)" by (cases x)
  ultimately have s: "in_rule G c rule (m_last_pos st) s" "tree_ok s (tree best)"
      "success best \<or> m_last_pos st = m_position c"
    by (simp_all add: grown_def)
  obtain fr rest where fr: "m_lr_stack s = fr # rest" "fr_last_pos fr = m_last_pos st"
    using in_rule_with_frame [OF s(1)] by metis
  have "m_position c \<le> m_last_pos st" "m_last_pos st \<le> input_size c"
    using s(1) by (simp_all add: in_rule_def)
  then have "reset (m_last_pos st) s = Ret () (s\<lparr>m_position := m_last_pos st\<rparr>)"
      "in_rule G c rule (m_last_pos st) (s\<lparr>m_position := m_last_pos st\<rparr>)"
    using in_rule_reset [OF s(1)] by auto
  then show "post ((case x of (best, st') \<Rightarrow> with_frame (\<lambda>frame c4.
       bind_o (reset (fr_last_pos frame) c4) (\<lambda>_. Ret (best, st')))) s)
     (\<lambda>x s. grown G c rule x s \<and> m_position s = m_last_pos (snd x)) (rule_throw G c rule)"
    using s fr by (auto simp: with_frame_def grown_def intro: tree_ok_arena)
qed (simp add: null_result_def)

end

subsection \<open>Leaving a rule\<close>

text \<open>
  After the frame is popped, the rule is done growing: \<open>left_rule\<close> is what \<open>rule_failed\<close>
  and \<open>rule_matched\<close> start from.
\<close>

lemma pop_frame:
  assumes "in_rule G c rule L c2" "m_position c2 = L"
  obtains fr c3 where "lr_pop (length (m_lr_stack c)) c2 = Some (fr, c3)" "step_rel G c c3"
    "step_rel G c (clear_growing_head p c3)" "m_position c3 = L" "m_node_arena c3 = m_node_arena c2"
proof -
  obtain fr rest where fr: "m_lr_stack c2 = fr # rest" "map frame_key rest = lr_keys c"
    using in_rule_frame [OF assms(1)] by metis
  let ?c3 = "c2\<lparr>m_lr_stack := rest\<rparr>"
  have len: "length rest = length (m_lr_stack c)"
    using fr(2) by (simp add: lr_keys_def) (metis length_map)
  have wf: "wf_state G ?c3" "wf_state G (clear_growing_head p ?c3)"
    using in_rule_wf [OF assms(1)] wf_state_pos [OF in_rule_wf [OF assms(1)]]
    by (auto simp: clear_growing_head_def input_size_def intro: wf_state_cong)
  then have "step_rel G c ?c3" "step_rel G c (clear_growing_head p ?c3)"
    using assms fr(2)
    by (auto simp: step_rel_def in_rule_def same_env_def lr_keys_def clear_growing_head_def)
  then show ?thesis
    using fr(1) len assms(2) by (intro that [of fr ?c3]) (simp_all add: lr_pop_def)
qed

lemma scan_sync_bounds:
  "scan \<le> scan_sync sync input scan \<and> (scan \<le> length input \<longrightarrow> scan_sync sync input scan \<le> length input)"
proof (induction sync input scan rule: scan_sync.induct)
  case (1 sync input scan)
  then show ?case by (subst (1 2) scan_sync.simps) auto
qed

lemma step_record_rule_failure: "wf_state G c \<Longrightarrow> step_rel G c (record_rule_failure nt p c)"
  by (simp add: record_rule_failure_def step_record_failure step_rel_refl)

lemma record_rule_failure_fields [simp]:
  "m_position (record_rule_failure nt p c) = m_position c"
  "m_node_arena (record_rule_failure nt p c) = m_node_arena c"
  "m_input (record_rule_failure nt p c) = m_input c"
  by (simp_all add: record_rule_failure_def)

lemma step_update_rule_state:
  assumes "wf_state G c" and "entry_ok (input_size c) (length (m_node_arena c)) pos st"
  shows "step_rel G c (snd (update_rule_state r pos st c))"
  by (rule step_rel_wfI [OF assms(1)])
     (use assms in \<open>auto simp: lr_keys_def input_size_def memo_lookup_update
        dest: wf_state_pos split: if_splits\<close>)

lemma step_record_diagnostic: "wf_state G c \<Longrightarrow> step_rel G c (record_diagnostic d c)"
  by (rule step_rel_wfI)
     (auto simp: record_diagnostic_def lr_keys_def input_size_def dest: wf_state_pos)

lemma rule_matched_contract:
  assumes s: "step_rel G c c4" and "tree_ok c4 (tree inner)"
    and "m_position c4 = m_last_pos st" "m_position c \<le> m_last_pos st"
  shows "post (rule_matched nt rule (m_position c) st inner c4) (ret_rel G c) E"
proof -
  obtain node c5 where b: "build_rule_node nt rule (m_position c) (tree inner) c4 = (node, c5)"
    by (cases "build_rule_node nt rule (m_position c) (tree inner) c4")
  have new: "step_rel G c4 (upd_node (length (m_node_arena c4)) f (snd (make_node c4)))" for f
    using s by (meson step_make_node step_rel_trans step_rel_wf step_upd_node)
  have new2: "step_rel G c4 (push_child i t (upd_node (length (m_node_arena c4)) f (snd (make_node c4))))"
    for f i t
    using new by (meson step_push_child step_rel_trans step_rel_wf)
  have "step_rel G c4 c5 \<and> node < length (m_node_arena c5) \<and> m_position c5 = m_position c4"
    using b [unfolded build_rule_node_def] new new2 assms(2) step_upd_node [OF step_rel_wf [OF s]]
    by (auto simp: Let_def make_node_def tree_ok_def split: if_splits option.splits)
  then have c5: "step_rel G c4 c5" "node < length (m_node_arena c5)" "m_position c5 = m_last_pos st"
    using assms(3) by auto
  let ?st = "st\<lparr>m_cached_result := ok_result (Some node)\<rparr>"
  have "m_last_pos st \<le> input_size c5"
    using wf_state_pos [OF step_rel_wf [OF c5(1)]] c5(3) by simp
  then have "entry_ok (input_size c5) (length (m_node_arena c5)) (m_position c) ?st"
    using c5 assms(4) by (simp add: entry_ok_def ok_result_def)
  then have "step_rel G c (snd (update_rule_state rule (m_position c) ?st c5))"
    using step_update_rule_state [OF step_rel_wf [OF c5(1)]] c5(1) s by (meson step_rel_trans)
  then show ?thesis
    using b c5 by (auto simp: rule_matched_def Let_def tree_ok_def intro!: ret_ok)
qed

lemma step_rel_keep: "step_rel G c a \<Longrightarrow> step_rel G a b \<Longrightarrow> m_position b = m_position a \<Longrightarrow>
    step_rel G c b \<and> m_position b = m_position a"
  by (auto intro: step_rel_trans)

lemma rule_failed_contract:
  assumes wf: "wf_state G c" and s: "step_rel G c c4"
    and pos: "m_position c4 = m_position c" "m_last_pos st = m_position c"
  shows "post (rule_failed nt rule (m_position c) st c4) (ret_rel G c) E"
proof -
  let ?c1 = "record_rule_failure nt (m_position c) c4"
  have c1: "step_rel G c ?c1" "m_position ?c1 = m_position c"
    using step_record_rule_failure [OF step_rel_wf [OF s]] s pos(1)
    by (auto intro: step_rel_trans)
  have p: "m_position c \<le> input_size c" by (rule wf_state_pos [OF wf])
  have "entry_ok (input_size ?c1) (length (m_node_arena ?c1)) (m_position c)
      (st\<lparr>m_cached_result := null_result\<rparr>)"
    using p pos step_rel_input [OF c1(1)] by (simp add: entry_ok_def null_result_def)
  then have fail: "step_rel G c (snd (update_rule_state rule (m_position c)
      (st\<lparr>m_cached_result := null_result\<rparr>) ?c1))"
    using step_update_rule_state [OF step_rel_wf [OF c1(1)]] c1(1) by (meson step_rel_trans)
  have recover: "reset q ?c1 = Ret () (?c1\<lparr>m_position := q\<rparr>) \<and>
      step_rel G c (snd (update_rule_state rule (m_position c) \<lparr>m_last_pos = q, m_cached_result = ok_result None\<rparr>
         (record_diagnostic d (?c1\<lparr>m_position := q\<rparr>))))"
    if q: "m_position c \<le> q" "q \<le> input_size c" for q d
  proof -
    have 2: "step_rel G c (?c1\<lparr>m_position := q\<rparr>)"
      using step_set_state [OF c1(1) q] by (simp add: set_state_def)
    then have 3: "step_rel G c (record_diagnostic d (?c1\<lparr>m_position := q\<rparr>))" (is "step_rel G c ?c3")
      by (meson step_record_diagnostic step_rel_trans step_rel_wf)
    have "entry_ok (input_size ?c3) (length (m_node_arena ?c3)) (m_position c)
        \<lparr>m_last_pos = q, m_cached_result = ok_result None\<rparr>"
      using q step_rel_input [OF 3] by (simp add: entry_ok_def ok_result_def)
    then show ?thesis
      using step_update_rule_state [OF step_rel_wf [OF 3]] 3 q step_rel_input [OF c1(1)]
      by (auto simp: reset_def intro: step_rel_trans)
  qed
  have scan: "m_position c \<le> (if scan_sync sync (m_input c4) (m_position c) < input_size ?c1
        then scan_sync sync (m_input c4) (m_position c) + 1 else input_size ?c1)"
      "(if scan_sync sync (m_input c4) (m_position c) < input_size ?c1
        then scan_sync sync (m_input c4) (m_position c) + 1 else input_size ?c1) \<le> input_size c" for sync
    using scan_sync_bounds [of "m_position c" sync "m_input c4"] p step_rel_input [OF c1(1)]
    by auto
  have fin: "post (Ret null_result (snd (update_rule_state rule (m_position c)
      (st\<lparr>m_cached_result := null_result\<rparr>) ?c1))) (ret_rel G c) E"
    using fail c1(2) by (simp add: ret_null_same)
  show ?thesis
  proof (cases "is_sync_token (m_recover nt)")
    case None
    then show ?thesis using fin by (simp add: rule_failed_def)
  next
    case (Some sync)
    then show ?thesis
      using fin recover [OF scan [of sync]] by (simp add: rule_failed_def Let_def ret_ok)
  qed
qed

subsection \<open>Entering a rule that has an entry\<close>

lemma mark_head_frames_keys:
  "mark_head_frames rule pos fs = (b, fs') \<Longrightarrow> map frame_key fs' = map frame_key fs"
  by (induction fs arbitrary: b fs')
     (auto simp: frame_key_def split: if_splits prod.splits)

lemma step_mark_head:
  assumes "wf_state G c"
  shows "step_rel G c (mark_head rule pos c) \<and> m_position (mark_head rule pos c) = m_position c \<and>
    memo_lookup r q (mark_head rule pos c) = memo_lookup r q c"
proof -
  obtain b fs where fs: "mark_head_frames rule pos (m_lr_stack c) = (b, fs)"
    by (cases "mark_head_frames rule pos (m_lr_stack c)")
  have "step_rel G c (c\<lparr>m_lr_stack := fs\<rparr>)" "step_rel G c (set_growing_head pos rule (c\<lparr>m_lr_stack := fs\<rparr>))"
    using mark_head_frames_keys [OF fs] wf_state_pos [OF assms] assms
    by (auto intro!: step_rel_wfI simp: lr_keys_def set_growing_head_def input_size_def)
  then show ?thesis
    by (simp add: mark_head_def fs Let_def set_growing_head_def)
qed

lemma return_cached_contract:
  assumes wf: "wf_state G c" and s: "step_rel G c c1" and p: "m_position c1 = m_position c"
    and "memo_lookup r (m_position c) c1 = Some st"
  shows "post (return_cached st c1) (ret_rel G c) E"
proof -
  have "entry_ok (input_size c1) (length (m_node_arena c1)) (m_position c) st"
    using step_rel_wf [OF s] assms(4) by (simp add: wf_state_def wf_ctx_def)
  then have e: "m_position c \<le> m_last_pos st" "m_last_pos st \<le> input_size c1"
      "\<not> success (m_cached_result st) \<longrightarrow> m_last_pos st = m_position c \<and> tree (m_cached_result st) = None"
      "tree_ok c1 (tree (m_cached_result st))"
    by (auto simp: entry_ok_def tree_ok_def)
  have "step_rel G c (c1\<lparr>m_position := m_last_pos st\<rparr>)"
    using step_set_state [OF s e(1)] e(2) step_rel_input [OF s] by (simp add: set_state_def)
  then show ?thesis
    using e by (auto simp: return_cached_def reset_def ret_rel_def intro: tree_ok_arena)
qed

lemma reenter_contract:
  assumes wf: "wf_state G c" and "memo_lookup rule (m_position c) c = Some st"
  shows "post (reenter rule (m_position c) st c) (ret_rel G c) E"
proof -
  let ?c1 = "mark_head rule (m_position c) c"
  have 1: "step_rel G c ?c1" "m_position ?c1 = m_position c"
      "memo_lookup rule (m_position c) ?c1 = Some st"
    using step_mark_head [OF wf] assms(2) by auto
  have "memo_get rule (m_position c) ?c1 = st" "memo_get rule (m_position c) c = st"
    using 1(3) assms(2) by (simp_all add: memo_get_lookup)
  then show ?thesis
    using return_cached_contract [OF wf 1] return_cached_contract [OF wf step_rel_refl [OF wf] refl assms(2)]
    by (auto simp: reenter_def Let_def split: option.split)
qed

subsection \<open>The rule and the skipper\<close>

lemma memo_hit_same:
  "memo_lookup rule p c = Some st \<Longrightarrow> snd (rule_state rule p c) = c"
  by (auto simp: memo_lookup_def rule_state_def Let_def fun_upd_idem split: option.splits)

context child_parsers
begin

lemma parse_fresh_contract:
  assumes wf: "wf_state G c" and nt: "lookup_rule G rule = Some nt" "is_defined nt"
  shows "post (parse_fresh fuel run nt rule (m_position c) (snd (rule_state rule (m_position c) c)))
    (ret_rel G c) (rule_throw G c rule)"
proof -
  obtain e where e: "m_rule nt = Some e" using nt(2) by (auto simp: is_defined_def)
  have wfe: "wf_expr G e"
    using wf wf_grammar_body [OF _ nt(1) e] by (simp add: wf_state_def)
  have depth: "length (m_lr_stack (snd (rule_state rule (m_position c) c))) = length (m_lr_stack c)"
    by simp
  show ?thesis
    unfolding parse_fresh_def Let_def e option.case depth
  proof (rule post_bindI [OF parse_impl_contract [OF wfe wf]])
    fix x s assume x: "grown G c rule x s \<and> m_position s = m_last_pos (snd x)"
    obtain inner st where [simp]: "x = (inner, st)" by (cases x)
    from x have g: "in_rule G c rule (m_last_pos st) s" "tree_ok s (tree inner)"
        "success inner \<or> m_last_pos st = m_position c" "m_position s = m_last_pos st"
      by (auto simp: grown_def)
    obtain fr c3 where pop: "lr_pop (length (m_lr_stack c)) s = Some (fr, c3)"
      and c3: "step_rel G c c3" "step_rel G c (clear_growing_head (m_position c) c3)"
        "m_position c3 = m_last_pos st" "m_node_arena c3 = m_node_arena s"
      using pop_frame [OF g(1,4)] by metis
    let ?c4 = "if fr_is_head fr then clear_growing_head (m_position c) c3 else c3"
    have c4: "step_rel G c ?c4" "m_position ?c4 = m_last_pos st" "tree_ok ?c4 (tree inner)"
      using c3 g(2) by (auto simp: clear_growing_head_def intro: tree_ok_arena)
    have "m_position c \<le> m_last_pos st" using g(1) by (simp add: in_rule_def)
    then have m: "post (rule_matched nt rule (m_position c) st inner ?c4) (ret_rel G c) (rule_throw G c rule)"
      by (rule rule_matched_contract [OF c4(1,3,2)])
    have f: "post (rule_failed nt rule (m_position c) st ?c4) (ret_rel G c) (rule_throw G c rule)"
      if "\<not> success inner"
    proof -
      have L: "m_last_pos st = m_position c" using g(3) that by simp
      show ?thesis by (rule rule_failed_contract [OF wf c4(1) _ L]) (use c4(2) L in simp)
    qed
    show "post ((case x of (inner, st) \<Rightarrow> (\<lambda>c2. case lr_pop (length (m_lr_stack c)) c2 of None \<Rightarrow> Fault
          | Some (frame, c3) \<Rightarrow>
              if \<not> success inner then rule_failed nt rule (m_position c) st
                (if fr_is_head frame then clear_growing_head (m_position c) c3 else c3)
              else rule_matched nt rule (m_position c) st inner
                (if fr_is_head frame then clear_growing_head (m_position c) c3 else c3))) s)
          (ret_rel G c) (rule_throw G c rule)"
      using m f pop by simp
  qed
qed

lemma nonterminal_frames:
  assumes "defined_rule G rule" and wf: "wf_state G c"
  shows "post (nonterminal_parse fuel run G rule c) (ret_rel G c) (rule_throw G c rule)"
proof -
  obtain nt where nt: "lookup_rule G rule = Some nt" "is_defined nt"
    using assms(1) by (auto simp: defined_rule_def split: option.splits)
  show ?thesis
  proof (cases "memo_lookup rule (m_position c) c")
    case None
    then show ?thesis
      using parse_fresh_contract [OF wf nt] rule_state_fst [of rule "m_position c" c] nt(1)
      by (cases "rule_state rule (m_position c) c") (simp add: nonterminal_parse_def mark_def)
  next
    case (Some st)
    then show ?thesis
      using reenter_contract [OF wf Some] rule_state_fst [of rule "m_position c" c] nt(1)
        memo_hit_same [OF Some]
      by (cases "rule_state rule (m_position c) c") (simp add: nonterminal_parse_def mark_def)
  qed
qed

lemma nonterminal_contract:
  "defined_rule G rule \<Longrightarrow> wf_state G c \<Longrightarrow> post (nonterminal_parse fuel run G rule c) (ret_rel G c) (throw_rel G c)"
  by (rule post_mono [OF nonterminal_frames]) (simp_all add: rule_throw_def)

end

text \<open>The skipper is a rule parsed with skipping switched off; its result is ignored.\<close>

lemma run_skipper_contract:
  assumes rule: "\<And>r c. defined_rule G r \<Longrightarrow> wf_state G c \<Longrightarrow>
      post (parse_rule r c) (ret_rel G c) (throw_rel G c)"
    and wf: "wf_state G c"
  shows "post (run_skipper parse_rule c) (\<lambda>_. step_rel G c) (throw_rel G c)"
proof (cases "m_skip_enabled c \<and> m_skipper c \<noteq> None")
  case False
  then show ?thesis
    using step_rel_refl [OF wf] by (auto simp: run_skipper_def split: option.split)
next
  case True
  then obtain s where s: "m_skipper c = Some s" "m_skip_enabled c" by auto
  let ?c1 = "c\<lparr>m_skip_enabled := False\<rparr>"
  have flag: "wf_state G (x\<lparr>m_skip_enabled := b\<rparr>)" if "wf_state G x" for x b
    using that by (rule wf_state_cong) (use that in \<open>auto simp: input_size_def dest: wf_state_pos\<close>)
  have "defined_rule G s" using wf s by (simp add: wf_state_def)
  then have "post (parse_rule s ?c1) (ret_rel G ?c1) (throw_rel G ?c1)"
    using rule flag [OF wf] by blast
  then show ?thesis
    using s flag
    by (cases "parse_rule s ?c1")
       (auto simp: run_skipper_def ret_rel_def throw_rel_def step_rel_def same_env_def lr_keys_def)
qed

subsection \<open>The engine keeps the contract\<close>

lemma wf_expr_rule: "wf_expr G (RuleExpr r) = defined_rule G r"
  by simp

theorem engine_child_parsers:
  "child_parsers G (parse n G) (run_skipper (\<lambda>r. parse n G (RuleExpr r)))"
proof (induction n)
  case 0
  show ?case
    by standard (simp_all, rule run_skipper_contract, simp_all)
next
  case (Suc n)
  have run: "post (parse (Suc n) G e c) (ret_rel G c) (throw_rel G c)"
    if "wf_expr G e" "wf_state G c" for e c
    using that
    by (cases e)
       (simp_all add: Let_def terminal_contract token_contract matcher_contract
         terminal_seq_parse_def mark_def step_rel_refl
         terminal_seq_loop_contract [OF step_rel_refl _ refl]
         empty_parse_def cut_parse_def ret_ok step_set_cut
         child_parsers.sequence_contract [OF Suc] child_parsers.alternation_contract [OF Suc]
         child_parsers.repeat_contract [OF Suc] child_parsers.predicate_contract [OF Suc]
         child_parsers.lexeme_contract [OF Suc] child_parsers.nonterminal_contract [OF Suc])
  show ?case
    by standard (use run run_skipper_contract [of G "\<lambda>r. parse (Suc n) G (RuleExpr r)"] in \<open>auto simp del: parse.simps\<close>)
qed

interpretation eng: child_parsers G "parse n G" "run_skipper (\<lambda>r. parse n G (RuleExpr r))"
  for n G
  by (rule engine_child_parsers)

end
