(* ===== verification/Quiet.thy ===== *)
theory Quiet
  imports Rule_Contract
begin

text \<open>
  The operations of a parse that leave alone the memo, the invocation stack, the skipper and
  the input: they keep every invariant over those, over the position's bound and over the
  cut flags. Stated once as a locale; the invariants of the termination proof and of the
  soundness proof are instances.
\<close>

definition no_cuts :: "'c ctx \<Rightarrow> bool" where
  "no_cuts c = list_all (\<lambda>r. \<not> cr_cut r) (m_cut c)"

lemma no_cuts_get_cut: "no_cuts c \<Longrightarrow> \<not> get_cut c"
  by (cases "m_cut c") (simp_all add: no_cuts_def get_cut_def)

locale quiet_invariant =
  fixes I :: "'c ctx \<Rightarrow> bool"
  assumes in_bounds: "I c \<Longrightarrow> m_position c \<le> input_size c"
    and quiet_step: "I c \<Longrightarrow> m_position c' \<le> input_size c' \<Longrightarrow> m_input c' = m_input c \<Longrightarrow>
      m_skipper c' = m_skipper c \<Longrightarrow> length (m_node_arena c) \<le> length (m_node_arena c') \<Longrightarrow>
      (no_cuts c \<Longrightarrow> no_cuts c') \<Longrightarrow> m_lr_stack c' = m_lr_stack c \<Longrightarrow> m_mem c' = m_mem c \<Longrightarrow> I c'"
begin

subsection \<open>Primitives\<close>

lemma keeps_upd_node: "I c \<Longrightarrow> I (upd_node i f c)"
  by (rule quiet_step) (auto simp: upd_node_def input_size_def no_cuts_def dest: in_bounds)

lemma keeps_make_node: "I c \<Longrightarrow> I (snd (make_node c))"
  by (rule quiet_step) (auto simp: make_node_def input_size_def no_cuts_def dest: in_bounds)

lemma keeps_push_child: "I c \<Longrightarrow> I (push_child i t c)"
  by (auto simp: push_child_def keeps_upd_node split: option.split)

lemma keeps_position: "I c \<Longrightarrow> p \<le> input_size c \<Longrightarrow> I (c\<lparr>m_position := p\<rparr>)"
  by (rule quiet_step) (auto simp: input_size_def no_cuts_def dest: in_bounds)

lemma keeps_set_state: "I c \<Longrightarrow> p \<le> input_size c \<Longrightarrow> I (set_state p c)"
  by (simp add: set_state_def keeps_position)

lemma keeps_next_pos: "I c \<Longrightarrow> I (next_pos c)"
  by (simp add: next_pos_def keeps_position)

lemma keeps_set_cut: "I c \<Longrightarrow> I (set_cut False c)"
proof (rule quiet_step [of c])
  show "no_cuts (set_cut False c)" if "no_cuts c"
    using that by (cases "m_cut c") (simp_all add: set_cut_def no_cuts_def)
qed (auto simp: set_cut_def input_size_def dest: in_bounds split: list.split)

lemma keeps_skip_flag: "I c \<Longrightarrow> I (c\<lparr>m_skip_enabled := b\<rparr>)"
  by (rule quiet_step) (auto simp: input_size_def no_cuts_def dest: in_bounds)

lemma keeps_record_failure: "I c \<Longrightarrow> I (record_failure p item c)"
proof (rule quiet_step [of c])
  show "no_cuts (record_failure p item c)" if "no_cuts c"
    using that by (simp add: no_cuts_def)
qed (auto simp: record_failure_def input_size_def dest: in_bounds)

lemma keeps_record_diagnostic: "I c \<Longrightarrow> I (record_diagnostic d c)"
  by (rule quiet_step) (auto simp: record_diagnostic_def input_size_def no_cuts_def dest: in_bounds)

lemma keeps_init_cut: "I c \<Longrightarrow> I (init_cut c)"
  by (rule quiet_step) (auto simp: init_cut_def input_size_def no_cuts_def dest: in_bounds)

lemma keeps_remove_cut:
  assumes "I c" and "m_cut c \<noteq> []" and "\<not> get_cut c"
  shows "rets (remove_cut c) (\<lambda>_. I)"
proof -
  obtain r rest where cut: "m_cut c = r # rest" using assms(2) by (cases "m_cut c") auto
  have "I (c\<lparr>m_cut := rest\<rparr>)"
    using assms(1)
    by (rule quiet_step)
       (use in_bounds [OF assms(1)] cut in \<open>auto simp: input_size_def no_cuts_def\<close>)
  then show ?thesis
    using assms(3) by (simp add: remove_cut_def cut Let_def)
qed

lemma keeps_start_node: "I c \<Longrightarrow> start_node c = (n, c1) \<Longrightarrow> I c1"
  using keeps_upd_node [OF keeps_make_node, of c] by (auto simp: start_node_def make_node_def)

subsection \<open>Leaves\<close>

lemma keeps_terminal: "wf_terminal ops v \<Longrightarrow> I c \<Longrightarrow> rets (terminal_parse ops v c) (\<lambda>_. I)"
  using try_symbol_defined [of ops v c]
  by (auto simp: terminal_parse_def record_terminal_expected_def record_failure_lazy_eq
      keeps_next_pos keeps_record_failure split: bool.split)

lemma keeps_token: "wf_terminal ops v \<Longrightarrow> I c \<Longrightarrow> rets (token_parse ops v c) (\<lambda>_. I)"
  using try_symbol_defined [of ops v c] keeps_upd_node [OF keeps_make_node [OF keeps_next_pos]]
  by (auto simp: token_parse_def record_terminal_expected_def record_failure_lazy_eq
      keeps_record_failure make_node_def split: bool.split)

lemma keeps_terminal_seq:
  "I c \<Longrightarrow> init \<le> input_size c \<Longrightarrow> rets (terminal_seq_loop ops all_vs init vs c) (\<lambda>_. I)"
proof (induction vs arbitrary: c)
  case Nil
  then show ?case by simp
next
  case (Cons v vs)
  obtain b where "try_symbol ops (TValue v) c = Some b"
    using try_symbol_defined [of ops "TValue v"] by auto
  moreover have "init \<le> input_size (next_pos c)"
    using Cons.prems(2) by (simp add: next_pos_def input_size_def)
  ultimately show ?case
    using Cons.IH [OF keeps_next_pos [OF Cons.prems(1)]] Cons.prems
    by (cases b) (simp_all add: record_failure_lazy_eq Let_def keeps_record_failure keeps_set_state)
qed

lemma keeps_matcher:
  assumes "matcher_ok fn" and "I c"
  shows "rets (matcher_parse fn c) (\<lambda>_. I)"
proof (cases "fn (m_input c) (Span (mark c) (mark c))")
  case None
  with assms show ?thesis by (simp add: matcher_parse_def)
next
  case (Some sp)
  then have "sp_end sp \<le> input_size c"
    using assms(1) in_bounds [OF assms(2)] by (auto simp: matcher_ok_def mark_def input_size_def)
  then show ?thesis
    using Some keeps_upd_node [OF keeps_make_node [OF keeps_position [OF assms(2)]], of "sp_end sp"]
    by (simp add: matcher_parse_def Let_def reset_def make_node_def)
qed

lemma keeps_clear_growing_head: "I c \<Longrightarrow> I (clear_growing_head p c)"
  by (rule quiet_step)
     (auto simp: clear_growing_head_def input_size_def no_cuts_def dest: in_bounds)

lemma keeps_build_node:
  "I c \<Longrightarrow> build_rule_node nt rule p t c = (node, c1) \<Longrightarrow> I c1"
  using keeps_upd_node [OF keeps_make_node, of c] keeps_push_child
  by (auto simp: build_rule_node_def Let_def make_node_def keeps_upd_node split: if_splits option.splits)

end

end
