(* ===== verification/Recogniser.thy ===== *)
theory Recogniser
  imports Quiet
begin

text \<open>
  A reference semantics of parsing expressions: a recogniser with no memo, no
  left-recursion machinery, no cut scopes, no tree and no diagnostics. It follows the usual
  definition of parsing expression grammars (ordered choice, greedy repetition, predicates
  that consume nothing), with the two additions of the library: a repetition stops after an
  iteration that consumed nothing, and a rule with a recovery specification that fails
  resumes after the next synchronising element. It has no meaning for cuts. \<open>None\<close>: the
  fuel did not suffice (always, for a left-recursive rule); \<open>Some None\<close>: the expression
  fails; \<open>Some (Some q)\<close>: it matches up to \<open>q\<close>.
\<close>

type_synonym ev_result = "nat option option"

fun ev_seq :: "('c expr \<Rightarrow> nat \<Rightarrow> ev_result) \<Rightarrow> 'c expr list \<Rightarrow> nat \<Rightarrow> ev_result" where
  "ev_seq run [] p = Some (Some p)"
| "ev_seq run (e # es) p =
     (case run e p of
        None \<Rightarrow> None
      | Some None \<Rightarrow> Some None
      | Some (Some q) \<Rightarrow> ev_seq run es q)"

fun ev_alt :: "('c expr \<Rightarrow> nat \<Rightarrow> ev_result) \<Rightarrow> 'c expr list \<Rightarrow> nat \<Rightarrow> ev_result" where
  "ev_alt run [] p = Some None"
| "ev_alt run (e # es) p =
     (case run e p of
        None \<Rightarrow> None
      | Some None \<Rightarrow> ev_alt run es p
      | Some (Some q) \<Rightarrow> Some (Some q))"

text \<open>The number of matches and the end of a repetition, from count \<open>k\<close> at \<open>p\<close>.\<close>

fun ev_loop :: "nat \<Rightarrow> (nat \<Rightarrow> ev_result) \<Rightarrow> int \<Rightarrow> nat \<Rightarrow> nat \<Rightarrow> (nat \<times> nat) option" where
  "ev_loop 0 run max_rep k p = None"
| "ev_loop (Suc n) run max_rep k p =
     (case run p of
        None \<Rightarrow> None
      | Some None \<Rightarrow> Some (k, p)
      | Some (Some q) \<Rightarrow>
          if max_rep > 0 \<and> int (k + 1) \<ge> max_rep then Some (k + 1, q)
          else if q = p then Some (k + 1, q)
          else ev_loop n run max_rep (k + 1) q)"

definition ev_rep :: "nat \<Rightarrow> (nat \<Rightarrow> ev_result) \<Rightarrow> nat \<Rightarrow> int \<Rightarrow> nat \<Rightarrow> ev_result" where
  "ev_rep n run min_rep max_rep p =
     (case ev_loop n run max_rep 0 p of
        None \<Rightarrow> None
      | Some (k, q) \<Rightarrow> Some (if k < min_rep then None else Some q))"

definition ev_symbol :: "'c elem_ops \<Rightarrow> 'c list \<Rightarrow> 'c terminal_value \<Rightarrow> nat \<Rightarrow> nat option" where
  "ev_symbol ops input v p =
     (if p < length input \<and> symbol_consumable ops (input ! p) v = Some True then Some (p + 1) else None)"

text \<open>What a rule makes of the result of its body.\<close>

definition ev_recover :: "('c, 'v) non_terminal \<Rightarrow> 'c list \<Rightarrow> nat \<Rightarrow> nat option \<Rightarrow> nat option" where
  "ev_recover nt input p res =
     (case (res, is_sync_token (m_recover nt)) of
        (None, Some sync) \<Rightarrow>
          let scan = scan_sync sync input p in Some (if scan < length input then scan + 1 else length input)
      | _ \<Rightarrow> res)"

primrec ev :: "nat \<Rightarrow> ('c, 'v) grammar \<Rightarrow> 'c list \<Rightarrow> 'c expr \<Rightarrow> nat \<Rightarrow> ev_result" where
  "ev 0 G input e p = None"
| "ev (Suc n) G input e p =
     (case e of
        TerminalExpr v \<Rightarrow> Some (ev_symbol (g_ops G) input v p)
      | TokenExpr v \<Rightarrow> Some (ev_symbol (g_ops G) input v p)
      | TerminalSeqExpr vs \<Rightarrow>
          Some (if take (length vs) (drop p input) = vs then Some (p + length vs) else None)
      | MatcherExpr fn \<Rightarrow> Some (map_option sp_end (fn input (Span p p)))
      | EmptyExpr \<Rightarrow> Some (Some p)
      | SequenceExpr es \<Rightarrow> ev_seq (ev n G input) es p
      | AlternationExpr es \<Rightarrow> ev_alt (ev n G input) es p
      | ZeroOrMoreExpr a \<Rightarrow> ev_rep n (ev n G input a) 0 (-1) p
      | OneOrMoreExpr a \<Rightarrow> ev_rep n (ev n G input a) 1 (-1) p
      | NTimesExpr a k \<Rightarrow> ev_rep n (ev n G input a) k (to_int64 k) p
      | OptionalExpr a \<Rightarrow> ev_rep n (ev n G input a) 0 1 p
      | NotExpr a \<Rightarrow>
          (case ev n G input a p of None \<Rightarrow> None | Some r \<Rightarrow> Some (if r = None then Some p else None))
      | AndExpr a \<Rightarrow>
          (case ev n G input a p of None \<Rightarrow> None | Some r \<Rightarrow> Some (if r = None then None else Some p))
      | CutExpr \<Rightarrow> None
      | LexemeExpr a \<Rightarrow> ev n G input a p
      | RuleExpr r \<Rightarrow>
          (case lookup_rule G r of
             None \<Rightarrow> None
           | Some nt \<Rightarrow>
               (case m_rule nt of
                  None \<Rightarrow> None
                | Some body \<Rightarrow> map_option (ev_recover nt input p) (ev n G input body p))))"

subsection \<open>More fuel, same result\<close>

definition le_opt :: "'a option \<Rightarrow> 'a option \<Rightarrow> bool" where
  "le_opt a b \<longleftrightarrow> a = None \<or> a = b"

lemma le_opt_refl [simp]: "le_opt a a"
  by (simp add: le_opt_def)

lemma le_opt_None [simp]: "le_opt None a"
  by (simp add: le_opt_def)

lemma le_opt_Some: "le_opt a b \<Longrightarrow> a = Some x \<Longrightarrow> b = Some x"
  by (simp add: le_opt_def)

lemma le_opt_case:
  "le_opt a b \<Longrightarrow> (\<And>x. le_opt (f x) (g x)) \<Longrightarrow>
   le_opt (case a of None \<Rightarrow> None | Some x \<Rightarrow> f x) (case b of None \<Rightarrow> None | Some x \<Rightarrow> g x)"
  by (auto simp: le_opt_def split: option.split)

lemma le_opt_map: "le_opt a b \<Longrightarrow> le_opt (map_option f a) (map_option f b)"
  by (auto simp: le_opt_def)

lemma le_opt_cases: "le_opt a b \<Longrightarrow> a = None \<or> b = a"
  by (auto simp: le_opt_def)

lemma ev_seq_le:
  assumes "\<And>e p. le_opt (run e p) (run' e p)"
  shows "le_opt (ev_seq run es p) (ev_seq run' es p)"
proof (induction es arbitrary: p)
  case (Cons e es)
  then show ?case
    using le_opt_cases [OF assms, of e p] by (auto split: option.split)
qed simp

lemma ev_alt_le:
  assumes "\<And>e p. le_opt (run e p) (run' e p)"
  shows "le_opt (ev_alt run es p) (ev_alt run' es p)"
proof (induction es arbitrary: p)
  case (Cons e es)
  then show ?case
    using le_opt_cases [OF assms, of e p] by (auto split: option.split)
qed simp

lemma ev_loop_le:
  assumes "\<And>p. le_opt (run p) (run' p)"
  shows "n \<le> m \<Longrightarrow> le_opt (ev_loop n run max_rep k p) (ev_loop m run' max_rep k p)"
proof (induction n arbitrary: m k p)
  case 0
  then show ?case by simp
next
  case (Suc n)
  then obtain m' where m: "m = Suc m'" "n \<le> m'" by (cases m) auto
  show ?case
    using Suc.IH [OF m(2)] le_opt_cases [OF assms, of p] by (auto simp: m(1) split: option.split)
qed

lemma ev_rep_le:
  "(\<And>p. le_opt (run p) (run' p)) \<Longrightarrow> n \<le> m \<Longrightarrow> le_opt (ev_rep n run min_rep max_rep p) (ev_rep m run' min_rep max_rep p)"
  by (auto simp: ev_rep_def intro!: le_opt_case ev_loop_le)

lemma ev_le: "n \<le> m \<Longrightarrow> le_opt (ev n G input e p) (ev m G input e p)"
proof (induction n arbitrary: m e p)
  case 0
  then show ?case by simp
next
  case (Suc n)
  then obtain m' where m: "m = Suc m'" "n \<le> m'" by (cases m) auto
  note le = Suc.IH [OF m(2)]
  have cs: "ev n G input a p = None \<or> ev m' G input a p = ev n G input a p" for a
    by (rule le_opt_cases [OF le])
  have unary: "le_opt (case ev n G input a p of None \<Rightarrow> None | Some r \<Rightarrow> Some (f r))
      (case ev m' G input a p of None \<Rightarrow> None | Some r \<Rightarrow> Some (f r))"
    "le_opt (map_option g (ev n G input a p)) (map_option g (ev m' G input a p))" for a and f g :: "nat option \<Rightarrow> nat option"
    using cs [of a] by auto
  show ?case
    unfolding m(1) ev.simps
    by (cases e)
       (simp_all only: expr.case le_opt_refl ev_seq_le ev_alt_le ev_rep_le le m(2) unary, auto simp: unary split: option.split)
qed

text \<open>The meaning of an expression at a position: what the recogniser gives with enough fuel.\<close>

definition evals :: "('c, 'v) grammar \<Rightarrow> 'c list \<Rightarrow> 'c expr \<Rightarrow> nat \<Rightarrow> nat option \<Rightarrow> bool" where
  "evals G input e p r \<longleftrightarrow> (\<exists>n. ev n G input e p = Some r)"

lemma ev_more: "ev n G input e p = Some r \<Longrightarrow> n \<le> m \<Longrightarrow> ev m G input e p = Some r"
  by (rule le_opt_Some [OF ev_le])

lemma evals_unique: "evals G input e p r \<Longrightarrow> evals G input e p s \<Longrightarrow> r = s"
  unfolding evals_def by (metis ev_more nle_le option.inject)

end
