(* ===== verification/Operators.thy ===== *)
theory Operators
  imports Recogniser
begin

text \<open>
  What the expressions mean that the operators of \<open>include/peglib/Rule.h\<close> build. The operators
  flatten: the children of an operand that is itself a sequence (or a choice) become children
  of the new one, and a repetition of a repetition is the inner one. That changes the
  expression, but not what it matches.
\<close>

subsection \<open>Sequences and choices of many\<close>












subsection \<open>Repetitions of repetitions\<close>







subsection \<open>What the operators mean\<close>


end
