(* ===== verification/Factories.thy ===== *)
theory Factories
  imports Engine Contract
begin

text \<open>
  The factories of \<open>include/peglib/Grammar.h\<close>, which with the operators of \<open>Expr\<close> and the
  handles of the rules are all a client builds expressions from, and what the destructor of
  a grammar does to its rules in a debug build.
\<close>

subsection \<open>Factories\<close>

text \<open>
  The four overloads, one for each shape of a terminal value; \<open>ExprT\<close> is the template
  argument, \<open>TerminalExpr\<close> or \<open>TokenExpr\<close>.
\<close>

definition make_matcher :: "('c terminal_value \<Rightarrow> 'c expr) \<Rightarrow> 'c terminal_value \<Rightarrow> 'c expr" where
  "make_matcher ExprT v =
     (case v of
        TPred f \<Rightarrow> ExprT (TPred f)
      | TValue a \<Rightarrow> ExprT (TValue a)
      | TSet values \<Rightarrow> ExprT (TSet values)
      | TRange lo hi \<Rightarrow> ExprT (TRange lo hi))"

definition g_terminal :: "'c terminal_value \<Rightarrow> 'c expr" where
  "g_terminal v = make_matcher TerminalExpr v"

definition g_terminal_range :: "'c \<Rightarrow> 'c \<Rightarrow> 'c expr" where
  "g_terminal_range value_min value_max = g_terminal (TRange value_min value_max)"

definition g_token :: "'c terminal_value \<Rightarrow> 'c expr" where
  "g_token v = make_matcher TokenExpr v"

definition g_token_range :: "'c \<Rightarrow> 'c \<Rightarrow> 'c expr" where
  "g_token_range value_min value_max = g_token (TRange value_min value_max)"

definition g_terminal_seq :: "'c list \<Rightarrow> 'c expr" where
  "g_terminal_seq value_seq = TerminalSeqExpr value_seq"

text \<open>\<open>str\<close> is what the pointer points to; the string ends before the first \<open>nul\<close> element.\<close>

definition g_terminal_literal :: "'c \<Rightarrow> 'c list \<Rightarrow> 'c expr" where
  "g_terminal_literal nul str = TerminalSeqExpr (takeWhile (\<lambda>c. c \<noteq> nul) str)"

definition g_empty :: "'c expr" where
  "g_empty = EmptyExpr"

definition g_cut :: "'c expr" where
  "g_cut = CutExpr"

definition g_lexeme :: "'c expr \<Rightarrow> 'c expr" where
  "g_lexeme e = LexemeExpr e"

definition g_matcher :: "('c list \<Rightarrow> span \<Rightarrow> span option) \<Rightarrow> 'c expr" where
  "g_matcher fn = MatcherExpr fn"

subsection \<open>The expressions a client can write\<close>

inductive client_expr :: "('c, 'v) grammar \<Rightarrow> 'c expr \<Rightarrow> bool" for G :: "('c, 'v) grammar" where
  "client_expr G (g_terminal (TValue a))"
| "client_expr G (g_terminal (TSet values))"
| "client_expr G (g_terminal (TPred f))"
| "elem_le (g_ops G) lo hi \<Longrightarrow> client_expr G (g_terminal_range lo hi)"
| "client_expr G (g_token (TValue a))"
| "client_expr G (g_token (TSet values))"
| "client_expr G (g_token (TPred f))"
| "elem_le (g_ops G) lo hi \<Longrightarrow> client_expr G (g_token_range lo hi)"
| "client_expr G (g_terminal_seq vs)"
| "client_expr G (g_terminal_literal nul str)"
| "client_expr G g_empty"
| "client_expr G g_cut"
| "client_expr G e \<Longrightarrow> client_expr G (g_lexeme e)"
| "matcher_ok fn \<Longrightarrow> client_expr G (g_matcher fn)"
| "defined_rule G r \<Longrightarrow> client_expr G (RuleExpr r)"
| "client_expr G a \<Longrightarrow> client_expr G b \<Longrightarrow> client_expr G (op_seq a b)"
| "client_expr G a \<Longrightarrow> client_expr G b \<Longrightarrow> client_expr G (op_alt a b)"
| "client_expr G a \<Longrightarrow> client_expr G (op_star a)"
| "client_expr G a \<Longrightarrow> client_expr G (op_times n a)"
| "client_expr G a \<Longrightarrow> client_expr G (op_plus a)"
| "client_expr G a \<Longrightarrow> client_expr G (op_opt a)"
| "client_expr G a \<Longrightarrow> client_expr G (op_not a)"
| "client_expr G a \<Longrightarrow> client_expr G (op_and a)"

lemma wf_seq_children: "list_all (wf_expr G) (seq_children e) = wf_expr G e"
  by (cases e) simp_all

lemma wf_alt_children: "list_all (wf_expr G) (alt_children e) = wf_expr G e"
  by (cases e) simp_all

lemma wf_operators [simp]:
  "wf_expr G (op_seq a b) \<longleftrightarrow> wf_expr G a \<and> wf_expr G b" "wf_expr G (op_alt a b) \<longleftrightarrow> wf_expr G a \<and> wf_expr G b"
  "wf_expr G (op_star a) \<longleftrightarrow> wf_expr G a" "wf_expr G (op_times n a) \<longleftrightarrow> wf_expr G a"
  "wf_expr G (op_plus a) \<longleftrightarrow> wf_expr G a" "wf_expr G (op_opt a) \<longleftrightarrow> wf_expr G a"
  "wf_expr G (op_not a) \<longleftrightarrow> wf_expr G a" "wf_expr G (op_and a) \<longleftrightarrow> wf_expr G a"
proof -
  show "wf_expr G (op_seq a b) \<longleftrightarrow> wf_expr G a \<and> wf_expr G b" "wf_expr G (op_alt a b) \<longleftrightarrow> wf_expr G a \<and> wf_expr G b"
    by (simp_all add: op_seq_children op_alt_children wf_seq_children wf_alt_children)
qed (cases a; simp add: op_times_def)+

text \<open>
  The expressions a client can write, with ranges the right way round and matchers that stay
  in the input, are the well-formed ones the properties of the engine ask for.
\<close>

theorem client_expr_wf: "client_expr G e \<Longrightarrow> wf_expr G e"
  by (induction rule: client_expr.induct)
     (simp_all add: g_terminal_def g_terminal_range_def g_token_def g_token_range_def make_matcher_def
       g_terminal_seq_def g_terminal_literal_def g_empty_def g_cut_def g_lexeme_def g_matcher_def)

subsection \<open>The destructor\<close>

definition clear_body_for_debug :: "('c, 'v) non_terminal \<Rightarrow> ('c, 'v) non_terminal" where
  "clear_body_for_debug nt = nt\<lparr>m_rule := None\<rparr>"

definition destroy_grammar :: "('c, 'v) grammar \<Rightarrow> ('c, 'v) grammar" where
  "destroy_grammar G = G\<lparr>m_rules := map (\<lambda>(r, nt). (r, clear_body_for_debug nt)) (m_rules G)\<rparr>"

lemma lookup_destroyed: "lookup_rule (destroy_grammar G) r = map_option clear_body_for_debug (lookup_rule G r)"
  by (simp add: lookup_rule_def destroy_grammar_def map_of_map)

text \<open>A handle that is used after its grammar is gone trips the assertion of \<open>parseImpl\<close>.\<close>

theorem dangling_handle_asserts:
  "fst (fst (rule_state r (m_position c) c)) \<Longrightarrow> parse (Suc n) (destroy_grammar G) (RuleExpr r) c = Fault"
  by (cases "lookup_rule G r")
     (auto simp: nonterminal_parse_def lookup_destroyed mark_def parse_fresh_def clear_body_for_debug_def Let_def
        split: prod.splits)

end
