(* ===== verification/Safety.thy ===== *)
theory Safety
  imports Rule_Contract
begin

text \<open>
  What the contract of the engine says of every parse, over the functions of \<open>Engine\<close>:
  no assertion of the library fires, positions stay in bounds and are restored on failure,
  and the scopes of the context are balanced, by a return and by an exception.
\<close>

subsection \<open>A left-recursive grammar with a cut, a skipper and recovery\<close>

text \<open>
  \<open>S = N (1 ^ N)*\<close> with \<open>N = 0\<close>, \<open>L = L 1 | 0\<close>, blanks \<open>9\<close> skipped, and \<open>N\<close> resuming
  after a \<open>1\<close>.
\<close>

definition nat_ops :: "nat elem_ops" where
  "nat_ops = token_ops None (\<le>)"

definition demo_grammar :: "(nat, nat) grammar" where
  "demo_grammar =
     \<lparr>m_rules =
        [(''L'', new_non_terminal\<lparr>m_rule := Some (AlternationExpr
            [SequenceExpr [RuleExpr ''L'', TerminalExpr (TValue 1)], TerminalExpr (TValue 0)]),
            m_name := ''L''\<rparr>),
         (''N'', new_non_terminal\<lparr>m_rule := Some (TokenExpr (TRange 0 0)), m_name := ''N'',
            m_recover := recover_set [1] []\<rparr>),
         (''S'', new_non_terminal\<lparr>m_rule := Some (SequenceExpr [RuleExpr ''N'',
            ZeroOrMoreExpr (SequenceExpr [TerminalExpr (TValue 1), CutExpr, RuleExpr ''N''])]),
            m_name := ''S''\<rparr>),
         (''W'', new_non_terminal\<lparr>m_rule := Some (ZeroOrMoreExpr (TerminalExpr (TValue 9))),
            m_name := ''W''\<rparr>)],
      m_start = ''S'', g_skipper = Some ''W'', g_ops = nat_ops\<rparr>"

definition demo_ctx :: "nat list \<Rightarrow> nat ctx" where
  "demo_ctx input = internal_set_skipper (g_skipper demo_grammar) (make_ctx input)"

lemma wf_make_ctx:
  assumes "wf_grammar G" and "case s of None \<Rightarrow> True | Some r \<Rightarrow> defined_rule G r"
  shows "wf_state G (internal_set_skipper s (make_ctx input))"
  using assms
  by (simp add: wf_state_def wf_ctx_def make_ctx_def internal_set_skipper_def memo_lookup_def)

lemma demo_wf: "wf_state demo_grammar (demo_ctx input)"
  unfolding demo_ctx_def
  by (rule wf_make_ctx)
     (simp_all add: wf_grammar_def demo_grammar_def new_non_terminal_def defined_rule_def
        lookup_rule_def is_defined_def nat_ops_def token_ops_def)

lemma demo_rules: "wf_expr demo_grammar (RuleExpr ''L'')" "wf_expr demo_grammar (RuleExpr ''S'')"
  by (simp_all add: demo_grammar_def new_non_terminal_def defined_rule_def lookup_rule_def
      is_defined_def)

subsection \<open>The contract, spelled out\<close>

lemma parse_post:
  "wf_expr G e \<Longrightarrow> wf_state G c \<Longrightarrow> post (parse n G e c) (ret_rel G c) (throw_rel G c)"
  by (rule eng.run_contract)

text \<open>
  C12: no assertion of the library ever fires: whatever the grammar (left recursion, cuts, a
  skipper, recovery), as long as its rules are defined and its ranges and matchers are
  sound, \<open>parse\<close> never pops a frame or a cut record that is not there, never resets the
  position out of the input, and never follows a null pointer.
\<close>

theorem parse_never_faults:
  assumes "wf_expr G e" and "wf_state G c"
  shows "parse n G e c \<noteq> Fault"
  using parse_post [OF assms] by (rule post_not_Fault)

theorem parse_never_faults_witness:
  "parse 40 demo_grammar (RuleExpr ''S'') (demo_ctx [0, 9, 1, 5, 1]) \<noteq> Fault"
  by (rule parse_never_faults [OF demo_rules(2) demo_wf])

text \<open>
  C17: a parse that returns leaves the position inside the input and not before where it
  started; if it failed, exactly where it started: every expression undoes what it
  consumed.
\<close>

theorem parse_position:
  assumes "wf_expr G e" and "wf_state G c" and "parse n G e c = Ret r c'"
  shows "m_position c \<le> m_position c' \<and> m_position c' \<le> length (m_input c) \<and>
         (\<not> success r \<longrightarrow> m_position c' = m_position c)"
proof -
  have r: "ret_rel G c r c'"
    using parse_post [OF assms(1,2), of n] assms(3) by simp
  have "m_position c' \<le> input_size c'"
    using wf_state_pos [OF step_rel_wf [OF ret_rel_step [OF r]]] .
  then show ?thesis
    using r step_rel_input [OF ret_rel_step [OF r]] by (simp add: ret_rel_def step_rel_def input_size_def)
qed

definition tiny_grammar :: "(nat, nat) grammar" where
  "tiny_grammar =
     \<lparr>m_rules = [(''A'', new_non_terminal\<lparr>m_rule := Some (SequenceExpr
        [TerminalExpr (TValue 0), TerminalExpr (TValue 1)]), m_name := ''A''\<rparr>)],
      m_start = ''A'', g_skipper = None, g_ops = nat_ops\<rparr>"

lemma tiny_wf: "wf_state tiny_grammar (make_ctx input)"
  by (simp add: wf_state_def wf_ctx_def make_ctx_def memo_lookup_def wf_grammar_def
      tiny_grammar_def new_non_terminal_def)

lemma tiny_rule: "wf_expr tiny_grammar (RuleExpr ''A'')"
  by (simp add: tiny_grammar_def defined_rule_def lookup_rule_def is_defined_def new_non_terminal_def)

definition outcome_summary :: "('c, parse_result) parse_outcome \<Rightarrow> (bool \<times> nat) option" where
  "outcome_summary m = (case m of Ret r c \<Rightarrow> Some (success r, m_position c) | _ \<Rightarrow> None)"

lemma outcome_summary_RetE:
  assumes "outcome_summary m = Some (b, p)"
  obtains r c where "m = Ret r c" "success r = b" "m_position c = p"
  using assms by (cases m) (auto simp: outcome_summary_def)

lemma tiny_run: "outcome_summary (parse 9 tiny_grammar (RuleExpr ''A'') (make_ctx [0, 1, 0])) = Some (True, 2)"
  by code_simp

lemma tiny_fail: "outcome_summary (parse 9 tiny_grammar (RuleExpr ''A'') (make_ctx [0, 0])) = Some (False, 0)"
  by code_simp

theorem parse_position_witness:
  "\<exists>r c'. parse 9 tiny_grammar (RuleExpr ''A'') (make_ctx [0, 0]) = Ret r c' \<and> \<not> success r \<and>
     m_position c' = m_position (make_ctx [0, 0::nat])"
proof -
  obtain r c' where r: "parse 9 tiny_grammar (RuleExpr ''A'') (make_ctx [0, 0]) = Ret r c'" "\<not> success r"
    using outcome_summary_RetE [OF tiny_fail] by metis
  with parse_position [OF tiny_rule tiny_wf r(1)] show ?thesis by blast
qed

text \<open>
  C16: the scopes of the context are balanced: when a parse returns, the cut scopes below its
  own, the invocation stack of the rules (its rules, positions and seeds' ends), the skip flag, the skipper
  and the input are those it was called with, the node arena has only grown, and the tree
  it returns is a node of the arena.
\<close>

theorem parse_restores_scopes:
  assumes "wf_expr G e" and "wf_state G c" and "parse n G e c = Ret r c'"
  shows "length (m_cut c') = length (m_cut c) \<and> tl (m_cut c') = tl (m_cut c) \<and>
         map (\<lambda>f. (fr_rule f, fr_pos f, fr_last_pos f)) (m_lr_stack c') =
         map (\<lambda>f. (fr_rule f, fr_pos f, fr_last_pos f)) (m_lr_stack c) \<and>
         m_skip_enabled c' = m_skip_enabled c \<and> m_skipper c' = m_skipper c \<and>
         m_input c' = m_input c \<and> length (m_node_arena c) \<le> length (m_node_arena c') \<and>
         (case tree r of None \<Rightarrow> True | Some i \<Rightarrow> i < length (m_node_arena c'))"
proof -
  have r: "ret_rel G c r c'"
    using parse_post [OF assms(1,2), of n] assms(3) by simp
  have key: "frame_key = (\<lambda>f. (fr_rule f, fr_pos f, fr_last_pos f))"
    by (simp add: fun_eq_iff frame_key_def)
  show ?thesis
    using r by (simp add: ret_rel_def step_rel_def same_env_def lr_keys_def key tree_ok_def)
qed

theorem parse_restores_scopes_witness:
  "\<exists>r c'. parse 9 tiny_grammar (RuleExpr ''A'') (make_ctx [0, 1, 0]) = Ret r c' \<and>
     m_lr_stack c' = [] \<and> m_cut c' = []"
proof -
  obtain r c' where r: "parse 9 tiny_grammar (RuleExpr ''A'') (make_ctx [0, 1, 0]) = Ret r c'"
    using outcome_summary_RetE [OF tiny_run] by metis
  with parse_restores_scopes [OF tiny_rule tiny_wf r] show ?thesis
    by (simp add: make_ctx_def)
qed

text \<open>
  C18: what a cut leaves when it turns a failure into an exception: every cut scope the parse
  entered has been left and the memo holds only valid entries, but the invocation stack is
  not restored. The frames of the caller are at the bottom, with their positions and the ends
  of their seeds; above them may be others, and when the exception leaves the parse of a
  rule, the frame of that rule at its position is always among them: it is never popped.
\<close>

theorem parse_throw_state:
  assumes "wf_expr G e" and "wf_state G c" and "parse n G e c = Throw err c'"
  shows "length (m_cut c') = length (m_cut c) \<and> tl (m_cut c') = tl (m_cut c) \<and>
         (\<forall>r pos. \<forall>st. memo_lookup r pos c' = Some st \<longrightarrow> pos \<le> m_last_pos st \<and> m_last_pos st \<le> length (m_input c)) \<and>
         (\<exists>dead. map (\<lambda>f. (fr_rule f, fr_pos f, fr_last_pos f)) (m_lr_stack c') =
            dead @ map (\<lambda>f. (fr_rule f, fr_pos f, fr_last_pos f)) (m_lr_stack c)) \<and>
         (\<forall>rule. e = RuleExpr rule \<longrightarrow>
            (\<exists>dead last. map (\<lambda>f. (fr_rule f, fr_pos f, fr_last_pos f)) (m_lr_stack c') =
               dead @ (rule, m_position c, last) # map (\<lambda>f. (fr_rule f, fr_pos f, fr_last_pos f)) (m_lr_stack c)))"
proof -
  have t: "throw_rel G c err c'"
    using parse_post [OF assms(1,2), of n] assms(3) by simp
  have key: "lr_keys s = map (\<lambda>f. (fr_rule f, fr_pos f, fr_last_pos f)) (m_lr_stack s)" for s :: "'a ctx"
    by (simp add: lr_keys_def frame_key_def)
  have "\<exists>dead last. lr_keys c' = dead @ (rule, m_position c, last) # lr_keys c" if e: "e = RuleExpr rule" for rule
  proof -
    obtain m where m: "n = Suc m" using assms(3) by (cases n) simp_all
    have "post (nonterminal_parse m (parse m G) G rule c) (ret_rel G c) (rule_throw G c rule)"
      using assms(1,2) e by (intro eng.nonterminal_frames) simp_all
    then show ?thesis
      using assms(3) e m by (simp add: rule_throw_def)
  qed
  with t show ?thesis
    by (auto simp: throw_rel_def same_env_def wf_state_def wf_ctx_def entry_ok_def input_size_def key)
qed

text \<open>
  \<open>B = 0 ^ 1 | 2\<close>: after the cut, no other branch is tried.
\<close>

definition cut_grammar :: "(nat, nat) grammar" where
  "cut_grammar =
     \<lparr>m_rules = [(''B'', new_non_terminal\<lparr>m_rule := Some (AlternationExpr [SequenceExpr
        [TerminalExpr (TValue 0), CutExpr, TerminalExpr (TValue 1)], TerminalExpr (TValue 2)]),
        m_name := ''B''\<rparr>)],
      m_start = ''B'', g_skipper = None, g_ops = nat_ops\<rparr>"

lemma cut_wf: "wf_state cut_grammar (make_ctx input)"
  by (simp add: wf_state_def wf_ctx_def make_ctx_def memo_lookup_def wf_grammar_def
      cut_grammar_def new_non_terminal_def)

lemma cut_rule: "wf_expr cut_grammar (RuleExpr ''B'')"
  by (simp add: cut_grammar_def defined_rule_def lookup_rule_def is_defined_def new_non_terminal_def)

definition thrown :: "('c, parse_result) parse_outcome \<Rightarrow> (nat \<times> rule_ref list) option" where
  "thrown m = (case m of Throw err c \<Rightarrow> Some (err_pos err, map fr_rule (m_lr_stack c)) | _ \<Rightarrow> None)"

lemma thrown_ThrowE:
  assumes "thrown m = Some (p, fs)"
  obtains err c where "m = Throw err c" "err_pos err = p" "map fr_rule (m_lr_stack c) = fs"
  using assms by (cases m) (auto simp: thrown_def)

lemma cut_run: "thrown (parse 9 cut_grammar (RuleExpr ''B'') (make_ctx [0, 2])) = Some (1, [''B''])"
  by code_simp

theorem parse_throw_state_witness:
  "\<exists>err c'. parse 9 cut_grammar (RuleExpr ''B'') (make_ctx [0, 2]) = Throw err c' \<and>
     m_cut c' = [] \<and> (''B'', 0) \<in> set (map (\<lambda>f. (fr_rule f, fr_pos f)) (m_lr_stack c'))"
proof -
  obtain err c' where t: "parse 9 cut_grammar (RuleExpr ''B'') (make_ctx [0, 2]) = Throw err c'"
    using thrown_ThrowE [OF cut_run] by metis
  note left = parse_throw_state [OF cut_rule cut_wf t]
  obtain dead last where "map (\<lambda>f. (fr_rule f, fr_pos f, fr_last_pos f)) (m_lr_stack c') =
      dead @ [(''B'', 0, last)]"
    using left by (auto simp: make_ctx_def)
  then have "(''B'', 0, last) \<in> set (map (\<lambda>f. (fr_rule f, fr_pos f, fr_last_pos f)) (m_lr_stack c'))"
    by simp
  then have "(''B'', 0) \<in> set (map (\<lambda>f. (fr_rule f, fr_pos f)) (m_lr_stack c'))" by auto
  with t left show ?thesis by (auto simp: make_ctx_def)
qed

end
