(* ===== verification/Fuel.thy ===== *)
theory Fuel
  imports Engine
begin

text \<open>
  The fuel only bounds the run: once a parse ends (it returns, throws or fails an
  assertion), more fuel gives the same outcome. Proved in a locale over two versions of
  the children's parses, the second at least as far as the first, and interpreted on the
  engine at two successive amounts of fuel.
\<close>

locale fuel_steps =
  fixes run run' :: "'c expr \<Rightarrow> 'c parser"
    and skip skip' :: "'c ctx \<Rightarrow> ('c, unit) parse_outcome"
  assumes run_le: "le_o (run e c) (run' e c)"
    and skip_le: "le_o (skip c) (skip' c)"
begin

lemma parse_seq_le: "le_o (parse_seq run skip node i es c) (parse_seq run' skip' node i es c)"
  by (induction es arbitrary: i c) (auto intro!: le_o_bind run_le skip_le split: if_split)

lemma sequence_le: "le_o (sequence_parse run skip es c) (sequence_parse run' skip' es c)"
  by (auto simp: sequence_parse_def Let_def intro!: le_o_bind parse_seq_le split: prod.split)

lemma parse_alt_le: "le_o (parse_alt run i es c) (parse_alt run' i es c)"
  by (induction es arbitrary: i c) (auto intro!: le_o_bind run_le)

lemma alternation_le: "le_o (alternation_parse run es c) (alternation_parse run' es c)"
  by (simp add: alternation_parse_def le_o_guard parse_alt_le)

lemma rep_loop_le:
  "n \<le> m \<Longrightarrow> le_o (rep_loop n (run e) skip max_rep node k l c) (rep_loop m (run' e) skip' max_rep node k l c)"
proof (induction n arbitrary: m k l c)
  case 0
  then show ?case by simp
next
  case (Suc n)
  then obtain m' where m: "m = Suc m'" "n \<le> m'" by (cases m) auto
  have skip: "le_o (if k > 0 then skip c else Ret () c) (if k > 0 then skip' c else Ret () c)"
    by (simp add: skip_le)
  show ?case
    unfolding m(1) rep_loop.simps(2) Let_def
    by (rule le_o_bind [OF skip], rule le_o_bind [OF run_le]) (simp add: Suc.IH [OF m(2)])
qed

lemma repeat_le:
  "n \<le> m \<Longrightarrow> le_o (repeat_parse_impl n (run e) skip min_rep max_rep c)
        (repeat_parse_impl m (run' e) skip' min_rep max_rep c)"
  by (auto simp: repeat_parse_impl_def repeat_body_def Let_def
      intro!: le_o_guard le_o_bind rep_loop_le split: prod.split)

lemma predicate_le: "le_o (predicate_parse_impl (run e) b c) (predicate_parse_impl (run' e) b c)"
  by (auto simp: predicate_parse_impl_def Let_def intro!: le_o_bind run_le)

lemma lexeme_le: "le_o (lexeme_parse (run e) c) (lexeme_parse (run' e) c)"
  by (auto simp: lexeme_parse_def Let_def intro!: le_o_guard run_le)

lemma with_frame_le: "(\<And>fr s. le_o (f fr s) (f' fr s)) \<Longrightarrow> le_o (with_frame f c) (with_frame f' c)"
  by (simp add: with_frame_def split: list.split)

lemma grow_loop_le:
  "n \<le> m \<Longrightarrow> le_o (grow_loop n (run e) rule p st best c) (grow_loop m (run' e) rule p st best c)"
proof (induction n arbitrary: m st best c)
  case 0
  then show ?case by simp
next
  case (Suc n)
  then obtain m' where m: "m = Suc m'" "n \<le> m'" by (cases m) auto
  show ?case
    unfolding m(1) grow_loop.simps(2) Let_def
    by (intro le_o_bind with_frame_le run_le le_o_refl)
       (auto simp: Suc.IH [OF m(2)] split: prod.split)
qed

lemma parse_impl_le:
  "n \<le> m \<Longrightarrow> le_o (parse_impl n (run e) rule p c) (parse_impl m (run' e) rule p c)"
  by (auto simp: parse_impl_def Let_def intro!: le_o_bind grow_loop_le)

lemma nonterminal_le:
  "n \<le> m \<Longrightarrow> le_o (nonterminal_parse n run G rule c) (nonterminal_parse m run' G rule c)"
  by (auto simp: nonterminal_parse_def parse_fresh_def Let_def intro!: le_o_bind parse_impl_le
      split: option.split prod.split)

end

lemma run_skipper_le:
  "(\<And>r c. le_o (p r c) (p' r c)) \<Longrightarrow> le_o (run_skipper p c) (run_skipper p' c)"
  by (auto simp: run_skipper_def Let_def intro!: le_o_bind split: option.split)

lemma parse_le: "n \<le> m \<Longrightarrow> le_o (parse n G e c) (parse m G e c)"
proof (induction n arbitrary: m e c)
  case 0
  then show ?case by simp
next
  case (Suc n)
  then obtain m' where m: "m = Suc m'" "n \<le> m'" by (cases m) auto
  have steps: "fuel_steps (parse n G) (parse m' G)
      (run_skipper (\<lambda>r. parse n G (RuleExpr r))) (run_skipper (\<lambda>r. parse m' G (RuleExpr r)))"
    by unfold_locales (rule Suc.IH [OF m(2)], rule run_skipper_le, rule Suc.IH [OF m(2)])
  show ?case
    unfolding m(1) parse.simps(2) Let_def
    by (cases e)
       (simp_all only: expr.case le_o_refl m(2) fuel_steps.sequence_le [OF steps]
         fuel_steps.alternation_le [OF steps] fuel_steps.repeat_le [OF steps]
         fuel_steps.predicate_le [OF steps] fuel_steps.lexeme_le [OF steps]
         fuel_steps.nonterminal_le [OF steps])
qed

interpretation fuel: fuel_steps "parse n G" "parse (n + k) G"
    "run_skipper (\<lambda>r. parse n G (RuleExpr r))" "run_skipper (\<lambda>r. parse (n + k) G (RuleExpr r))"
  for n k G
  by unfold_locales (rule parse_le, simp, rule run_skipper_le, rule parse_le, simp)

text \<open>
  Once a parse ends, more fuel does not change its outcome: the fuel of the model only
  tells how far to run it.
\<close>

theorem parse_fuel_irrelevant:
  assumes "parse n G e c \<noteq> Diverge" and "n \<le> m"
  shows "parse m G e c = parse n G e c"
  using parse_le [OF assms(2), of G e c] assms(1) by (simp add: le_o_def)

definition empty_grammar :: "(nat, nat) grammar" where
  "empty_grammar = \<lparr>m_rules = [], m_start = [], g_skipper = None, g_ops = token_ops None (\<le>)\<rparr>"

theorem parse_fuel_irrelevant_witness:
  "parse 3 empty_grammar (OptionalExpr (TerminalExpr (TValue 0))) (make_ctx [0]) =
   parse 9 empty_grammar (OptionalExpr (TerminalExpr (TValue 0))) (make_ctx [0])"
proof -
  have "(case parse 3 empty_grammar (OptionalExpr (TerminalExpr (TValue 0))) (make_ctx [0]) of
      Ret r c \<Rightarrow> success r | _ \<Rightarrow> False)"
    by code_simp
  then have "parse 3 empty_grammar (OptionalExpr (TerminalExpr (TValue 0))) (make_ctx [0]) \<noteq> Diverge"
    by (auto simp del: parse.simps)
  then show ?thesis
    using parse_fuel_irrelevant [of 3 empty_grammar _ _ 9] by (simp del: parse.simps)
qed

end
