(* ===== verification/Termination.thy ===== *)
theory Termination
  imports Quiet
begin

text \<open>
  Every parse with a grammar that has no cut returns, left recursion included. A rule that
  is running at a position has a memo entry there, so it is never entered twice at the same
  position: the invocation stack holds distinct pairs of a rule and a position, and the
  number of pairs that are left bounds the nesting. A repetition and a growing seed move
  the position forward in each iteration. (A cut evicts memo entries, which can include
  those of running rules; grammars with cuts are outside this theory.)
\<close>

subsection \<open>Cut-free grammars\<close>

fun cut_free :: "'c expr \<Rightarrow> bool" where
  "cut_free CutExpr = False"
| "cut_free (SequenceExpr es) = list_all cut_free es"
| "cut_free (AlternationExpr es) = list_all cut_free es"
| "cut_free (ZeroOrMoreExpr e) = cut_free e"
| "cut_free (OneOrMoreExpr e) = cut_free e"
| "cut_free (NTimesExpr e n) = cut_free e"
| "cut_free (OptionalExpr e) = cut_free e"
| "cut_free (NotExpr e) = cut_free e"
| "cut_free (AndExpr e) = cut_free e"
| "cut_free (LexemeExpr e) = cut_free e"
| "cut_free (TerminalExpr v) = True"
| "cut_free (TokenExpr v) = True"
| "cut_free (TerminalSeqExpr vs) = True"
| "cut_free (MatcherExpr f) = True"
| "cut_free EmptyExpr = True"
| "cut_free (RuleExpr r) = True"

definition cut_free_grammar :: "('c, 'v) grammar \<Rightarrow> bool" where
  "cut_free_grammar G =
     list_all (\<lambda>(r, nt). case m_rule nt of None \<Rightarrow> True | Some e \<Rightarrow> cut_free e) (m_rules G)"

lemma cut_free_body:
  "cut_free_grammar G \<Longrightarrow> lookup_rule G r = Some nt \<Longrightarrow> m_rule nt = Some e \<Longrightarrow> cut_free e"
  by (force simp: cut_free_grammar_def lookup_rule_def list_all_iff dest: map_of_SomeD)

subsection \<open>Fuel\<close>

definition body_size :: "('c, 'v) non_terminal \<Rightarrow> nat" where
  "body_size nt = (case m_rule nt of None \<Rightarrow> 0 | Some e \<Rightarrow> size e)"

definition grammar_size :: "('c, 'v) grammar \<Rightarrow> nat" where
  "grammar_size G = sum_list (map (\<lambda>(r, nt). body_size nt) (m_rules G)) + 1"

text \<open>The pairs of a rule and a position that are not on the stack yet.\<close>

definition frames_left :: "('c, 'v) grammar \<Rightarrow> 'c ctx \<Rightarrow> nat" where
  "frames_left G c = length (m_rules G) * (input_size c + 1) - length (m_lr_stack c)"

definition fuel_needed :: "('c, 'v) grammar \<Rightarrow> 'c ctx \<Rightarrow> nat \<Rightarrow> nat" where
  "fuel_needed G c k = k + frames_left G c * grammar_size G + input_size c + 3"

lemma body_size_bound:
  assumes "lookup_rule G r = Some nt" and "m_rule nt = Some e"
  shows "size e < grammar_size G"
proof -
  have "(r, nt) \<in> set (m_rules G)"
    using assms(1) by (simp add: lookup_rule_def map_of_SomeD)
  then have "body_size nt \<in> set (map (\<lambda>(r, nt). body_size nt) (m_rules G))" by force
  then have "body_size nt \<le> sum_list (map (\<lambda>(r, nt). body_size nt) (m_rules G))"
    by (rule member_le_sum_list) simp
  with assms(2) show ?thesis by (simp add: grammar_size_def body_size_def)
qed

lemma step_rel_fuel_needed: "step_rel G c c' \<Longrightarrow> fuel_needed G c' k = fuel_needed G c k"
proof -
  assume "step_rel G c c'"
  then have "length (lr_keys c') = length (lr_keys c)" "input_size c' = input_size c"
    by (simp_all add: step_rel_def same_env_def input_size_def)
  then show ?thesis by (simp add: fuel_needed_def frames_left_def lr_keys_def)
qed

subsection \<open>Calm states\<close>

definition frame_ids :: "'c ctx \<Rightarrow> (rule_ref \<times> nat) list" where
  "frame_ids c = map (\<lambda>f. (fr_rule f, fr_pos f)) (m_lr_stack c)"

definition calm :: "('c, 'v) grammar \<Rightarrow> 'c ctx \<Rightarrow> bool" where
  "calm G c \<longleftrightarrow>
     wf_state G c \<and> cut_free_grammar G \<and> no_cuts c \<and> distinct (frame_ids c) \<and>
     (\<forall>(r, p) \<in> set (frame_ids c).
        r \<in> fst ` set (m_rules G) \<and> p \<le> input_size c \<and> memo_lookup r p c \<noteq> None)"

lemma calm_wf: "calm G c \<Longrightarrow> wf_state G c"
  by (simp add: calm_def)

lemma lr_in_progress_ids: "lr_in_progress r p c \<longleftrightarrow> (r, p) \<in> set (frame_ids c)"
  by (auto simp: lr_in_progress_def frame_ids_def list_ex_iff)

lemma frame_ids_of_keys: "frame_ids c = map (\<lambda>(r, p, l). (r, p)) (lr_keys c)"
  by (simp add: frame_ids_def lr_keys_def frame_key_def)

lemma frame_ids_keys: "lr_keys c' = lr_keys c \<Longrightarrow> frame_ids c' = frame_ids c"
  by (simp add: frame_ids_of_keys)

lemma calm_cong:
  assumes "calm G c" and "wf_state G c'" and "m_input c' = m_input c" and "no_cuts c'"
    and "frame_ids c' = frame_ids c"
    and "\<And>r p. lr_in_progress r p c \<Longrightarrow> memo_lookup r p c \<noteq> None \<Longrightarrow> memo_lookup r p c' \<noteq> None"
  shows "calm G c'"
  using assms by (auto simp: calm_def lr_in_progress_ids input_size_def)

lemma calm_step:
  assumes "calm G c" and "step_rel G c c'" and "no_cuts c'"
    and "\<And>r p. memo_lookup r p c \<noteq> None \<Longrightarrow> memo_lookup r p c' \<noteq> None"
  shows "calm G c'"
proof (rule calm_cong [OF assms(1) step_rel_wf [OF assms(2)] _ assms(3)])
  show "m_input c' = m_input c" "frame_ids c' = frame_ids c"
    using assms(2) by (simp_all add: step_rel_def same_env_def frame_ids_of_keys)
qed (use assms(4) in blast)

lemma calm_no_cut: "calm G c \<Longrightarrow> \<not> get_cut c"
  by (cases "m_cut c") (simp_all add: calm_def no_cuts_def get_cut_def)

text \<open>The stack has room for a rule that is not running at the position.\<close>

lemma calm_room:
  assumes "calm G c" and "p \<le> input_size c" and "r \<in> fst ` set (m_rules G)"
    and "memo_lookup r p c = None"
  shows "length (m_lr_stack c) < length (m_rules G) * (input_size c + 1)"
proof -
  let ?S = "fst ` set (m_rules G) \<times> {..input_size c}"
  have "set ((r, p) # frame_ids c) \<subseteq> ?S" and new: "distinct ((r, p) # frame_ids c)"
    using assms by (auto simp: calm_def)
  then have "card (set ((r, p) # frame_ids c)) \<le> card ?S"
    by (intro card_mono) auto
  also have "card ?S = card (fst ` set (m_rules G)) * (input_size c + 1)"
    by (simp add: card_cartesian_product)
  also have "\<dots> \<le> length (m_rules G) * (input_size c + 1)"
  proof (rule mult_right_mono)
    have "card (set (map fst (m_rules G))) \<le> length (map fst (m_rules G))" by (rule card_length)
    then show "card (fst ` set (m_rules G)) \<le> length (m_rules G)" by simp
  qed simp
  finally have "card (set ((r, p) # frame_ids c)) \<le> length (m_rules G) * (input_size c + 1)" .
  moreover have "card (set ((r, p) # frame_ids c)) = Suc (length (frame_ids c))"
    using distinct_card [OF new] by simp
  ultimately show ?thesis by (simp add: frame_ids_def)
qed

subsection \<open>What keeps a state calm\<close>

lemma calm_same:
  assumes "calm G c" and "m_position c' \<le> input_size c'" and "m_input c' = m_input c"
    and "m_skipper c' = m_skipper c" and "length (m_node_arena c) \<le> length (m_node_arena c')"
    and "no_cuts c'" and "m_lr_stack c' = m_lr_stack c" and "m_mem c' = m_mem c"
  shows "calm G c'"
proof (rule calm_cong [OF assms(1) _ assms(3,6)])
  have "memo_lookup r p c' = memo_lookup r p c" for r p
    using assms(8) by (simp add: memo_lookup_def)
  then show "wf_state G c'" "\<And>r p. memo_lookup r p c \<noteq> None \<Longrightarrow> memo_lookup r p c' \<noteq> None"
    using assms(2-5) by (auto intro: wf_state_cong [OF calm_wf [OF assms(1)]])
  show "frame_ids c' = frame_ids c"
    using assms(7) by (simp add: frame_ids_def)
qed

interpretation calm_inv: quiet_invariant "calm G" for G :: "('c, 'v) grammar"
proof
  show "calm G c \<Longrightarrow> m_position c \<le> input_size c" for c
    by (rule wf_state_pos [OF calm_wf])
qed (rule calm_same; simp add: calm_def)

subsection \<open>The composite expressions\<close>

locale total_parsers = child_parsers G run skip
  for G :: "('c, 'v) grammar"
    and run :: "'c expr \<Rightarrow> 'c parser"
    and skip :: "'c ctx \<Rightarrow> ('c, unit) parse_outcome" +
  fixes fuel :: nat
  assumes run_calm: "wf_expr G e \<Longrightarrow> cut_free e \<Longrightarrow> calm G c \<Longrightarrow> fuel_needed G c (size e) \<le> fuel \<Longrightarrow>
      rets (run e c) (\<lambda>_. calm G)"
    and skip_calm: "calm G c \<Longrightarrow> fuel_needed G c 0 \<le> fuel \<Longrightarrow> rets (skip c) (\<lambda>_. calm G)"
begin

lemma run_total:
  assumes "wf_expr G e" "cut_free e" "calm G c" "fuel_needed G c (size e) \<le> fuel"
  shows "rets (run e c) (\<lambda>r c'. ret_rel G c r c' \<and> calm G c')"
  by (rule rets_post [OF run_calm [OF assms] run_contract [OF assms(1) calm_wf [OF assms(3)]]])

lemma optional_skip_total:
  assumes "calm G c" "fuel_needed G c 0 \<le> fuel"
  shows "rets (if b then skip c else Ret () c) (\<lambda>_ c'. step_rel G c c' \<and> calm G c')"
proof -
  have "rets (skip c) (\<lambda>_ c'. step_rel G c c' \<and> calm G c')"
    by (rule rets_post [OF skip_calm [OF assms] skip_contract [OF calm_wf [OF assms(1)]]])
  then show ?thesis
    using assms(1) by (simp add: step_rel_refl [OF calm_wf])
qed

lemma fuel_needed_mono: "k \<le> l \<Longrightarrow> fuel_needed G c l \<le> n \<Longrightarrow> fuel_needed G c k \<le> n"
  by (simp add: fuel_needed_def)

lemma parse_seq_total:
  assumes "list_all (wf_expr G) es" "list_all cut_free es" "calm G c"
    and "\<And>e. e \<in> set es \<Longrightarrow> fuel_needed G c (size e) \<le> fuel" and "fuel_needed G c 0 \<le> fuel"
  shows "rets (parse_seq run skip node i es c) (\<lambda>_. calm G)"
  using assms
proof (induction es arbitrary: i c)
  case Nil
  then show ?case by simp
next
  case (Cons e es)
  show ?case
    unfolding parse_seq.simps
  proof (rule rets_bindI [OF optional_skip_total [OF Cons.prems(3,5)]])
    fix u c1 assume c1: "step_rel G c c1 \<and> calm G c1"
    then have f1: "fuel_needed G c1 k = fuel_needed G c k" for k
      by (auto intro: step_rel_fuel_needed)
    show "rets (bind_o (run e c1) (\<lambda>r c2. if success r
          then parse_seq run skip node (Suc i) es (push_child node (tree r) c2) else Ret False c2))
        (\<lambda>_. calm G)"
    proof (rule rets_bindI [OF run_total])
      show "wf_expr G e" "cut_free e" "calm G c1" "fuel_needed G c1 (size e) \<le> fuel"
        using Cons.prems c1 f1 by auto
      fix r c2 assume c2: "ret_rel G c1 r c2 \<and> calm G c2"
      let ?c3 = "push_child node (tree r) c2"
      have c3: "calm G ?c3" "step_rel G c2 ?c3"
        using c2 by (auto simp: calm_inv.keeps_push_child step_push_child calm_wf)
      have f3: "fuel_needed G ?c3 k = fuel_needed G c k" for k
        using f1 c2 step_rel_fuel_needed [OF ret_rel_step] step_rel_fuel_needed [OF c3(2)] by metis
      show "rets (if success r then parse_seq run skip node (Suc i) es ?c3 else Ret False c2) (\<lambda>_. calm G)"
        using Cons.IH [of ?c3] Cons.prems f3 c3 c2 by auto
    qed
  qed
qed

lemma sequence_total:
  assumes "list_all (wf_expr G) es" "list_all cut_free es" "calm G c"
    and "\<And>e. e \<in> set es \<Longrightarrow> fuel_needed G c (size e) \<le> fuel" and "fuel_needed G c 0 \<le> fuel"
  shows "rets (sequence_parse run skip es c) (\<lambda>_. calm G)"
proof -
  obtain n c1 where sn: "start_node c = (n, c1)" by (cases "start_node c")
  have s: "step_rel G c c1" and size: "input_size c1 = input_size c" and c1: "calm G c1"
    using start_node_step [OF calm_wf [OF assms(3)] sn] calm_inv.keeps_start_node [OF assms(3) sn] by auto
  have total: "rets (parse_seq run skip n 0 es c1) (\<lambda>_. calm G)"
    using assms c1 step_rel_fuel_needed [OF s] by (intro parse_seq_total) auto
  show ?thesis
    unfolding sequence_parse_def Let_def sn prod.case
  proof (rule rets_bindI [OF rets_post [OF total parse_seq_contract [OF assms(1) step_rel_wf [OF s]]]])
    fix ok c2 assume c2: "step_rel G c1 c2 \<and> calm G c2"
    then have "m_position c \<le> input_size c2"
      using calm_inv.in_bounds [OF assms(3)] step_rel_input [of G c1 c2] size by simp
    then show "rets (if ok then Ret (ok_result (Some n)) (upd_node n (\<lambda>n. n\<lparr>end_offset := mark c2\<rparr>) c2)
        else Ret null_result (set_state (m_position c) c2)) (\<lambda>_. calm G)"
      using c2 by (simp add: calm_inv.keeps_upd_node calm_inv.keeps_set_state)
  qed
qed

lemma parse_alt_total:
  assumes "list_all (wf_expr G) es" "list_all cut_free es" "calm G c"
    and "\<And>e. e \<in> set es \<Longrightarrow> fuel_needed G c (size e) \<le> fuel"
  shows "rets (parse_alt run i es c) (\<lambda>_. calm G)"
  using assms
proof (induction es arbitrary: i c)
  case Nil
  then show ?case by simp
next
  case (Cons e es)
  show ?case
    unfolding parse_alt.simps
  proof (rule rets_bindI [OF run_total])
    show "wf_expr G e" "cut_free e" "calm G c" "fuel_needed G c (size e) \<le> fuel"
      using Cons.prems by auto
    fix r c1 assume c1: "ret_rel G c r c1 \<and> calm G c1"
    then have f: "fuel_needed G c1 k = fuel_needed G c k" for k
      by (auto intro: step_rel_fuel_needed ret_rel_step)
    show "rets (if success r then Ret r (case tree r of None \<Rightarrow> c1
         | Some t \<Rightarrow> upd_node t (\<lambda>n. n\<lparr>alt_winner := Some i\<rparr>) c1)
         else if get_cut c1 then Throw (cut_error c1) c1 else parse_alt run (Suc i) es c1) (\<lambda>_. calm G)"
      using Cons.IH [of c1] Cons.prems c1 f calm_no_cut [of G c1] by (auto simp: calm_inv.keeps_upd_node split: option.split)
  qed
qed

lemma cut_scope_total:
  assumes "calm G c" and "rets (m (init_cut c)) (\<lambda>_. calm G)"
    and "post (m (init_cut c)) (ret_rel G (init_cut c)) (throw_rel G (init_cut c))"
  shows "rets (scope_guard remove_cut (m (init_cut c))) (\<lambda>_. calm G)"
proof (rule rets_guard, rule rets_mono [OF rets_post [OF assms(2,3)]])
  fix r s assume "ret_rel G (init_cut c) r s \<and> calm G s"
  moreover from this have "length (m_cut s) = length (m_cut (init_cut c))"
    by (simp add: ret_rel_def step_rel_def same_env_def)
  ultimately show "rets (remove_cut s) (\<lambda>_. calm G)"
    by (intro calm_inv.keeps_remove_cut) (auto simp: init_cut_def calm_no_cut)
qed

lemma fuel_init_cut: "fuel_needed G (init_cut c) k = fuel_needed G c k"
  by (simp add: fuel_needed_def frames_left_def init_cut_def input_size_def)

lemma alternation_total:
  assumes "list_all (wf_expr G) es" "list_all cut_free es" "calm G c"
    and "\<And>e. e \<in> set es \<Longrightarrow> fuel_needed G c (size e) \<le> fuel"
  shows "rets (alternation_parse run es c) (\<lambda>_. calm G)"
  unfolding alternation_parse_def
  using assms by (intro cut_scope_total parse_alt_total parse_alt_contract)
    (auto simp: calm_inv.keeps_init_cut fuel_init_cut calm_wf)

lemma predicate_total:
  assumes "wf_expr G e" "cut_free e" "calm G c" "fuel_needed G c (size e) \<le> fuel"
  shows "rets (predicate_parse_impl (run e) b c) (\<lambda>_. calm G)"
  unfolding predicate_parse_impl_def Let_def
proof (rule rets_bindI [OF run_total [OF assms]])
  fix r c1 assume "ret_rel G c r c1 \<and> calm G c1"
  then show "rets (Ret \<lparr>success = (if b then \<not> success r else success r), tree = None\<rparr>
      (set_state (m_position c) c1)) (\<lambda>_. calm G)"
    using calm_inv.in_bounds [OF assms(3)] step_rel_input [of G c c1] by (auto simp: calm_inv.keeps_set_state ret_rel_def)
qed

lemma lexeme_total:
  assumes "wf_expr G e" "cut_free e" "calm G c" "fuel_needed G c (size e) \<le> fuel"
  shows "rets (lexeme_parse (run e) c) (\<lambda>_. calm G)"
proof -
  have "fuel_needed G (set_skip_enabled False c) (size e) \<le> fuel"
    using assms(4) by (simp add: fuel_needed_def frames_left_def set_skip_enabled_def input_size_def)
  then have "rets (run e (set_skip_enabled False c)) (\<lambda>_. calm G)"
    using assms by (intro run_calm) (auto simp: set_skip_enabled_def calm_inv.keeps_skip_flag)
  then show ?thesis
    unfolding lexeme_parse_def Let_def
    by (intro rets_guard) (auto elim!: rets_mono simp: set_skip_enabled_def calm_inv.keeps_skip_flag)
qed

end

subsection \<open>Repetition\<close>

context total_parsers
begin

lemma rep_loop_total:
  assumes e: "wf_expr G e" "cut_free e"
    and "calm G c" "fuel_needed G c (size e) \<le> fuel" "input_size c - m_position c < n"
  shows "rets (rep_loop n (run e) skip max_rep node count lpos c) (\<lambda>_. calm G)"
  using assms(3-)
proof (induction n arbitrary: c count lpos)
  case 0
  then show ?case by simp
next
  case (Suc n)
  have f0: "fuel_needed G c 0 \<le> fuel"
    using Suc.prems(2) by (rule fuel_needed_mono [OF le0])
  show ?case
    unfolding rep_loop.simps
  proof (rule rets_bindI [OF optional_skip_total [OF Suc.prems(1) f0]])
    fix u c1 assume c1: "step_rel G c c1 \<and> calm G c1"
    let ?c1 = "set_cut False c1"
    have s1: "step_rel G c ?c1" "calm G ?c1" "m_position ?c1 = m_position c1"
      using c1 step_set_cut calm_wf step_rel_trans calm_inv.keeps_set_cut
      by (blast, blast, auto simp: set_cut_def split: list.split)
    have f1: "fuel_needed G ?c1 (size e) \<le> fuel"
      using Suc.prems(2) step_rel_fuel_needed [OF s1(1)] by simp
    show "rets (let start_state = m_position c1
       in bind_o (run e ?c1) (\<lambda>r c2.
            if success r then
              let count = count + 1; lpos = m_position c2; c3 = push_child node (tree r) c2
              in if max_rep > 0 \<and> int count \<ge> max_rep then Ret (count, lpos, False) c3
                 else if m_position c3 = start_state then Ret (count, lpos, False) c3
                 else rep_loop n (run e) skip max_rep node count lpos c3
            else Ret (count, lpos, True) c2)) (\<lambda>_. calm G)"
      unfolding Let_def
    proof (rule rets_bindI [OF run_total [OF e s1(2) f1]])
      fix r c2 assume c2: "ret_rel G ?c1 r c2 \<and> calm G c2"
      let ?c3 = "push_child node (tree r) c2"
      have s3: "calm G ?c3" "step_rel G c ?c3"
        using c2 s1(1) by (auto simp: calm_inv.keeps_push_child ret_rel_def
            intro: step_rel_trans step_push_child calm_wf)
      have f3: "fuel_needed G ?c3 (size e) \<le> fuel"
        using Suc.prems(2) step_rel_fuel_needed [OF s3(2)] by simp
      have pos: "m_position c \<le> m_position c1" "m_position c1 \<le> m_position ?c3"
          "m_position ?c3 \<le> input_size c" "input_size ?c3 = input_size c"
        using c1 c2 s1(3) s3 calm_inv.in_bounds [OF s3(1)] step_rel_input [OF s3(2)]
        by (auto simp: step_rel_def ret_rel_def)
      have "rets (rep_loop n (run e) skip max_rep node k l ?c3) (\<lambda>_. calm G)"
        if "m_position ?c3 \<noteq> m_position c1" for k l
        using that pos Suc.prems(3) by (intro Suc.IH [OF s3(1) f3]) auto
      then show "rets (if success r then
              if max_rep > 0 \<and> int (count + 1) \<ge> max_rep then Ret (count + 1, m_position c2, False) ?c3
              else if m_position ?c3 = m_position c1 then Ret (count + 1, m_position c2, False) ?c3
              else rep_loop n (run e) skip max_rep node (count + 1) (m_position c2) ?c3
            else Ret (count, lpos, True) c2) (\<lambda>_. calm G)"
        using s3 c2 by simp
    qed
  qed
qed

lemma rep_finish_calm:
  assumes "calm G c" and "init \<le> input_size c" "lpos \<le> input_size c"
  shows "rets (rep_finish min_rep max_rep node init (count, lpos, failed) c) (\<lambda>_. calm G)"
proof -
  have 1: "calm G (upd_node node f (set_state lpos c))" for f
    using assms by (simp add: calm_inv.keeps_upd_node calm_inv.keeps_set_state)
  show ?thesis
    using assms calm_no_cut [OF 1] calm_inv.keeps_upd_node [OF 1] calm_inv.keeps_upd_node [OF assms(1)]
    by (cases failed) (auto simp: rep_finish_def Let_def calm_inv.keeps_set_state)
qed

lemma repeat_total:
  assumes e: "wf_expr G e" "cut_free e" and c: "calm G c"
    and fuel: "fuel_needed G c (size e) \<le> fuel" and n: "input_size c < n"
  shows "rets (repeat_parse_impl n (run e) skip min_rep max_rep c) (\<lambda>_. calm G)"
  unfolding repeat_parse_impl_def
proof (rule cut_scope_total [OF c])
  let ?c = "init_cut c"
  obtain k c1 where sn: "start_node ?c = (k, c1)" by (cases "start_node ?c")
  have ic: "calm G ?c" using c by (rule calm_inv.keeps_init_cut)
  have s: "step_rel G ?c c1" and c1: "calm G c1" and pos: "m_position c1 = m_position ?c" "input_size c1 = input_size ?c"
    using start_node_step [OF calm_wf [OF ic] sn] calm_inv.keeps_start_node [OF ic sn] by auto
  have size: "input_size ?c = input_size c" by (simp add: input_size_def init_cut_def)
  have p: "m_position c1 \<le> m_position ?c" "m_position ?c \<le> input_size c1"
    using pos calm_inv.in_bounds [OF ic] by simp_all
  have loop: "rets (rep_loop n (run e) skip max_rep k 0 (m_position ?c) c1) (\<lambda>_. calm G)"
    using n pos size fuel step_rel_fuel_needed [OF s] fuel_init_cut
    by (intro rep_loop_total [OF e c1]) simp_all
  show "rets (repeat_body n (run e) skip min_rep max_rep ?c) (\<lambda>_. calm G)"
    unfolding repeat_body_def Let_def sn prod.case
  proof (rule rets_bindI [OF rets_post [OF loop rep_loop_contract [OF e(1) step_rel_wf [OF s]
          step_rel_refl [OF step_rel_wf [OF s]] p]]])
    fix x :: "nat \<times> nat \<times> bool" and c2
    assume x: "(case x of (count', lpos', failed) \<Rightarrow> \<lambda>s. step_rel G c1 s \<and> m_position c1 \<le> lpos' \<and>
         lpos' \<le> input_size c1 \<and> (\<not> failed \<longrightarrow> m_position s = lpos')) c2 \<and> calm G c2"
    then show "rets (rep_finish min_rep max_rep k (m_position ?c) x c2) (\<lambda>_. calm G)"
      using p(2) step_rel_input [of G c1 c2] by (cases x) (auto intro!: rep_finish_calm)
  qed
  show "post (repeat_body n (run e) skip min_rep max_rep ?c) (ret_rel G ?c) (throw_rel G ?c)"
    by (rule repeat_body_contract [OF e(1) calm_wf [OF ic]])
qed

end

subsection \<open>Rules\<close>

lemma calm_position_update:
  assumes "calm G c" and "wf_state G c'" and "m_input c' = m_input c" and "m_cut c' = m_cut c"
    and "frame_ids c' = frame_ids c"
    and "\<And>r p. memo_lookup r p c \<noteq> None \<Longrightarrow> lr_in_progress r p c \<Longrightarrow> memo_lookup r p c' \<noteq> None"
  shows "calm G c'"
  using assms by (intro calm_cong [OF assms(1)]) (auto simp: calm_def no_cuts_def)

lemma calm_clear_siblings:
  assumes "calm G c" and "in_rule G c0 rule L c"
  shows "calm G (clear_siblings_at p keep c)"
  by (rule calm_position_update [OF assms(1) in_rule_wf [OF in_rule_clear_siblings [OF assms(2)]]])
     (auto simp: frame_ids_def memo_lookup_clear_siblings)

lemma calm_plant:
  assumes "calm G c" and "in_rule G c0 rule L c" and "m_position c0 \<le> p" "p \<le> input_size c0"
  shows "calm G (set_frame_last_pos p c)"
  by (rule calm_position_update [OF assms(1) in_rule_wf [OF in_rule_plant [OF assms(2-4)]]])
     (auto simp: frame_ids_def set_frame_last_pos_def split: list.split)

lemma calm_update:
  assumes "calm G c" and "wf_state G (snd (update_rule_state r pos st c))"
  shows "calm G (snd (update_rule_state r pos st c))"
  by (rule calm_position_update [OF assms]) (auto simp: frame_ids_def memo_lookup_update)

context total_parsers
begin

lemma grow_loop_total:
  assumes e: "wf_expr G e" "cut_free e"
    and "in_rule G c rule (m_last_pos st) c1" "tree_ok c1 (tree best)" "calm G c1"
    and "success best \<or> m_last_pos st = m_position c"
    and "fuel_needed G c1 (size e) \<le> fuel" "input_size c - m_last_pos st < n"
  shows "rets (grow_loop n (run e) rule (m_position c) st best c1) (\<lambda>_. calm G)"
  using assms(3-)
proof (induction n arbitrary: st best c1)
  case 0
  then show ?case by simp
next
  case (Suc n)
  let ?p = "m_position c" and ?L = "m_last_pos st"
  let ?c1 = "c1\<lparr>m_position := ?p\<rparr>"
  have L: "?p \<le> ?L" "?L \<le> input_size c" and p: "?p \<le> input_size c"
    using Suc.prems(1) by (auto simp: in_rule_def)
  have r1: "reset ?p c1 = Ret () ?c1" and in1: "in_rule G c rule ?L ?c1"
    using in_rule_reset [OF Suc.prems(1) order_refl p] by auto
  obtain fr rest where fr: "m_lr_stack ?c1 = fr # rest" "fr_last_pos fr = ?L"
    using in_rule_with_frame [OF in1] by metis
  define c1' where "c1' = (if fr_is_head fr \<and> success best then clear_siblings_at ?p rule ?c1 else ?c1)"
  have in1': "in_rule G c rule ?L c1'"
    using in1 in_rule_clear_siblings [OF in1] by (simp add: c1'_def)
  have calm1: "calm G ?c1"
    using Suc.prems(3) p in_rule_size [OF Suc.prems(1)] by (intro calm_inv.keeps_position) auto
  have calm1': "calm G c1'"
    using calm1 calm_clear_siblings [OF calm1 in1] by (simp add: c1'_def)
  have f1': "fuel_needed G c1' k = fuel_needed G c1 k" for k
    by (simp add: c1'_def fuel_needed_def frames_left_def input_size_def)
  have ar1': "m_node_arena c1' = m_node_arena c1"
    by (simp add: c1'_def)
  have body: "rets (run e c1') (\<lambda>r c2. ret_rel G c1' r c2 \<and> calm G c2)"
    using Suc.prems(5) f1' by (intro run_total [OF e calm1']) simp
  have after: "rets (with_frame (\<lambda>frame c2'.
           let end_pos = mark c2'
           in if success result then
                if end_pos > fr_last_pos frame then
                  let c3 = set_frame_last_pos end_pos c2';
                      st' = \<lparr>m_last_pos = end_pos, m_cached_result = result\<rparr>;
                      (ok, c4) = update_rule_state rule ?p st' c3
                  in if \<not> ok then Ret (result, st') c4
                     else grow_loop n (run e) rule ?p st' result c4
                else
                  let best' = (if \<not> success best then result else best);
                      st' = \<lparr>m_last_pos = fr_last_pos frame, m_cached_result = best'\<rparr>
                  in Ret (best', st') (snd (update_rule_state rule ?p st' c2'))
              else Ret (best, st) c2') c2) (\<lambda>_. calm G)"
    if ret: "ret_rel G c1' result c2 \<and> calm G c2" for result c2
  proof -
    have step: "step_rel G c1' c2" and tree: "tree_ok c2 (tree result)" and calm2: "calm G c2"
      using ret by (auto simp: ret_rel_def)
    have in2: "in_rule G c rule ?L c2"
      by (rule in_rule_step [OF in1' step])
    have tree_b: "tree_ok c2 (tree best)"
      using Suc.prems(2) step_rel_arena [OF step] ar1' by (auto intro: tree_ok_arena)
    have q: "?p \<le> m_position c2" "m_position c2 \<le> input_size c"
      using in2 wf_state_pos [OF in_rule_wf [OF in2]] in_rule_size [OF in2] by (auto simp: in_rule_def)
    obtain fr2 rest2 where fr2: "m_lr_stack c2 = fr2 # rest2" "fr_last_pos fr2 = ?L"
      using in_rule_with_frame [OF in2] by metis
    let ?c3 = "set_frame_last_pos (m_position c2) c2"
    let ?st = "\<lparr>m_last_pos = m_position c2, m_cached_result = result\<rparr>"
    let ?c4 = "snd (update_rule_state rule ?p ?st ?c3)"
    let ?best = "if \<not> success best then result else best"
    let ?st2 = "\<lparr>m_last_pos = ?L, m_cached_result = ?best\<rparr>"
    have fields3: "m_node_arena ?c3 = m_node_arena c2" "m_input ?c3 = m_input c2"
        "length (m_lr_stack ?c3) = length (m_lr_stack c2)"
      by (simp_all add: set_frame_last_pos_def split: list.split)
    have in3: "in_rule G c rule (m_position c2) ?c3"
      by (rule in_rule_plant [OF in2 q])
    have in4: "in_rule G c rule (m_position c2) ?c4" if "success result"
      using that tree q fields3 by (intro in_rule_update [OF in3] entry_ok_tree [where c = c2]) auto
    have calm4: "calm G ?c4" if "success result"
      by (rule calm_update [OF calm_plant [OF calm2 in2 q] in_rule_wf [OF in4 [OF that]]])
    have tree4: "tree_ok ?c4 (tree result)"
      using tree fields3 by (auto intro: tree_ok_arena)
    have in5: "in_rule G c rule ?L (snd (update_rule_state rule ?p ?st2 c2))" if "success result"
      using that tree tree_b L by (intro in_rule_update [OF in2] entry_ok_tree [where c = c2]) auto
    have calm5: "calm G (snd (update_rule_state rule ?p ?st2 c2))" if "success result"
      by (rule calm_update [OF calm2 in_rule_wf [OF in5 [OF that]]])
    have f4: "fuel_needed G ?c4 (size e) \<le> fuel"
      using Suc.prems(5) f1' step_rel_fuel_needed [OF step] fields3
      by (simp add: fuel_needed_def frames_left_def input_size_def)
    have less: "input_size c - m_position c2 < n" if "?L < m_position c2"
      using that q Suc.prems(6) by simp
    have again: "rets (grow_loop n (run e) rule ?p ?st result ?c4) (\<lambda>_. calm G)"
      if "success result" "?L < m_position c2"
      using Suc.IH [of ?st ?c4 result] in4 tree4 calm4 f4 less that by simp
    show ?thesis
      using again calm4 calm5 calm2 fr2(2)
      by (cases "update_rule_state rule ?p ?st ?c3")
         (auto simp: with_frame_def fr2(1) Let_def mark_def)
  qed
  show ?case
    unfolding grow_loop.simps r1 bind_o.simps with_frame_def [of _ ?c1] fr(1) list.case
      c1'_def [symmetric]
    by (rule rets_bindI [OF body], rule after)
qed

end

subsection \<open>Entering and leaving a rule\<close>

lemma calm_enter:
  assumes "calm G c" and "memo_lookup rule (m_position c) c = None" and "lookup_rule G rule = Some nt"
  shows "calm G (snd (update_rule_state rule (m_position c) (seed (m_position c))
      (set_frame_last_pos (m_position c)
        (lr_push \<lparr>fr_rule = rule, fr_pos = m_position c, fr_last_pos = m_position c, fr_is_head = h\<rparr>
          (snd (rule_state rule (m_position c) c))))))" (is "calm G ?c")
proof -
  define c2 where "c2 = ?c"
  have ids: "frame_ids c2 = (rule, m_position c) # frame_ids c"
    by (simp add: c2_def frame_ids_def set_frame_last_pos_def lr_push_def)
  have lookup: "memo_lookup r p c2 = (if r = rule \<and> p = m_position c then Some (seed p) else memo_lookup r p c)"
    for r p
    using assms(2)
    by (auto simp: c2_def memo_lookup_update memo_lookup_rule_state set_frame_last_pos_def lr_push_def)
  have fields: "m_input c2 = m_input c" "m_cut c2 = m_cut c"
    by (simp_all add: c2_def set_frame_last_pos_def lr_push_def)
  have wf: "wf_state G c2"
    unfolding c2_def by (rule in_rule_wf [OF in_rule_enter [OF calm_wf [OF assms(1)]]])
  have "rule \<in> fst ` set (m_rules G)"
    using assms(3) by (force simp: lookup_rule_def dest: map_of_SomeD)
  then have "calm G c2"
    using wf assms(1,2) calm_inv.in_bounds [OF assms(1)]
    by (auto simp: calm_def ids lookup fields input_size_def no_cuts_def)
  then show ?thesis by (simp add: c2_def)
qed

lemma calm_pop:
  assumes "calm G c2" and "lr_pop d c2 = Some (fr, c3)" and "wf_state G c3"
  shows "calm G c3"
proof -
  obtain rest where c2: "m_lr_stack c2 = fr # rest" and c3: "c3 = c2\<lparr>m_lr_stack := rest\<rparr>"
    using assms(2) by (auto simp: lr_pop_def split: list.splits if_splits)
  have "frame_ids c2 = (fr_rule fr, fr_pos fr) # frame_ids c3" "m_cut c3 = m_cut c2"
      "m_input c3 = m_input c2" "memo_lookup r p c3 = memo_lookup r p c2" for r p
    by (simp_all add: c3 c2 frame_ids_def)
  then show ?thesis
    using assms(1,3) by (auto simp: calm_def input_size_def no_cuts_def)
qed

lemma rule_matched_calm:
  assumes "calm G c4" and "post (rule_matched nt rule p st inner c4) (ret_rel G c) (throw_rel G c)"
  shows "rets (rule_matched nt rule p st inner c4) (\<lambda>_. calm G)"
proof -
  obtain node c5 where b: "build_rule_node nt rule p (tree inner) c4 = (node, c5)"
    by (cases "build_rule_node nt rule p (tree inner) c4")
  show ?thesis
    using assms(2) calm_inv.keeps_build_node [OF assms(1) b]
    by (auto simp: rule_matched_def b Let_def ret_rel_def step_rel_def intro: calm_update)
qed

lemma rule_failed_calm:
  assumes "calm G c4" and "p \<le> input_size c4"
    and "post (rule_failed nt rule p st c4) (ret_rel G c) (throw_rel G c)"
  shows "rets (rule_failed nt rule p st c4) (\<lambda>_. calm G)"
proof -
  let ?c1 = "record_rule_failure nt p c4"
  have c1: "calm G ?c1" "input_size ?c1 = input_size c4"
    using assms(1) by (auto simp: record_rule_failure_def calm_inv.keeps_record_failure input_size_def)
  have "calm G (record_diagnostic d (?c1\<lparr>m_position := q\<rparr>))" if "q \<le> input_size c4" for q d
    using c1 that by (simp add: calm_inv.keeps_record_diagnostic calm_inv.keeps_position)
  then show ?thesis
    using assms c1 scan_sync_bounds
    by (auto simp: rule_failed_def Let_def reset_def ret_rel_def step_rel_def intro: calm_update
        split: option.splits if_splits)
qed

lemma reenter_calm:
  assumes "calm G c" and "post (reenter rule p st c) (ret_rel G c) (throw_rel G c)"
  shows "rets (reenter rule p st c) (\<lambda>_. calm G)"
proof -
  obtain b fs where fs: "mark_head_frames rule p (m_lr_stack c) = (b, fs)"
    by (cases "mark_head_frames rule p (m_lr_stack c)")
  have "map (\<lambda>f. (fr_rule f, fr_pos f)) fs = map (\<lambda>(r, p, l). (r, p)) (map frame_key fs)"
    by (simp add: frame_key_def)
  also have "\<dots> = frame_ids c"
    using mark_head_frames_keys [OF fs] by (simp add: frame_ids_def frame_key_def)
  finally have ids: "frame_ids (mark_head rule p c) = frame_ids c"
    by (simp add: mark_head_def fs Let_def frame_ids_def set_growing_head_def)
  have wf: "wf_state G (mark_head rule p c)"
    using step_mark_head [OF calm_wf [OF assms(1)]] step_rel_wf by blast
  have look: "memo_lookup r q (mark_head rule p c) = memo_lookup r q c" for r q
    using step_mark_head [OF calm_wf [OF assms(1)]] by blast
  have fields: "m_input (mark_head rule p c) = m_input c" "m_cut (mark_head rule p c) = m_cut c"
    by (simp_all add: mark_head_def fs Let_def set_growing_head_def)
  have "calm G (mark_head rule p c)"
    by (rule calm_position_update [OF assms(1) wf fields ids]) (simp add: look)
  moreover have "rets (return_cached st' s) (\<lambda>_. calm G)"
    if "calm G s" "post (return_cached st' s) (ret_rel G c) (throw_rel G c)" for s st'
    using that by (cases "m_last_pos st' \<le> input_size s")
      (auto simp: return_cached_def reset_def calm_inv.keeps_position)
  ultimately show ?thesis
    using assms by (auto simp: reenter_def Let_def split: option.splits if_splits)
qed

context total_parsers
begin

lemma parse_fresh_total:
  assumes c: "calm G c" and nt: "lookup_rule G rule = Some nt" "is_defined nt"
    and new: "memo_lookup rule (m_position c) c = None"
    and fuel: "fuel_needed G c 0 \<le> Suc fuel" "input_size c < n"
  shows "rets (parse_fresh n run nt rule (m_position c) (snd (rule_state rule (m_position c) c)))
    (\<lambda>_. calm G)"
proof -
  let ?p = "m_position c"
  let ?c1 = "lr_push \<lparr>fr_rule = rule, fr_pos = ?p, fr_last_pos = ?p, fr_is_head = False\<rparr>
          (snd (rule_state rule ?p c))"
  let ?c2 = "snd (update_rule_state rule ?p (seed ?p) (set_frame_last_pos ?p ?c1))"
  obtain e where e: "m_rule nt = Some e" using nt(2) by (auto simp: is_defined_def)
  have wf: "wf_state G c" and free: "cut_free e"
    using c cut_free_body [OF _ nt(1) e] by (simp_all add: calm_def)
  have wfe: "wf_expr G e"
    using wf wf_grammar_body [OF _ nt(1) e] by (simp add: wf_state_def)
  have depth: "length (m_lr_stack (snd (rule_state rule ?p c))) = length (m_lr_stack c)"
    by simp
  have rule: "rule \<in> fst ` set (m_rules G)"
    using nt(1) by (force simp: lookup_rule_def dest: map_of_SomeD)
  have stack2: "length (m_lr_stack ?c2) = Suc (length (m_lr_stack c))" "input_size ?c2 = input_size c"
    by (simp_all add: set_frame_last_pos_def lr_push_def input_size_def)
  have left: "frames_left G c = Suc (frames_left G ?c2)"
    using calm_room [OF c calm_inv.in_bounds [OF c] rule new] stack2 by (simp add: frames_left_def)
  have fuel2: "fuel_needed G ?c2 (size e) \<le> fuel"
    using fuel(1) left stack2 body_size_bound [OF nt(1) e] by (simp add: fuel_needed_def)
  have calm2: "calm G ?c2" by (rule calm_enter [OF c new nt(1)])
  have in2: "in_rule G c rule (m_last_pos (seed ?p)) ?c2"
    using in_rule_enter [OF wf] by (simp add: seed_def)
  have seed: "success null_result \<or> m_last_pos (seed ?p) = ?p" "tree_ok ?c2 (tree null_result)"
    by (simp_all add: seed_def null_result_def)
  have grow: "rets (grow_loop n (run e) rule ?p (seed ?p) null_result ?c2) (\<lambda>_. calm G)"
    using fuel(2) by (intro grow_loop_total [OF wfe free in2 seed(2) calm2 seed(1) fuel2]) simp
  have impl: "rets (parse_impl n (run e) rule ?p ?c1) (\<lambda>_. calm G)"
    unfolding parse_impl_def Let_def seed_def [symmetric]
  proof (rule rets_bindI [OF rets_post [OF grow grow_loop_contract [OF wfe in2 seed(2,1)]]])
    fix x s assume x: "grown G c rule x s \<and> calm G s"
    obtain best st where [simp]: "x = (best, st)" by (cases x)
    have s: "in_rule G c rule (m_last_pos st) s" using x by (simp add: grown_def)
    obtain fr rest where fr: "m_lr_stack s = fr # rest" "fr_last_pos fr = m_last_pos st"
      using in_rule_with_frame [OF s] by metis
    have "m_last_pos st \<le> input_size s"
      using s in_rule_size [OF s] by (simp add: in_rule_def)
    then show "rets ((case x of (best, st') \<Rightarrow> with_frame (\<lambda>frame c4.
         bind_o (reset (fr_last_pos frame) c4) (\<lambda>_. Ret (best, st')))) s) (\<lambda>_. calm G)"
      using x fr by (simp add: with_frame_def reset_def calm_inv.keeps_position)
  qed
  show ?thesis
    unfolding parse_fresh_def Let_def e option.case depth
  proof (rule rets_bindI [OF rets_post [OF impl parse_impl_contract [OF wfe wf]]])
    fix x s assume x: "(grown G c rule x s \<and> m_position s = m_last_pos (snd x)) \<and> calm G s"
    obtain inner st where [simp]: "x = (inner, st)" by (cases x)
    from x have g: "in_rule G c rule (m_last_pos st) s" "tree_ok s (tree inner)"
        "success inner \<or> m_last_pos st = ?p" "m_position s = m_last_pos st"
      by (auto simp: grown_def)
    obtain fr c3 where pop: "lr_pop (length (m_lr_stack c)) s = Some (fr, c3)"
      and c3: "step_rel G c c3" "step_rel G c (clear_growing_head ?p c3)"
        "m_position c3 = m_last_pos st" "m_node_arena c3 = m_node_arena s"
      using pop_frame [OF g(1,4)] by metis
    let ?c4 = "if fr_is_head fr then clear_growing_head ?p c3 else c3"
    have c4: "step_rel G c ?c4" "m_position ?c4 = m_last_pos st" "tree_ok ?c4 (tree inner)"
      using c3 g(2) by (auto simp: clear_growing_head_def intro: tree_ok_arena)
    have calm3: "calm G c3"
      using x by (intro calm_pop [OF _ pop step_rel_wf [OF c3(1)]]) simp
    have calm4: "calm G ?c4"
      using calm3 calm_inv.keeps_clear_growing_head [OF calm3] by simp
    have "?p \<le> m_last_pos st" using g(1) by (simp add: in_rule_def)
    then have m: "rets (rule_matched nt rule ?p st inner ?c4) (\<lambda>_. calm G)"
      by (rule rule_matched_calm [OF calm4 rule_matched_contract [OF c4(1,3,2)]])
    have f: "rets (rule_failed nt rule ?p st ?c4) (\<lambda>_. calm G)" if "\<not> success inner"
    proof (rule rule_failed_calm [OF calm4 _ rule_failed_contract [OF wf c4(1)]])
      show "m_position ?c4 = ?p" "m_last_pos st = ?p" "?p \<le> input_size ?c4"
        using that g(3) c4 calm_inv.in_bounds [OF c] step_rel_input [OF c4(1)] by auto
    qed
    show "rets ((case x of (inner, st) \<Rightarrow> (\<lambda>c2. case lr_pop (length (m_lr_stack c)) c2 of None \<Rightarrow> Fault
          | Some (frame, c3) \<Rightarrow>
              if \<not> success inner then rule_failed nt rule ?p st
                (if fr_is_head frame then clear_growing_head ?p c3 else c3)
              else rule_matched nt rule ?p st inner
                (if fr_is_head frame then clear_growing_head ?p c3 else c3))) s)
          (\<lambda>_. calm G)"
      using m f pop by simp
  qed
qed

lemma nonterminal_total:
  assumes "defined_rule G rule" and c: "calm G c"
    and fuel: "fuel_needed G c 0 \<le> Suc fuel" "input_size c < n"
  shows "rets (nonterminal_parse n run G rule c) (\<lambda>_. calm G)"
proof -
  obtain nt where nt: "lookup_rule G rule = Some nt" "is_defined nt"
    using assms(1) by (auto simp: defined_rule_def split: option.splits)
  show ?thesis
  proof (cases "memo_lookup rule (m_position c) c")
    case None
    then show ?thesis
      using parse_fresh_total [OF c nt None fuel] rule_state_fst [of rule "m_position c" c] nt(1)
      by (cases "rule_state rule (m_position c) c") (simp add: nonterminal_parse_def mark_def)
  next
    case (Some st)
    then show ?thesis
      using reenter_calm [OF c reenter_contract [OF calm_wf [OF c] Some]]
        rule_state_fst [of rule "m_position c" c] nt(1) memo_hit_same [OF Some]
      by (cases "rule_state rule (m_position c) c") (simp add: nonterminal_parse_def mark_def)
  qed
qed

end

subsection \<open>The engine\<close>

lemma run_skipper_total:
  assumes rule: "\<And>r c. defined_rule G r \<Longrightarrow> calm G c \<Longrightarrow> fuel_needed G c 0 \<le> fuel \<Longrightarrow>
      rets (parse_rule r c) (\<lambda>_. calm G)"
    and c: "calm G c" and "fuel_needed G c 0 \<le> fuel"
  shows "rets (run_skipper parse_rule c) (\<lambda>_. calm G)"
proof (cases "m_skip_enabled c \<and> m_skipper c \<noteq> None")
  case False
  then show ?thesis using c by (auto simp: run_skipper_def split: option.split)
next
  case True
  then obtain s where s: "m_skipper c = Some s" "m_skip_enabled c" by auto
  have "defined_rule G s" using c s by (simp add: calm_def wf_state_def)
  moreover have "fuel_needed G (c\<lparr>m_skip_enabled := False\<rparr>) 0 \<le> fuel"
    using assms(3) by (simp add: fuel_needed_def frames_left_def input_size_def)
  ultimately have "rets (parse_rule s (c\<lparr>m_skip_enabled := False\<rparr>)) (\<lambda>_. calm G)"
    using rule calm_inv.keeps_skip_flag [OF c] by blast
  then show ?thesis
    using s by (cases "parse_rule s (c\<lparr>m_skip_enabled := False\<rparr>)") (auto simp: run_skipper_def calm_inv.keeps_skip_flag)
qed

lemma engine_total_parsers:
  "total_parsers G (parse n G) (run_skipper (\<lambda>r. parse n G (RuleExpr r))) n"
proof (induction n)
  case 0
  show ?case
    by (intro total_parsers.intro total_parsers_axioms.intro engine_child_parsers)
       (simp_all add: fuel_needed_def)
next
  case (Suc n)
  have rule: "rets (parse (Suc n) G (RuleExpr r) c) (\<lambda>_. calm G)"
    if "defined_rule G r" "calm G c" "fuel_needed G c 0 \<le> Suc n" for r c
    using total_parsers.nonterminal_total [OF Suc that, of n] that(3) by (simp add: fuel_needed_def)
  have run: "rets (parse (Suc n) G e c) (\<lambda>_. calm G)"
    if e: "wf_expr G e" "cut_free e" and c: "calm G c" and fuel: "fuel_needed G c (size e) \<le> Suc n" for e c
  proof -
    have child: "fuel_needed G c k \<le> n" if "k < size e" for k
      using that fuel by (simp add: fuel_needed_def)
    have n: "input_size c < n"
      using fuel by (simp add: fuel_needed_def)
    have elem: "fuel_needed G c (size a) \<le> n" if "e = SequenceExpr es \<or> e = AlternationExpr es" "a \<in> set es" for a es
      using that child [of "size a"] size_list_estimation' [of a es "size a" size]
      by (auto simp: less_Suc_eq_le)
    show ?thesis
      using e c
    proof (cases e)
      case (SequenceExpr es)
      then show ?thesis
        using total_parsers.sequence_total [OF Suc, of es c] e c elem child [of 0] by simp
    next
      case (AlternationExpr es)
      then show ?thesis
        using total_parsers.alternation_total [OF Suc, of es c] e c elem by simp
    next
      case (RuleExpr r)
      then show ?thesis
        using rule [of r c] e c fuel by (simp add: fuel_needed_def)
    qed (use child n in \<open>simp_all add: Let_def calm_inv.keeps_terminal calm_inv.keeps_token calm_inv.keeps_matcher
         terminal_seq_parse_def mark_def calm_inv.keeps_terminal_seq calm_inv.in_bounds empty_parse_def
         total_parsers.repeat_total [OF Suc] total_parsers.predicate_total [OF Suc]
         total_parsers.lexeme_total [OF Suc]\<close>)
  qed
  show ?case
  proof (intro total_parsers.intro total_parsers_axioms.intro engine_child_parsers run)
    show "rets (run_skipper (\<lambda>r. parse (Suc n) G (RuleExpr r)) c) (\<lambda>_. calm G)"
      if "calm G c" "fuel_needed G c 0 \<le> Suc n" for c
      by (rule run_skipper_total [OF _ that]) (rule rule)
  qed
qed

interpretation total: total_parsers G "parse n G" "run_skipper (\<lambda>r. parse n G (RuleExpr r))" n
  for n G
  by (rule engine_total_parsers)

subsection \<open>Every cut-free parse returns\<close>

definition fuel_bound :: "('c, 'v) grammar \<Rightarrow> 'c expr \<Rightarrow> 'c list \<Rightarrow> nat" where
  "fuel_bound G e input =
     size e + length (m_rules G) * (length input + 1) * grammar_size G + length input + 3"

definition start_ctx :: "rule_ref option \<Rightarrow> 'c list \<Rightarrow> 'c ctx" where
  "start_ctx skipper input = internal_set_skipper skipper (make_ctx input)"

definition skipper_ok :: "('c, 'v) grammar \<Rightarrow> rule_ref option \<Rightarrow> bool" where
  "skipper_ok G s = (case s of None \<Rightarrow> True | Some r \<Rightarrow> defined_rule G r)"

lemma start_ctx_fields [simp]:
  "m_input (start_ctx s input) = input" "m_position (start_ctx s input) = 0"
  "m_lr_stack (start_ctx s input) = []" "m_cut (start_ctx s input) = []"
  "m_skipper (start_ctx s input) = s" "m_mem (start_ctx s input) = Map.empty"
  "m_node_arena (start_ctx s input) = []"
  by (simp_all add: start_ctx_def internal_set_skipper_def make_ctx_def)

lemma start_ctx_wf: "wf_grammar G \<Longrightarrow> skipper_ok G s \<Longrightarrow> wf_state G (start_ctx s input)"
  by (simp add: wf_state_def wf_ctx_def memo_lookup_def skipper_ok_def)

lemma start_ctx_calm:
  "wf_grammar G \<Longrightarrow> cut_free_grammar G \<Longrightarrow> skipper_ok G s \<Longrightarrow> calm G (start_ctx s input)"
  by (simp add: calm_def start_ctx_wf no_cuts_def frame_ids_def)

lemma cut_free_total:
  assumes "wf_grammar G" and "cut_free_grammar G" and "skipper_ok G s"
    and "wf_expr G e" and "cut_free e" and "fuel_bound G e input \<le> n"
  shows "\<exists>r c. parse n G e (start_ctx s input) = Ret r c"
proof -
  have "fuel_needed G (start_ctx s input) (size e) \<le> n"
    using assms(6) by (simp add: fuel_needed_def frames_left_def fuel_bound_def input_size_def)
  then have "rets (parse n G e (start_ctx s input)) (\<lambda>_. calm G)"
    using assms by (intro total.run_calm start_ctx_calm)
  then show ?thesis by (auto simp: rets_iff)
qed

text \<open>
  C8: every parse with a cut-free grammar returns: whatever the left recursion (direct,
  indirect, hidden), the repetitions of expressions that match nothing, the skipper and the
  recovery, and whatever the input, the engine neither loops nor throws, and the number of
  nested calls it needs is at most the number of rules times the number of positions times
  the size of the grammar, plus the size of the expression and of the input.
\<close>

theorem cut_free_parse_returns:
  assumes "wf_grammar G" and "cut_free_grammar G" and "skipper_ok G s"
    and "wf_expr G e" and "cut_free e" and "fuel_bound G e input \<le> n"
  shows "\<exists>r c. parse n G e (start_ctx s input) = Ret r c"
  by (rule cut_free_total [OF assms])

text \<open>\<open>A = B | 0\<close>, \<open>B = A 1 | A 2\<close>: indirect left recursion; \<open>(!0)*\<close> matches nothing.\<close>

definition knot_grammar :: "(nat, nat) grammar" where
  "knot_grammar =
     \<lparr>m_rules =
        [(''A'', new_non_terminal\<lparr>m_rule := Some (AlternationExpr
            [RuleExpr ''B'', TerminalExpr (TValue 0)]), m_name := ''A''\<rparr>),
         (''B'', new_non_terminal\<lparr>m_rule := Some (AlternationExpr
            [SequenceExpr [RuleExpr ''A'', TerminalExpr (TValue 1)],
             SequenceExpr [RuleExpr ''A'', TerminalExpr (TValue 2)]]), m_name := ''B''\<rparr>)],
      m_start = ''A'', g_skipper = Some ''A'', g_ops = token_ops None (\<le>)\<rparr>"

theorem cut_free_parse_returns_witness:
  "\<exists>r c. parse 400 knot_grammar (SequenceExpr [RuleExpr ''A'', ZeroOrMoreExpr (NotExpr (TerminalExpr (TValue 0)))])
     (start_ctx (Some ''A'') [0, 1, 2, 7]) = Ret r c"
  by (rule cut_free_parse_returns)
     (simp_all add: knot_grammar_def wf_grammar_def cut_free_grammar_def skipper_ok_def defined_rule_def
       lookup_rule_def is_defined_def new_non_terminal_def fuel_bound_def grammar_size_def body_size_def)

end
