(* ===== verification/Reference.thy ===== *)
theory Reference
  imports Recogniser
begin

text \<open>
  One level of a reference semantics with everything the library adds to parsing
  expressions: the skipper between the elements of a sequence and the iterations of a
  repetition, \<open>lexeme\<close>, and cuts. A cut commits the innermost choice or repetition; a
  committed scope that fails aborts the parse. The evaluator \<open>E\<close> of the children and the skipper \<open>K\<close>
  are parameters; the flag they take says whether skipping is on. The semantics with cuts
  only, without skipping, and the recogniser of \<open>Recogniser\<close> are special cases.
\<close>

subsection \<open>Results\<close>

text \<open>
  The parse aborts, or the expression fails or matches up to a position; the flag: a cut in
  it has committed the scope it stands in.
\<close>

datatype cut_result = Aborts | Ends "nat option" bool

type_synonym full_result = "cut_result option"

fun or_cut :: "bool \<Rightarrow> cut_result \<Rightarrow> cut_result" where
  "or_cut k Aborts = Aborts"
| "or_cut k (Ends r k') = Ends r (k \<or> k')"

text \<open>Where the skipper ends; \<open>Some None\<close>: it aborts.\<close>

type_synonym skip_result = "nat option option"

subsection \<open>Composite expressions\<close>

fun full_seq :: "(nat \<Rightarrow> skip_result) \<Rightarrow> ('c expr \<Rightarrow> nat \<Rightarrow> full_result) \<Rightarrow> bool \<Rightarrow> 'c expr list \<Rightarrow> nat \<Rightarrow> full_result" where
  "full_seq K run later [] p = Some (Ends (Some p) False)"
| "full_seq K run later (e # es) p =
     (case (if later then K p else Some (Some p)) of
        None \<Rightarrow> None
      | Some None \<Rightarrow> Some Aborts
      | Some (Some p') \<Rightarrow>
          (case run e p' of
             None \<Rightarrow> None
           | Some Aborts \<Rightarrow> Some Aborts
           | Some (Ends None k) \<Rightarrow> Some (Ends None k)
           | Some (Ends (Some q) k) \<Rightarrow> map_option (or_cut k) (full_seq K run True es q)))"

fun full_alt :: "('c expr \<Rightarrow> nat \<Rightarrow> full_result) \<Rightarrow> 'c expr list \<Rightarrow> nat \<Rightarrow> full_result" where
  "full_alt run [] p = Some (Ends None False)"
| "full_alt run (e # es) p =
     (case run e p of
        None \<Rightarrow> None
      | Some Aborts \<Rightarrow> Some Aborts
      | Some (Ends (Some q) k) \<Rightarrow> Some (Ends (Some q) False)
      | Some (Ends None k) \<Rightarrow> if k then Some Aborts else full_alt run es p)"

lemma full_alt_scoped: "full_alt R es p = Some v \<Longrightarrow> v = Aborts \<or> (\<exists>res. v = Ends res False)"
  by (induction es) (auto split: option.splits cut_result.splits if_splits)

text \<open>
  The matches of a repetition from count \<open>k\<close> at \<open>p\<close>: their number, the end of the last, and
  whether the iteration that failed had committed itself; \<open>Some None\<close>: aborted.
\<close>

fun full_loop ::
  "nat \<Rightarrow> (nat \<Rightarrow> skip_result) \<Rightarrow> (nat \<Rightarrow> full_result) \<Rightarrow> int \<Rightarrow> nat \<Rightarrow> nat \<Rightarrow> (nat \<times> nat \<times> bool) option option" where
  "full_loop 0 K run max_rep k p = None"
| "full_loop (Suc n) K run max_rep k p =
     (case (if k > 0 then K p else Some (Some p)) of
        None \<Rightarrow> None
      | Some None \<Rightarrow> Some None
      | Some (Some p') \<Rightarrow>
          (case run p' of
             None \<Rightarrow> None
           | Some Aborts \<Rightarrow> Some None
           | Some (Ends None k') \<Rightarrow> Some (Some (k, p, k'))
           | Some (Ends (Some q) k') \<Rightarrow>
               if max_rep > 0 \<and> int (k + 1) \<ge> max_rep then Some (Some (k + 1, q, False))
               else if q = p' then Some (Some (k + 1, q, False))
               else full_loop n K run max_rep (k + 1) q))"

definition full_rep ::
  "nat \<Rightarrow> (nat \<Rightarrow> skip_result) \<Rightarrow> (nat \<Rightarrow> full_result) \<Rightarrow> nat \<Rightarrow> int \<Rightarrow> nat \<Rightarrow> full_result" where
  "full_rep n K run min_rep max_rep p =
     (case full_loop n K run max_rep 0 p of
        None \<Rightarrow> None
      | Some None \<Rightarrow> Some Aborts
      | Some (Some (k, q, committed)) \<Rightarrow>
          Some (if k < min_rep then Ends None False
                else if max_rep < 0 \<and> committed then Aborts else Ends (Some q) False))"

text \<open>The operands of an expression, and whether skipping is on for them.\<close>

fun subs :: "'c expr \<Rightarrow> 'c expr list" where
  "subs (SequenceExpr es) = es"
| "subs (AlternationExpr es) = es"
| "subs (ZeroOrMoreExpr a) = [a]"
| "subs (OneOrMoreExpr a) = [a]"
| "subs (NTimesExpr a k) = [a]"
| "subs (OptionalExpr a) = [a]"
| "subs (NotExpr a) = [a]"
| "subs (AndExpr a) = [a]"
| "subs (LexemeExpr a) = [a]"
| "subs e = []"

fun inner_mode :: "bool \<Rightarrow> 'c expr \<Rightarrow> bool" where
  "inner_mode b (LexemeExpr a) = False"
| "inner_mode b e = b"

text \<open>A predicate keeps a cut of its operand: it has no scope of its own.\<close>

fun full_pred :: "bool \<Rightarrow> nat \<Rightarrow> cut_result \<Rightarrow> cut_result" where
  "full_pred negate p Aborts = Aborts"
| "full_pred negate p (Ends r k) = Ends (if (r = None) = negate then Some p else None) k"

definition full_step ::
  "nat \<Rightarrow> ('c, 'v) grammar \<Rightarrow> 'c list \<Rightarrow> (bool \<Rightarrow> nat \<Rightarrow> skip_result) \<Rightarrow> (bool \<Rightarrow> 'c expr \<Rightarrow> nat \<Rightarrow> full_result)
     \<Rightarrow> bool \<Rightarrow> 'c expr \<Rightarrow> nat \<Rightarrow> full_result" where
  "full_step n G input K E b e p =
     (case e of
        TerminalExpr v \<Rightarrow> Some (Ends (ev_symbol (g_ops G) input v p) False)
      | TokenExpr v \<Rightarrow> Some (Ends (ev_symbol (g_ops G) input v p) False)
      | TerminalSeqExpr vs \<Rightarrow>
          Some (Ends (if take (length vs) (drop p input) = vs then Some (p + length vs) else None) False)
      | MatcherExpr fn \<Rightarrow> Some (Ends (map_option sp_end (fn input (Span p p))) False)
      | EmptyExpr \<Rightarrow> Some (Ends (Some p) False)
      | SequenceExpr es \<Rightarrow> full_seq (K b) (E b) False es p
      | AlternationExpr es \<Rightarrow> full_alt (E b) es p
      | ZeroOrMoreExpr a \<Rightarrow> full_rep n (K b) (E b a) 0 (-1) p
      | OneOrMoreExpr a \<Rightarrow> full_rep n (K b) (E b a) 1 (-1) p
      | NTimesExpr a k \<Rightarrow> full_rep n (K b) (E b a) k (to_int64 k) p
      | OptionalExpr a \<Rightarrow> full_rep n (K b) (E b a) 0 1 p
      | NotExpr a \<Rightarrow> map_option (full_pred True p) (E b a p)
      | AndExpr a \<Rightarrow> map_option (full_pred False p) (E b a p)
      | CutExpr \<Rightarrow> Some (Ends (Some p) True)
      | LexemeExpr a \<Rightarrow> E False a p
      | RuleExpr r \<Rightarrow> None)"

subsection \<open>The recogniser as a special case\<close>

text \<open>One level of the plain recogniser.\<close>

definition ev_step :: "nat \<Rightarrow> ('c, 'v) grammar \<Rightarrow> 'c list \<Rightarrow> ('c expr \<Rightarrow> nat \<Rightarrow> ev_result) \<Rightarrow> 'c expr \<Rightarrow> nat \<Rightarrow> ev_result" where
  "ev_step n G input E e p =
     (case e of
        TerminalExpr v \<Rightarrow> Some (ev_symbol (g_ops G) input v p)
      | TokenExpr v \<Rightarrow> Some (ev_symbol (g_ops G) input v p)
      | TerminalSeqExpr vs \<Rightarrow>
          Some (if take (length vs) (drop p input) = vs then Some (p + length vs) else None)
      | MatcherExpr fn \<Rightarrow> Some (map_option sp_end (fn input (Span p p)))
      | EmptyExpr \<Rightarrow> Some (Some p)
      | SequenceExpr es \<Rightarrow> ev_seq E es p
      | AlternationExpr es \<Rightarrow> ev_alt E es p
      | ZeroOrMoreExpr a \<Rightarrow> ev_rep n (E a) 0 (-1) p
      | OneOrMoreExpr a \<Rightarrow> ev_rep n (E a) 1 (-1) p
      | NTimesExpr a k \<Rightarrow> ev_rep n (E a) k (to_int64 k) p
      | OptionalExpr a \<Rightarrow> ev_rep n (E a) 0 1 p
      | NotExpr a \<Rightarrow>
          (case E a p of None \<Rightarrow> None | Some r \<Rightarrow> Some (if r = None then Some p else None))
      | AndExpr a \<Rightarrow>
          (case E a p of None \<Rightarrow> None | Some r \<Rightarrow> Some (if r = None then None else Some p))
      | CutExpr \<Rightarrow> None
      | LexemeExpr a \<Rightarrow> E a p
      | RuleExpr r \<Rightarrow> None)"

lemma ev_other: "\<forall>r. e \<noteq> RuleExpr r \<Longrightarrow> ev (Suc n) G input e p = ev_step n G input (ev n G input) e p"
  by (cases e) (simp_all add: ev_step_def)

text \<open>An evaluator with no cuts, and no skipping.\<close>

definition plainly :: "('c expr \<Rightarrow> nat \<Rightarrow> ev_result) \<Rightarrow> bool \<Rightarrow> 'c expr \<Rightarrow> nat \<Rightarrow> full_result" where
  "plainly E b e p = map_option (\<lambda>r. Ends r False) (E e p)"

definition no_skip :: "bool \<Rightarrow> nat \<Rightarrow> skip_result" where
  "no_skip b p = Some (Some p)"

lemma plainly_seq: "full_seq (no_skip b) (plainly E b') later es p = map_option (\<lambda>r. Ends r False) (ev_seq E es p)"
  by (induction es arbitrary: later p) (auto simp: plainly_def no_skip_def option.map_comp o_def split: option.split)

lemma plainly_alt: "full_alt (plainly E b) es p = map_option (\<lambda>r. Ends r False) (ev_alt E es p)"
  by (induction es) (auto simp: plainly_def split: option.split)

lemma plainly_loop:
  "full_loop n (no_skip b) (plainly E b' a) max_rep k p =
     map_option (\<lambda>(k, q). Some (k, q, False)) (ev_loop n (E a) max_rep k p)"
  by (induction n arbitrary: k p) (auto simp: plainly_def no_skip_def split: option.split)

lemma plainly_rep:
  "full_rep n (no_skip b) (plainly E b' a) min_rep max_rep p =
     map_option (\<lambda>r. Ends r False) (ev_rep n (E a) min_rep max_rep p)"
  by (auto simp: full_rep_def ev_rep_def plainly_loop split: option.split)

lemma plainly_step:
  "ev_step n G input E e p = Some r \<Longrightarrow> full_step n G input no_skip (plainly E) b e p = Some (Ends r False)"
  by (cases e)
     (auto simp: ev_step_def full_step_def plainly_seq plainly_alt plainly_rep,
      auto simp: plainly_def split: option.splits)

end
