(* ===== verification/Growth.thy ===== *)
theory Growth
  imports Termination
begin

text \<open>
  The growth of a rule's seed, with what its body does left open: \<open>B s\<close> is the result of the
  body when the rule's own entry holds \<open>s\<close>, \<open>J\<close> any property of the best result so far and the
  context that the runs of the body and the steps of the loop keep, and \<open>K\<close> a stronger one
  that holds once the body has run. The proofs of \<open>Packrat\<close>, \<open>Left_Recursion\<close>, \<open>Tree_Values\<close> and
  \<open>Error_Events\<close> are instances.
\<close>

subsection \<open>Results and entries\<close>

text \<open>What a memo entry says of its rule, and what a parse says of its expression.\<close>

definition entry_res :: "rule_state \<Rightarrow> nat option" where
  "entry_res st = (if success (m_cached_result st) then Some (m_last_pos st) else None)"

definition agrees :: "nat option \<Rightarrow> parse_result \<Rightarrow> 'c ctx \<Rightarrow> bool" where
  "agrees res r c = (case res of None \<Rightarrow> \<not> success r | Some q \<Rightarrow> success r \<and> m_position c = q)"

abbreviation no_throw :: "parse_error \<Rightarrow> 'c ctx \<Rightarrow> bool" where
  "no_throw \<equiv> (\<lambda>_ _. False)"

lemma post_conj: "post m P E \<Longrightarrow> post m Q F \<Longrightarrow> post m (\<lambda>a s. P a s \<and> Q a s) E"
  by (cases m) auto

subsection \<open>The errors recorded so far\<close>

definition report_of :: "'c ctx \<Rightarrow> bool \<times> nat \<times> expected_set \<times> diagnostic list" where
  "report_of c = (m_has_error c, m_furthest_failure_pos c, m_expected c, m_diagnostics c)"

lemma report_of_position [simp]: "report_of (c\<lparr>m_position := p\<rparr>) = report_of c"
  by (simp add: report_of_def)

lemma report_of_update [simp]: "report_of (snd (update_rule_state r p st c)) = report_of c"
  by (simp add: report_of_def update_rule_state_def split: option.split)

lemma report_of_rule_state [simp]: "report_of (snd (rule_state r p c)) = report_of c"
  by (simp add: report_of_def rule_state_def Let_def split: option.split)

lemma report_of_clear_siblings [simp]: "report_of (clear_siblings_at p r c) = report_of c"
  by (simp add: report_of_def clear_siblings_at_def split: option.split)

lemma report_of_last_pos [simp]: "report_of (set_frame_last_pos q c) = report_of c"
  by (simp add: report_of_def set_frame_last_pos_def split: list.split)

lemma report_of_stack [simp]: "report_of (c\<lparr>m_lr_stack := fs\<rparr>) = report_of c"
  by (simp add: report_of_def)

subsection \<open>The steps of the loop\<close>

text \<open>
  What the loop of the rule and position \<open>k\<close> itself does to a context between two runs of
  the body: it writes the entry of \<open>k\<close>, and it drops entries of rules that are not running.
\<close>

definition frame_step :: "rule_ref \<times> nat \<Rightarrow> 'c ctx \<Rightarrow> 'c ctx \<Rightarrow> bool" where
  "frame_step k c c' \<longleftrightarrow>
     m_node_arena c' = m_node_arena c \<and> m_input c' = m_input c \<and> m_cut c' = m_cut c \<and>
     m_skipper c' = m_skipper c \<and> m_skip_enabled c' = m_skip_enabled c \<and> frame_ids c' = frame_ids c \<and>
     report_of c' = report_of c \<and>
     (\<forall>r p. (r, p) \<noteq> k \<longrightarrow>
        memo_lookup r p c' = memo_lookup r p c \<or> memo_lookup r p c' = None \<and> (r, p) \<notin> set (frame_ids c)) \<and>
     (memo_lookup (fst k) (snd k) c \<noteq> None \<longrightarrow> memo_lookup (fst k) (snd k) c' \<noteq> None)"

lemma frame_step_position: "frame_step k c (c\<lparr>m_position := p\<rparr>)"
  by (simp add: frame_step_def frame_ids_def)

lemma clear_siblings_skipper [simp]: "m_skipper (clear_siblings_at p keep c) = m_skipper c"
  by (simp add: clear_siblings_at_def split: option.split)

lemma frame_step_clear: "frame_step (r, p) c (clear_siblings_at p r c)"
  by (auto simp: frame_step_def frame_ids_def memo_lookup_clear_siblings lr_in_progress_ids)

lemma frame_step_update: "frame_step (r, p) c (snd (update_rule_state r p st c))"
  by (auto simp: frame_step_def frame_ids_def memo_lookup_update)

lemma set_frame_last_pos_fields [simp]:
  "m_node_arena (set_frame_last_pos q c) = m_node_arena c" "m_input (set_frame_last_pos q c) = m_input c"
  "m_cut (set_frame_last_pos q c) = m_cut c" "m_skipper (set_frame_last_pos q c) = m_skipper c"
  "m_skip_enabled (set_frame_last_pos q c) = m_skip_enabled c"
  "memo_lookup r p (set_frame_last_pos q c) = memo_lookup r p c" "frame_ids (set_frame_last_pos q c) = frame_ids c"
  by (simp_all add: set_frame_last_pos_def frame_ids_def split: list.split)

lemma frame_ids_update [simp]: "frame_ids (snd (update_rule_state r p st c)) = frame_ids c"
  by (simp add: frame_ids_def)

lemma frame_step_plant: "frame_step (r, p) c (snd (update_rule_state r p st (set_frame_last_pos q c)))"
  by (auto simp: frame_step_def memo_lookup_update)

lemma frame_step_memo:
  "frame_step k c c' \<Longrightarrow> memo_lookup r p c' = Some st \<Longrightarrow> (r, p) \<noteq> k \<Longrightarrow> memo_lookup r p c = Some st"
  by (metis frame_step_def option.distinct(1))

lemma frame_step_running:
  "frame_step k c c' \<Longrightarrow> (r, p) \<in> set (frame_ids c) \<Longrightarrow> (r, p) \<noteq> k \<Longrightarrow> memo_lookup r p c' = memo_lookup r p c"
  by (metis frame_step_def)

subsection \<open>The sequence of results\<close>

text \<open>
  From the seed \<open>s\<close>, the body runs as long as it succeeds and ends after the result it started
  from. \<open>None\<close>: the fuel or \<open>B\<close> gave out.
\<close>

primrec grow :: "nat \<Rightarrow> (nat option \<Rightarrow> nat option option) \<Rightarrow> nat \<Rightarrow> nat option \<Rightarrow> nat option option" where
  "grow 0 B p s = None"
| "grow (Suc n) B p s =
     (case B s of
        None \<Rightarrow> None
      | Some None \<Rightarrow> Some s
      | Some (Some q) \<Rightarrow>
          if (case s of None \<Rightarrow> p | Some l \<Rightarrow> l) < q then grow n B p (Some q)
          else Some (if s = None then Some q else s))"

text \<open>What the loop returns.\<close>

definition grow_end :: "nat option \<Rightarrow> parse_result \<times> rule_state \<Rightarrow> bool" where
  "grow_end bres = (\<lambda>(best, st). case bres of
      None \<Rightarrow> \<not> success best
    | Some q \<Rightarrow> success best \<and> m_last_pos st = q)"

text \<open>The result of the body becomes the best one.\<close>

definition grows :: "rule_state \<Rightarrow> parse_result \<Rightarrow> 'c ctx \<Rightarrow> bool" where
  "grows st r c \<longleftrightarrow> success r \<and> (entry_res st = None \<or> m_last_pos st < m_position c)"

text \<open>The entry at the head of the loop, and where it came from.\<close>

definition grow_head :: "(nat option \<Rightarrow> nat option option) \<Rightarrow> nat \<Rightarrow> parse_result \<Rightarrow> rule_state \<Rightarrow> bool" where
  "grow_head B p best st \<longleftrightarrow> m_cached_result st = best \<and> (entry_res st = None \<longrightarrow> m_last_pos st = p) \<and>
     (entry_res st \<noteq> None \<longrightarrow> (\<exists>s. B s = Some (entry_res st)))"

text \<open>A body with one result stops growing there.\<close>

lemma grow_const: "grow 2 (\<lambda>_. Some bres) p None = Some bres"
  by (cases bres) (auto simp: numeral_2_eq_2)

lemma grow_const_stays:
  "grow_head (\<lambda>_. Some bres) p b st \<Longrightarrow> agrees bres r s \<Longrightarrow> grows st r s = (success r \<and> \<not> success b)"
  by (auto simp: grow_head_def grows_def agrees_def entry_res_def split: option.splits if_splits)

context child_parsers
begin

lemma grow_loop_keeps:
  assumes e: "wf_expr G e"
    and J_step: "\<And>b s s'. J b s \<Longrightarrow> wf_state G s' \<Longrightarrow> frame_step (rule, m_position c) s s' \<Longrightarrow> J b s'"
    and K_step: "\<And>b s s'. K b s \<Longrightarrow> wf_state G s' \<Longrightarrow> frame_step (rule, m_position c) s s' \<Longrightarrow> K b s'"
    and K_J: "\<And>b s. K b s \<Longrightarrow> J b s"
    and K_entry: "\<And>b s v. K b s \<Longrightarrow> memo_lookup rule (m_position c) s = None \<Longrightarrow> B v = B None"
    and J_body: "\<And>st b s re. J b s \<Longrightarrow> wf_state G s \<Longrightarrow> m_position s = m_position c \<Longrightarrow>
      (rule, m_position c) \<in> set (frame_ids s) \<Longrightarrow> memo_lookup rule (m_position c) s = Some st \<Longrightarrow>
      grow_head B (m_position c) b st \<Longrightarrow> B (entry_res st) = Some re \<Longrightarrow>
      yields t (run e s) (\<lambda>r s'. agrees re r s' \<and> K (if grows st r s' then r else b) s')"
    and "in_rule G c rule (m_last_pos st) c1" "tree_ok c1 (tree best)"
    and "memo_lookup rule (m_position c) c1 = Some st" and "grow_head B (m_position c) best st"
    and "grow m B (m_position c) (entry_res st) = Some res" and "J best c1" and "t \<longrightarrow> m \<le> n"
  shows "yields t (grow_loop n (run e) rule (m_position c) st best c1) (\<lambda>x c'. K (fst x) c' \<and> grow_end res x)"
  using assms(7-)
proof (induction n arbitrary: st best c1 m)
  case 0
  then show ?case by (cases m) simp_all
next
  case (Suc n)
  let ?p = "m_position c" and ?L = "m_last_pos st" and ?k = "(rule, m_position c)"
  let ?c1 = "c1\<lparr>m_position := ?p\<rparr>"
  have L: "?p \<le> ?L" "?L \<le> input_size c" and p: "?p \<le> input_size c"
    using Suc.prems(1) by (auto simp: in_rule_def)
  have r1: "reset ?p c1 = Ret () ?c1" and in1: "in_rule G c rule ?L ?c1"
    using in_rule_reset [OF Suc.prems(1) order_refl p] by auto
  obtain fr rest where fr: "m_lr_stack ?c1 = fr # rest" "fr_last_pos fr = ?L"
    using in_rule_with_frame [OF in1] by metis
  define c1' where "c1' = (if fr_is_head fr \<and> success best then clear_siblings_at ?p rule ?c1 else ?c1)"
  have in1': "in_rule G c rule ?L c1'"
    using in1 in_rule_clear_siblings [OF in1] by (simp add: c1'_def)
  have same1': "m_node_arena c1' = m_node_arena c1" "m_position c1' = ?p" "memo_lookup rule ?p c1' = Some st"
    using Suc.prems(3) by (simp_all add: c1'_def memo_lookup_clear_siblings)
  have "J best ?c1"
    by (rule J_step [OF Suc.prems(6) in_rule_wf [OF in1] frame_step_position])
  then have J1: "J best c1'"
    using J_step [OF _ in_rule_wf [OF in_rule_clear_siblings [OF in1]] frame_step_clear] by (simp add: c1'_def)
  have best: "m_cached_result st = best" "entry_res st = (if success best then Some ?L else None)"
      "\<not> success best \<Longrightarrow> ?L = ?p"
    using Suc.prems(4) by (auto simp: grow_head_def entry_res_def)
  obtain m' re where m: "m = Suc m'" and re: "B (entry_res st) = Some re"
    using Suc.prems(5) by (cases m; cases "B (entry_res st)") auto
  have last: "(case entry_res st of None \<Rightarrow> ?p | Some l \<Rightarrow> l) = ?L"
    using best by simp
  have next_res: "Some res = (case re of None \<Rightarrow> Some (entry_res st)
      | Some q \<Rightarrow> if ?L < q then grow m' B ?p (Some q) else Some (if entry_res st = None then Some q else entry_res st))"
    using Suc.prems(5) re last m by (cases re) (simp_all split: if_splits)
  have on_stack1: "?k \<in> set (frame_ids c1')"
    using in_rule_frame [OF in1'] by (force simp: frame_ids_def)
  have body: "yields t (run e c1') (\<lambda>r s. (agrees re r s \<and> K (if grows st r s then r else best) s) \<and> ret_rel G c1' r s)"
    by (rule yields_post [OF J_body [OF J1 in_rule_wf [OF in1'] same1'(2) on_stack1 same1'(3) Suc.prems(4) re]
      run_contract [OF e in_rule_wf [OF in1']]])
  have after: "yields t (with_frame (\<lambda>frame c2'.
           let end_pos = mark c2'
           in if success result then
                if end_pos > fr_last_pos frame then
                  let c3 = set_frame_last_pos end_pos c2';
                      st' = \<lparr>m_last_pos = end_pos, m_cached_result = result\<rparr>;
                      (ok, c4) = update_rule_state rule ?p st' c3
                  in if \<not> ok then Ret (result, st') c4
                     else grow_loop n (run e) rule ?p st' result c4
                else
                  let best' = (if \<not> success best then result else best);
                      st' = \<lparr>m_last_pos = fr_last_pos frame, m_cached_result = best'\<rparr>
                  in Ret (best', st') (snd (update_rule_state rule ?p st' c2'))
              else Ret (best, st) c2') c2) (\<lambda>x c'. K (fst x) c' \<and> grow_end res x)"
    if g: "(agrees re result c2 \<and> K (if grows st result c2 then result else best) c2) \<and> ret_rel G c1' result c2" for result c2
  proof -
    have step: "step_rel G c1' c2" and tree: "tree_ok c2 (tree result)" and re2: "agrees re result c2"
      and K2: "K (if grows st result c2 then result else best) c2"
      using g by (auto simp: ret_rel_def)
    have in2: "in_rule G c rule ?L c2"
      by (rule in_rule_step [OF in1' step])
    have tree_b: "tree_ok c2 (tree best)"
      using Suc.prems(2) step_rel_arena [OF step] same1' by (auto intro: tree_ok_arena)
    have q: "?p \<le> m_position c2" "m_position c2 \<le> input_size c"
      using in2 wf_state_pos [OF in_rule_wf [OF in2]] in_rule_size [OF in2] by (auto simp: in_rule_def)
    obtain fr2 rest2 where fr2: "m_lr_stack c2 = fr2 # rest2" "fr_last_pos fr2 = ?L"
      using in_rule_frame [OF in2] by metis
    let ?c3 = "set_frame_last_pos (m_position c2) c2"
    let ?st = "\<lparr>m_last_pos = m_position c2, m_cached_result = result\<rparr>"
    let ?c4 = "snd (update_rule_state rule ?p ?st ?c3)"
    let ?best = "if \<not> success best then result else best"
    let ?st2 = "\<lparr>m_last_pos = ?L, m_cached_result = ?best\<rparr>"
    let ?c5 = "snd (update_rule_state rule ?p ?st2 c2)"
    show ?thesis
    proof (cases "success result")
      case False
      then have "re = None" using re2 by (cases re) (auto simp: agrees_def)
      then have "res = entry_res st" using next_res by simp
      then have "grow_end res (best, st)" using best(2) by (simp add: grow_end_def)
      then show ?thesis
        using False K2 fr2 by (simp add: with_frame_def Let_def grows_def)
    next
      case ok: True
      then have re: "re = Some (m_position c2)" using re2 by (cases re) (auto simp: agrees_def)
      show ?thesis
      proof (cases "?L < m_position c2")
        case grew: True
        have in4: "in_rule G c rule (m_position c2) ?c4"
          using ok tree q by (intro in_rule_update [OF in_rule_plant [OF in2 q]] entry_ok_tree [where c = c2]) auto
        have upd: "fst (update_rule_state rule ?p ?st ?c3) \<longleftrightarrow> memo_lookup rule ?p c2 \<noteq> None"
          by (simp add: update_rule_state_fst)
        have head: "grow_head B ?p result ?st"
          using Suc.prems ok re \<open>B (entry_res st) = Some re\<close> by (auto simp: grow_head_def entry_res_def)
        have "K result c2" using K2 ok grew by (simp add: grows_def)
        then have K4: "K result ?c4"
          by (rule K_step [OF _ in_rule_wf [OF in4] frame_step_plant])
        have J4: "J result ?c4" by (rule K_J [OF K4])
        have grow: "grow m' B ?p (entry_res ?st) = Some res"
          using next_res re grew ok by (simp add: entry_res_def)
        show ?thesis
        proof (cases "memo_lookup rule ?p c2 = None")
          case True
          have "B (Some (m_position c2)) = Some re"
            using K_entry [OF K2 True] re2 \<open>B (entry_res st) = Some re\<close> by metis
          then have "res = Some (m_position c2)"
            using grow ok re by (cases m') (auto simp: entry_res_def)
          then show ?thesis
            using True ok grew fr2 upd K4
            by (cases "update_rule_state rule ?p ?st ?c3") (simp add: with_frame_def Let_def mark_def grow_end_def)
        next
          case False
          have "yields t (grow_loop n (run e) rule ?p ?st result ?c4) (\<lambda>x c'. K (fst x) c' \<and> grow_end res x)"
            using tree False Suc.prems(7) m
            by (intro Suc.IH [OF _ _ _ head grow J4]) (auto simp: in4 memo_lookup_update intro: tree_ok_arena)
          then show ?thesis
            using False ok grew fr2 upd
            by (cases "update_rule_state rule ?p ?st ?c3") (simp add: with_frame_def Let_def mark_def)
        qed
      next
        case stays: False
        have in5: "in_rule G c rule ?L ?c5"
          using ok tree tree_b L by (intro in_rule_update [OF in2] entry_ok_tree [where c = c2]) auto
        have "(if grows st result c2 then result else best) = ?best"
          using ok stays best(2) by (simp add: grows_def)
        then have K5: "K ?best ?c5"
          using K_step [OF K2 in_rule_wf [OF in5] frame_step_update] by simp
        have "res = (if entry_res st = None then Some (m_position c2) else entry_res st)"
          using next_res re stays by simp
        then have "grow_end res (?best, ?st2)"
          using best ok stays q by (auto simp: grow_end_def)
        then show ?thesis
          using ok stays fr2 K5 by (simp add: with_frame_def Let_def mark_def)
      qed
    qed
  qed
  show ?case
    unfolding grow_loop.simps r1 bind_o.simps with_frame_def [of _ ?c1] fr(1) list.case
      c1'_def [symmetric]
    by (rule yields_bindI [OF body], rule after)
qed

end

subsection \<open>Entering and leaving a rule\<close>

text \<open>The context in which the growth of a rule that has no entry starts.\<close>

definition entered :: "rule_ref \<Rightarrow> 'c ctx \<Rightarrow> 'c ctx" where
  "entered rule c =
     snd (update_rule_state rule (m_position c) (seed (m_position c)) (set_frame_last_pos (m_position c)
       (lr_push \<lparr>fr_rule = rule, fr_pos = m_position c, fr_last_pos = m_position c, fr_is_head = False\<rparr>
          (snd (rule_state rule (m_position c) c)))))"

lemma entered_fields [simp]:
  "m_input (entered rule c) = m_input c" "m_cut (entered rule c) = m_cut c" "m_skipper (entered rule c) = m_skipper c"
  "m_skip_enabled (entered rule c) = m_skip_enabled c" "m_position (entered rule c) = m_position c"
  "m_node_arena (entered rule c) = m_node_arena c" "frame_ids (entered rule c) = (rule, m_position c) # frame_ids c"
  "report_of (entered rule c) = report_of c"
  by (simp_all add: entered_def lr_push_def) (simp_all add: frame_ids_def set_frame_last_pos_def)

lemma entered_lookup:
  "memo_lookup r p (entered rule c) =
     (if (r, p) = (rule, m_position c) then Some (seed p) else memo_lookup r p c)"
  by (auto simp: entered_def lr_push_def memo_lookup_update memo_lookup_rule_state)

lemma entered_in_rule: "wf_state G c \<Longrightarrow> in_rule G c rule (m_last_pos (seed (m_position c))) (entered rule c)"
  using in_rule_enter [of G c rule False] by (simp add: entered_def seed_def)

text \<open>\<open>same_but_stack\<close>: the context \<open>s\<close> after the rule left the stack.\<close>

definition same_but_stack :: "rule_ref \<times> nat \<Rightarrow> 'c ctx \<Rightarrow> 'c ctx \<Rightarrow> bool" where
  "same_but_stack k s c4 \<longleftrightarrow> m_node_arena c4 = m_node_arena s \<and> m_mem c4 = m_mem s \<and>
     m_input c4 = m_input s \<and> m_cut c4 = m_cut s \<and> m_skipper c4 = m_skipper s \<and>
     report_of c4 = report_of s \<and> frame_ids s = k # frame_ids c4"

text \<open>The state in which a rule's node is built; its own entry is still provisional.\<close>

definition rule_left ::
  "('c, 'v) grammar \<Rightarrow> 'c ctx \<Rightarrow> nat option \<Rightarrow> parse_result \<Rightarrow> rule_state \<Rightarrow> 'c ctx \<Rightarrow> bool" where
  "rule_left G c res inner st c4 \<longleftrightarrow>
     step_rel G c c4 \<and> m_position c4 = m_last_pos st \<and> tree_ok c4 (tree inner) \<and> grow_end res (inner, st) \<and>
     m_position c \<le> m_last_pos st \<and> (\<not> success inner \<longrightarrow> m_last_pos st = m_position c)"

context child_parsers
begin

lemma parse_impl_keeps:
  assumes e: "wf_expr G e" and wf: "wf_state G c"
    and J_step: "\<And>b s s'. J b s \<Longrightarrow> wf_state G s' \<Longrightarrow> frame_step (rule, m_position c) s s' \<Longrightarrow> J b s'"
    and K_step: "\<And>b s s'. K b s \<Longrightarrow> wf_state G s' \<Longrightarrow> frame_step (rule, m_position c) s s' \<Longrightarrow> K b s'"
    and K_J: "\<And>b s. K b s \<Longrightarrow> J b s"
    and K_entry: "\<And>b s v. K b s \<Longrightarrow> memo_lookup rule (m_position c) s = None \<Longrightarrow> B v = B None"
    and J_body: "\<And>st b s re. J b s \<Longrightarrow> wf_state G s \<Longrightarrow> m_position s = m_position c \<Longrightarrow>
      (rule, m_position c) \<in> set (frame_ids s) \<Longrightarrow> memo_lookup rule (m_position c) s = Some st \<Longrightarrow>
      grow_head B (m_position c) b st \<Longrightarrow> B (entry_res st) = Some re \<Longrightarrow>
      yields t (run e s) (\<lambda>r s'. agrees re r s' \<and> K (if grows st r s' then r else b) s')"
    and J_enter: "J null_result (entered rule c)"
    and res: "grow m B (m_position c) None = Some res" and n: "t \<longrightarrow> m \<le> n"
  shows "yields t (parse_impl n (run e) rule (m_position c)
      (lr_push \<lparr>fr_rule = rule, fr_pos = m_position c, fr_last_pos = m_position c, fr_is_head = False\<rparr>
          (snd (rule_state rule (m_position c) c))))
    (\<lambda>x s. K (fst x) s \<and> grow_end res x)"
proof -
  let ?p = "m_position c"
  have in2: "in_rule G c rule (m_last_pos (seed ?p)) (entered rule c)"
    by (rule entered_in_rule [OF wf])
  have seed: "tree_ok (entered rule c) (tree null_result)" "success null_result \<or> m_last_pos (seed ?p) = ?p"
    by (simp_all add: seed_def null_result_def)
  have grow: "yields t (grow_loop n (run e) rule ?p (seed ?p) null_result (entered rule c))
      (\<lambda>x s. K (fst x) s \<and> grow_end res x)"
    by (rule grow_loop_keeps [where J = J and K = K and B = B and m = m, OF e J_step K_step K_J K_entry J_body in2 seed(1)])
      (use res n J_enter in \<open>simp_all add: entered_lookup grow_head_def seed_def entry_res_def null_result_def\<close>)
  show ?thesis
    unfolding parse_impl_def Let_def seed_def [symmetric] entered_def [symmetric]
  proof (rule yields_bindI [OF yields_post [OF grow grow_loop_contract [OF e in2 seed]]])
    fix x s assume x: "(K (fst x) s \<and> grow_end res x) \<and> grown G c rule x s"
    obtain best st where [simp]: "x = (best, st)" by (cases x)
    have s: "in_rule G c rule (m_last_pos st) s" using x by (simp add: grown_def)
    obtain fr rest where fr: "m_lr_stack s = fr # rest" "fr_last_pos fr = m_last_pos st"
      using in_rule_with_frame [OF s] by metis
    have L: "m_position c \<le> m_last_pos st" "m_last_pos st \<le> input_size c"
      using s by (simp_all add: in_rule_def)
    have r: "reset (m_last_pos st) s = Ret () (s\<lparr>m_position := m_last_pos st\<rparr>)"
        "wf_state G (s\<lparr>m_position := m_last_pos st\<rparr>)"
      using in_rule_reset [OF s L] in_rule_wf by auto
    show "yields t ((case x of (best, st') \<Rightarrow> with_frame (\<lambda>frame c4.
         bind_o (reset (fr_last_pos frame) c4) (\<lambda>_. Ret (best, st')))) s)
       (\<lambda>x s. K (fst x) s \<and> grow_end res x)"
      using x fr r K_step [OF _ r(2) frame_step_position] by (auto simp: with_frame_def)
  qed
qed

lemma parse_fresh_after:
  assumes nt: "lookup_rule G rule = Some nt" "m_rule nt = Some e" and wf: "wf_state G c"
    and J_step: "\<And>b s s'. J b s \<Longrightarrow> wf_state G s' \<Longrightarrow> frame_step (rule, m_position c) s s' \<Longrightarrow> J b s'"
    and K_step: "\<And>b s s'. K b s \<Longrightarrow> wf_state G s' \<Longrightarrow> frame_step (rule, m_position c) s s' \<Longrightarrow> K b s'"
    and K_J: "\<And>b s. K b s \<Longrightarrow> J b s"
    and K_entry: "\<And>b s v. K b s \<Longrightarrow> memo_lookup rule (m_position c) s = None \<Longrightarrow> B v = B None"
    and J_body: "\<And>st b s re. J b s \<Longrightarrow> wf_state G s \<Longrightarrow> m_position s = m_position c \<Longrightarrow>
      (rule, m_position c) \<in> set (frame_ids s) \<Longrightarrow> memo_lookup rule (m_position c) s = Some st \<Longrightarrow>
      grow_head B (m_position c) b st \<Longrightarrow> B (entry_res st) = Some re \<Longrightarrow>
      yields t (run e s) (\<lambda>r s'. agrees re r s' \<and> K (if grows st r s' then r else b) s')"
    and J_enter: "J null_result (entered rule c)"
    and res: "grow m B (m_position c) None = Some res" and n: "t \<longrightarrow> m \<le> n"
    and J_leave: "\<And>inner st s c4. K inner s \<Longrightarrow> same_but_stack (rule, m_position c) s c4 \<Longrightarrow>
      rule_left G c res inner st c4 \<Longrightarrow>
      yields t (if \<not> success inner then rule_failed nt rule (m_position c) st c4
            else rule_matched nt rule (m_position c) st inner c4) Q"
  shows "yields t (parse_fresh n run nt rule (m_position c) (snd (rule_state rule (m_position c) c))) Q"
proof -
  let ?p = "m_position c"
  have wfe: "wf_expr G e"
    using wf wf_grammar_body [OF _ nt] by (simp add: wf_state_def)
  have depth: "length (m_lr_stack (snd (rule_state rule ?p c))) = length (m_lr_stack c)"
    by simp
  note impl = parse_impl_keeps [where J = J and K = K, OF wfe wf J_step K_step K_J K_entry J_body J_enter res n]
  show ?thesis
    unfolding parse_fresh_def Let_def nt(2) option.case depth
  proof (rule yields_bindI [OF yields_post [OF impl parse_impl_contract [OF wfe wf]]])
    fix x s assume x: "(K (fst x) s \<and> grow_end res x) \<and> grown G c rule x s \<and> m_position s = m_last_pos (snd x)"
    obtain inner st where [simp]: "x = (inner, st)" by (cases x)
    from x have g: "in_rule G c rule (m_last_pos st) s" "tree_ok s (tree inner)"
        "success inner \<or> m_last_pos st = ?p" "m_position s = m_last_pos st"
      by (auto simp: grown_def)
    obtain fr c3 where pop: "lr_pop (length (m_lr_stack c)) s = Some (fr, c3)"
      and c3: "step_rel G c c3" "step_rel G c (clear_growing_head ?p c3)"
        "m_position c3 = m_last_pos st" "m_node_arena c3 = m_node_arena s"
      using pop_frame [OF g(1,4)] by metis
    obtain fr' rest where fr': "m_lr_stack s = fr' # rest" "fr_rule fr' = rule" "fr_pos fr' = ?p"
      using in_rule_frame [OF g(1)] by metis
    have same3: "c3 = s\<lparr>m_lr_stack := rest\<rparr>"
      using fr' pop by (auto simp: lr_pop_def split: if_splits)
    let ?c4 = "if fr_is_head fr then clear_growing_head ?p c3 else c3"
    have "rule_left G c res inner st ?c4"
      using c3 g x by (auto simp: rule_left_def in_rule_def clear_growing_head_def intro: tree_ok_arena)
    moreover have "same_but_stack (rule, ?p) s ?c4"
      using fr' by (simp add: same_but_stack_def same3 frame_ids_def clear_growing_head_def report_of_def)
    ultimately have "yields t (if \<not> success inner then rule_failed nt rule ?p st ?c4
        else rule_matched nt rule ?p st inner ?c4) Q"
      using x by (intro J_leave [of inner s]) simp_all
    then show "yields t ((case x of (inner, st) \<Rightarrow> (\<lambda>c2. case lr_pop (length (m_lr_stack c)) c2 of None \<Rightarrow> Fault
          | Some (frame, c3) \<Rightarrow>
              if \<not> success inner then rule_failed nt rule ?p st
                (if fr_is_head frame then clear_growing_head ?p c3 else c3)
              else rule_matched nt rule ?p st inner
                (if fr_is_head frame then clear_growing_head ?p c3 else c3))) s) Q"
      using pop by simp
  qed
qed

text \<open>The common case: one property throughout.\<close>

lemma parse_fresh_keeps:
  assumes nt: "lookup_rule G rule = Some nt" "m_rule nt = Some e" and wf: "wf_state G c"
    and J_step: "\<And>b s s'. J b s \<Longrightarrow> wf_state G s' \<Longrightarrow> frame_step (rule, m_position c) s s' \<Longrightarrow> J b s'"
    and J_entry: "\<And>b s v. J b s \<Longrightarrow> memo_lookup rule (m_position c) s = None \<Longrightarrow> B v = B None"
    and J_body: "\<And>st b s re. J b s \<Longrightarrow> wf_state G s \<Longrightarrow> m_position s = m_position c \<Longrightarrow>
      (rule, m_position c) \<in> set (frame_ids s) \<Longrightarrow> memo_lookup rule (m_position c) s = Some st \<Longrightarrow>
      grow_head B (m_position c) b st \<Longrightarrow> B (entry_res st) = Some re \<Longrightarrow>
      yields t (run e s) (\<lambda>r s'. agrees re r s' \<and> J (if grows st r s' then r else b) s')"
    and J_enter: "J null_result (entered rule c)"
    and res: "grow m B (m_position c) None = Some res" and n: "t \<longrightarrow> m \<le> n"
    and J_leave: "\<And>inner st s c4. J inner s \<Longrightarrow> same_but_stack (rule, m_position c) s c4 \<Longrightarrow>
      rule_left G c res inner st c4 \<Longrightarrow>
      yields t (if \<not> success inner then rule_failed nt rule (m_position c) st c4
            else rule_matched nt rule (m_position c) st inner c4) Q"
  shows "yields t (parse_fresh n run nt rule (m_position c) (snd (rule_state rule (m_position c) c))) Q"
  by (rule parse_fresh_after [where J = J and K = J, OF nt wf J_step J_step _ J_entry J_body J_enter res n J_leave])

text \<open>A body that throws is run once.\<close>

lemma parse_fresh_throws:
  assumes nt: "m_rule nt = Some e" and wf: "wf_state G c" and n: "t \<longrightarrow> 0 < n"
    and throws: "throws t (run e (entered rule c))"
  shows "throws t (parse_fresh n run nt rule (m_position c) (snd (rule_state rule (m_position c) c)))"
proof -
  have in1: "in_rule G c rule (m_last_pos (seed (m_position c))) (entered rule c)"
    by (rule entered_in_rule [OF wf])
  have r: "reset (m_position c) (entered rule c) = Ret () (entered rule c)"
    using in_rule_size [OF in1] wf_state_pos [OF wf] by (simp add: reset_def input_size_def)
  obtain fr rest where fr: "m_lr_stack (entered rule c) = fr # rest"
    using in_rule_frame [OF in1] by metis
  have "throws t (grow_loop n (run e) rule (m_position c) (seed (m_position c)) null_result (entered rule c))"
    using n throws fr r by (cases n) (auto simp: with_frame_def null_result_def intro!: throws_bindI)
  then show ?thesis
    unfolding parse_fresh_def Let_def nt option.case parse_impl_def seed_def [symmetric] entered_def [symmetric]
    by (intro throws_bindI)
qed

end

end
