(* ===== verification/Agreement.thy ===== *)
theory Agreement
  imports Reference Growth
begin

text \<open>
  What it takes for the engine to agree with a semantics: given children that agree with an
  evaluator \<open>E\<close> and a skipper that agrees with \<open>K\<close>, and keep an invariant \<open>I\<close>, the composite
  expressions do. \<open>E\<close>, \<open>K\<close> and \<open>I\<close> are parameters of a locale, so that one proof serves the
  recogniser, the one that grows seeds, and the semantics with cuts and skipping. The flag \<open>t\<close>
  says whether the engine is shown to have enough fuel too. Then the invariant the first two
  have in common: every entry of the memo that is not provisional is what the recogniser says.
\<close>

subsection \<open>Leaves\<close>

lemma rets_to_post: "rets m P \<Longrightarrow> post m Q E \<Longrightarrow> post m (\<lambda>a s. P a s \<and> Q a s) (\<lambda>_ _. False)"
  by (cases m) auto

lemma try_symbol_ev:
  assumes "wf_terminal ops v"
  shows "try_symbol ops v c = Some (ev_symbol ops (m_input c) v (m_position c) \<noteq> None)"
proof -
  obtain b where "symbol_consumable ops (m_input c ! m_position c) v = Some b"
    using assms by (cases v) auto
  then show ?thesis
    by (auto simp: try_symbol_def ev_symbol_def ended_def current_def input_size_def)
qed

lemma terminal_agrees:
  "wf_terminal ops v \<Longrightarrow>
   post (terminal_parse ops v c) (agrees (ev_symbol ops (m_input c) v (m_position c))) E"
  using try_symbol_ev [of ops v c]
  by (auto simp: terminal_parse_def agrees_def ok_result_def null_result_def next_pos_def
      ev_symbol_def input_size_def split: if_splits)

lemma token_agrees:
  "wf_terminal ops v \<Longrightarrow>
   post (token_parse ops v c) (agrees (ev_symbol ops (m_input c) v (m_position c))) E"
  using try_symbol_ev [of ops v c]
  by (auto simp: token_parse_def agrees_def ok_result_def null_result_def next_pos_def
      ev_symbol_def input_size_def make_node_def split: if_splits)

lemma take_drop_Cons:
  "take (Suc n) (drop p xs) = v # vs \<longleftrightarrow> p < length xs \<and> xs ! p = v \<and> take n (drop (Suc p) xs) = vs"
  by (cases "p < length xs") (auto simp flip: Cons_nth_drop_Suc)

lemma terminal_seq_agrees:
  "post (terminal_seq_loop ops all_vs init vs c)
     (agrees (if take (length vs) (drop (m_position c) (m_input c)) = vs
              then Some (m_position c + length vs) else None)) E"
proof (induction vs arbitrary: c)
  case Nil
  then show ?case by (simp add: agrees_def ok_result_def)
next
  case (Cons v vs)
  have t: "try_symbol ops (TValue v) c = Some (m_position c < length (m_input c) \<and> m_input c ! m_position c = v)"
    using try_symbol_ev [of ops "TValue v" c] by (auto simp: ev_symbol_def)
  show ?case
  proof (cases "m_position c < length (m_input c) \<and> m_input c ! m_position c = v")
    case True
    then have "m_position (next_pos c) = Suc (m_position c)" "m_input (next_pos c) = m_input c"
      by (simp_all add: next_pos_def input_size_def)
    then show ?thesis
      using Cons.IH [of "next_pos c"] t True by (auto simp: take_drop_Cons split: if_splits)
  next
    case False
    then show ?thesis
      using t by (auto simp: take_drop_Cons agrees_def null_result_def Let_def)
  qed
qed

lemma matcher_agrees:
  assumes "matcher_ok fn" "m_position c \<le> input_size c"
  shows "post (matcher_parse fn c)
     (agrees (map_option sp_end (fn (m_input c) (Span (m_position c) (m_position c))))) E"
proof (cases "fn (m_input c) (Span (m_position c) (m_position c))")
  case None
  then show ?thesis by (simp add: matcher_parse_def mark_def agrees_def null_result_def)
next
  case (Some sp)
  then have "sp_end sp \<le> input_size c"
    using assms by (auto simp: matcher_ok_def input_size_def)
  with Some show ?thesis
    by (simp add: matcher_parse_def mark_def Let_def reset_def make_node_def agrees_def ok_result_def)
qed

text \<open>Leaves leave the cut scopes alone.\<close>

lemma record_failure_cut [simp]: "m_cut (record_failure_lazy p f c) = m_cut c"
  by (simp add: record_failure_lazy_def)

lemma terminal_cut: "terminal_parse ops v c = Ret r c' \<Longrightarrow> m_cut c' = m_cut c"
  by (auto simp: terminal_parse_def next_pos_def record_terminal_expected_def split: option.splits bool.splits)

lemma token_cut: "token_parse ops v c = Ret r c' \<Longrightarrow> m_cut c' = m_cut c"
  by (auto simp: token_parse_def next_pos_def make_node_def upd_node_def record_terminal_expected_def
      split: option.splits bool.splits)

lemma terminal_seq_cut: "terminal_seq_loop ops all_vs init vs c = Ret r c' \<Longrightarrow> m_cut c' = m_cut c"
  by (induction vs arbitrary: c) (auto simp: next_pos_def set_state_def Let_def split: option.splits bool.splits if_splits)

lemma matcher_cut: "matcher_parse fn c = Ret r c' \<Longrightarrow> m_cut c' = m_cut c"
  by (auto simp: matcher_parse_def reset_def make_node_def upd_node_def Let_def split: option.splits if_splits)

subsection \<open>What an outcome has to show\<close>

definition skips :: "'c ctx \<Rightarrow> bool" where
  "skips c \<longleftrightarrow> m_skip_enabled c \<and> m_skipper c \<noteq> None"

text \<open>The flag of the innermost scope, if there is one, after a step that may have committed it.\<close>

definition cut_after :: "'c ctx \<Rightarrow> bool \<Rightarrow> bool" where
  "cut_after c k \<longleftrightarrow> m_cut c \<noteq> [] \<and> (get_cut c \<or> k)"

definition meets ::
  "bool \<Rightarrow> (nat option \<Rightarrow> 'a \<Rightarrow> 'c ctx \<Rightarrow> bool) \<Rightarrow> ('c ctx \<Rightarrow> bool) \<Rightarrow> 'c ctx \<Rightarrow> cut_result \<Rightarrow> ('c, 'a) parse_outcome \<Rightarrow> bool" where
  "meets t P I c v m = (case v of
      Aborts \<Rightarrow> throws t m
    | Ends res k \<Rightarrow> yields t m (\<lambda>a c'. P res a c' \<and> I c' \<and> get_cut c' = cut_after c k))"

lemma meets_simps [simp]:
  "meets t P I c Aborts m = throws t m"
  "meets t P I c (Ends res k) m = yields t m (\<lambda>a c'. P res a c' \<and> I c' \<and> get_cut c' = cut_after c k)"
  by (simp_all add: meets_def)

lemma meets_bind:
  "yields t m Q \<Longrightarrow> (\<And>a s. Q a s \<Longrightarrow> meets t P I c v (f a s)) \<Longrightarrow> meets t P I c v (bind_o m f)"
  by (cases v) (auto intro: throws_bind yields_bindI)

lemma cut_after_False [simp]: "cut_after c False = get_cut c"
  by (cases "m_cut c") (auto simp: cut_after_def get_cut_def)

lemma get_cut_cong: "m_cut c' = m_cut c \<Longrightarrow> get_cut c' = get_cut c"
  by (simp add: get_cut_def)

lemma cut_after_cong: "m_cut c' = m_cut c \<Longrightarrow> cut_after c' k = cut_after c k"
  by (simp add: cut_after_def get_cut_def)

lemma get_cut_same [simp]:
  "get_cut (upd_node i f c) = get_cut c" "get_cut (push_child i t c) = get_cut c" "get_cut (set_state p c) = get_cut c"
  "get_cut (c\<lparr>m_position := p\<rparr>) = get_cut c" "get_cut (set_skip_enabled b c) = get_cut c"
  by (auto simp: get_cut_def push_child_def set_state_def set_skip_enabled_def upd_node_def split: option.split)

lemma meets_or_cut:
  "meets t P I c' v m \<Longrightarrow> get_cut c' = cut_after c k \<Longrightarrow> m_cut c' = [] \<longleftrightarrow> m_cut c = [] \<Longrightarrow> meets t P I c (or_cut k v) m"
  by (cases v) (auto simp: cut_after_def elim!: yields_mono)

lemma meets_mono: "meets t P I c v m \<Longrightarrow> (\<And>c. I c \<Longrightarrow> J c) \<Longrightarrow> meets t P J c v m"
  by (cases v) (auto elim!: yields_mono)

lemma meets_less: "meets t P I c v m \<Longrightarrow> (t' \<Longrightarrow> t) \<Longrightarrow> meets t' P I c v m"
  by (cases v; cases m) auto

lemma meets_same:
  "meets t P I c' v m \<Longrightarrow> get_cut c' = get_cut c \<Longrightarrow> m_cut c' = [] \<longleftrightarrow> m_cut c = [] \<Longrightarrow> meets t P I c v m"
  by (cases v) (auto simp: cut_after_def elim!: yields_mono)

text \<open>What a step leaves as it was.\<close>

lemma step_input: "step_rel G c c' \<Longrightarrow> m_input c' = m_input c"
  by (simp add: step_rel_def same_env_def)

lemma step_skips: "step_rel G c c' \<Longrightarrow> skips c' = skips c"
  by (simp add: step_rel_def same_env_def skips_def)

lemma step_cut_empty: "step_rel G c c' \<Longrightarrow> m_cut c' = [] \<longleftrightarrow> m_cut c = []"
  by (auto simp: step_rel_def same_env_def simp flip: length_0_conv)

lemma step_frame_ids: "step_rel G c c' \<Longrightarrow> frame_ids c' = frame_ids c"
  by (rule frame_ids_keys) (simp add: step_rel_def)

lemmas step_same = step_input step_skips step_cut_empty

lemma init_cut_fields [simp]:
  "m_input (init_cut c) = m_input c" "m_position (init_cut c) = m_position c" "skips (init_cut c) = skips c"
  "\<not> get_cut (init_cut c)" "m_cut (init_cut c) \<noteq> []"
  by (simp_all add: init_cut_def skips_def get_cut_def)

text \<open>The result of a sequence's loop.\<close>

definition agrees_ok :: "nat option \<Rightarrow> bool \<Rightarrow> 'c ctx \<Rightarrow> bool" where
  "agrees_ok res ok c \<longleftrightarrow> ok = (res \<noteq> None) \<and> (\<forall>q. res = Some q \<longrightarrow> m_position c = q)"

text \<open>The result of a repetition's loop; the flag of its scope matters only when an iteration failed.\<close>

definition agrees_loop :: "nat \<times> nat \<times> bool \<Rightarrow> nat \<times> nat \<times> bool \<Rightarrow> 'c ctx \<Rightarrow> bool" where
  "agrees_loop = (\<lambda>(k, q, committed) (count, lpos, failed) c. count = k \<and> lpos = q \<and>
     (if failed then get_cut c = committed else m_position c = q \<and> \<not> committed))"

lemma agrees_loop_simps [simp]:
  "agrees_loop (k, q, committed) (count, lpos, True) c \<longleftrightarrow> count = k \<and> lpos = q \<and> get_cut c = committed"
  "agrees_loop (k, q, committed) (count, lpos, False) c \<longleftrightarrow> count = k \<and> lpos = q \<and> m_position c = q \<and> \<not> committed"
  by (auto simp: agrees_loop_def)

subsection \<open>The composite expressions\<close>

locale meeting_parsers = child_parsers G run skip + quiet_invariant I
  for G :: "('c, 'v) grammar"
    and run :: "'c expr \<Rightarrow> 'c parser"
    and skip :: "'c ctx \<Rightarrow> ('c, unit) parse_outcome"
    and I :: "'c ctx \<Rightarrow> bool" +
  fixes t :: bool
    and W :: "bool \<Rightarrow> 'c expr \<Rightarrow> bool"
    and E :: "'c list \<Rightarrow> bool \<Rightarrow> 'c expr \<Rightarrow> nat \<Rightarrow> full_result"
    and K :: "'c list \<Rightarrow> bool \<Rightarrow> nat \<Rightarrow> skip_result"
  assumes W_wf: "W b e \<Longrightarrow> wf_expr G e"
    and W_subs: "W b e \<Longrightarrow> list_all (W (inner_mode b e)) (subs e)"
    and I_wf: "I c \<Longrightarrow> wf_state G c"
    and I_commit: "I c \<Longrightarrow> get_cut c \<Longrightarrow> rets (remove_cut c) (\<lambda>_. I)"
    and run_meets: "W (skips c) e \<Longrightarrow> I c \<Longrightarrow> E (m_input c) (skips c) e (m_position c) = Some v \<Longrightarrow>
      meets t agrees I c v (run e c)"
    and skip_meets: "I c \<Longrightarrow> K (m_input c) (skips c) (m_position c) = Some s \<Longrightarrow>
      (case s of None \<Rightarrow> throws t (skip c)
       | Some q \<Rightarrow> yields t (skip c) (\<lambda>_ c'. I c' \<and> m_position c' = q \<and> get_cut c' = get_cut c))"
begin

abbreviation "Ec c \<equiv> E (m_input c) (skips c)"
abbreviation "Kc c \<equiv> K (m_input c) (skips c)"

lemma W_wf_list: "list_all (W b) es \<Longrightarrow> list_all (wf_expr G) es"
  by (rule list.pred_mono_strong [OF _ W_wf])

lemma run_yields:
  assumes "W (skips c) e" "I c" "Ec c e (m_position c) = Some (Ends res k)"
  shows "yields t (run e c) (\<lambda>r c'. (agrees res r c' \<and> I c' \<and> get_cut c' = cut_after c k) \<and> ret_rel G c r c')"
  using yields_post [OF run_meets [OF assms, simplified] run_contract [OF W_wf [OF assms(1)] I_wf [OF assms(2)]]] .

lemma run_aborts: "W (skips c) e \<Longrightarrow> I c \<Longrightarrow> Ec c e (m_position c) = Some Aborts \<Longrightarrow> throws t (run e c)"
  using run_meets [of c e Aborts] by simp

lemma skip_yields:
  assumes "I c" "(if b then Kc c (m_position c) else Some (Some (m_position c))) = Some (Some q)"
  shows "yields t (if b then skip c else Ret () c)
    (\<lambda>_ c'. (I c' \<and> m_position c' = q \<and> get_cut c' = get_cut c) \<and> step_rel G c c')"
proof -
  have "yields t (if b then skip c else Ret () c) (\<lambda>_ c'. I c' \<and> m_position c' = q \<and> get_cut c' = get_cut c)"
    using assms skip_meets [of c "Some q"] by (cases b) auto
  then show ?thesis by (rule yields_post [OF _ optional_skip [OF I_wf [OF assms(1)]]])
qed

lemma skip_aborts:
  "I c \<Longrightarrow> (if b then Kc c (m_position c) else Some (Some (m_position c))) = Some None \<Longrightarrow>
   throws t (if b then skip c else Ret () c)"
  using skip_meets [of c None] by (cases b) auto

lemma parse_seq_meets:
  assumes "list_all (W (skips c)) es" "I c" "full_seq (Kc c) (Ec c) (i > 0) es (m_position c) = Some v"
  shows "meets t agrees_ok I c v (parse_seq run skip node i es c)"
  using assms
proof (induction es arbitrary: i c v)
  case Nil
  then show ?case by (auto simp: agrees_ok_def)
next
  case (Cons e es)
  obtain s where s: "(if i > 0 then Kc c (m_position c) else Some (Some (m_position c))) = Some s"
    using Cons.prems(3) by (cases "if i > 0 then Kc c (m_position c) else Some (Some (m_position c))") auto
  show ?case
  proof (cases s)
    case None
    then show ?thesis
      using Cons.prems s skip_aborts [of c "i > 0"] by (auto simp del: if_split intro: throws_bindI)
  next
    case (Some p)
    obtain ve where ve: "Ec c e p = Some ve"
      using Cons.prems(3) s Some by (cases "Ec c e p") (auto simp del: if_split)
    show ?thesis
      unfolding parse_seq.simps
    proof (rule meets_bind [OF skip_yields [OF Cons.prems(2)]])
      show "(if i > 0 then Kc c (m_position c) else Some (Some (m_position c))) = Some (Some p)"
        using s Some by simp
      fix u c1 assume c1: "(I c1 \<and> m_position c1 = p \<and> get_cut c1 = get_cut c) \<and> step_rel G c c1"
      note same1 = step_same [OF conjunct2 [OF c1]]
      have E1: "Ec c1 e (m_position c1) = Some ve" using ve c1 same1 by simp
      have wf: "W (skips c1) e" using Cons.prems(1) same1 by simp
      show "meets t agrees_ok I c v (bind_o (run e c1) (\<lambda>r c2.
          if success r then parse_seq run skip node (Suc i) es (push_child node (tree r) c2) else Ret False c2))"
      proof (cases ve)
        case Aborts
        then show ?thesis
          using Cons.prems(3) s Some ve run_aborts [OF wf _ E1 [unfolded Aborts]] c1
          by (auto simp del: if_split intro: throws_bindI)
      next
        case (Ends re k)
        have run: "yields t (run e c1) (\<lambda>r c'. (agrees re r c' \<and> I c' \<and> get_cut c' = cut_after c1 k) \<and> ret_rel G c1 r c')"
          using c1 by (intro run_yields wf E1 [unfolded Ends]) simp
        show ?thesis
        proof (rule meets_bind [OF run])
          fix r c2 assume c2: "(agrees re r c2 \<and> I c2 \<and> get_cut c2 = cut_after c1 k) \<and> ret_rel G c1 r c2"
          let ?c3 = "push_child node (tree r) c2"
          have st2: "step_rel G c1 c2" using c2 by (simp add: ret_rel_def)
          have st3: "step_rel G c2 ?c3" using c2 by (auto simp: step_push_child I_wf)
          note same = same1 step_same [OF st2] step_same [OF st3]
          have cut: "get_cut c2 = cut_after c k" using c1 c2 same by (auto simp: cut_after_def)
          show "meets t agrees_ok I c v (if success r then parse_seq run skip node (Suc i) es ?c3 else Ret False c2)"
          proof (cases re)
            case None
            then show ?thesis
              using Cons.prems(3) s Some ve Ends c2 cut by (auto simp: agrees_def agrees_ok_def simp del: if_split)
          next
            case q: (Some q)
            then obtain v' where v': "full_seq (Kc c) (Ec c) True es q = Some v'" "v = or_cut k v'"
              using Cons.prems(3) s Some ve Ends by (auto simp del: if_split)
            have "meets t agrees_ok I ?c3 v' (parse_seq run skip node (Suc i) es ?c3)"
              using Cons.prems(1) c2 v'(1) q same by (intro Cons.IH) (auto simp: keeps_push_child agrees_def)
            then have "meets t agrees_ok I c v (parse_seq run skip node (Suc i) es ?c3)"
              unfolding v'(2) by (rule meets_or_cut) (use cut same in auto)
            then show ?thesis using c2 q by (simp add: agrees_def)
          qed
        qed
      qed
    qed
  qed
qed

lemma sequence_meets:
  assumes "list_all (W (skips c)) es" "I c" "full_seq (Kc c) (Ec c) False es (m_position c) = Some v"
  shows "meets t agrees I c v (sequence_parse run skip es c)"
proof -
  obtain n c1 where sn: "start_node c = (n, c1)" by (cases "start_node c")
  have s: "step_rel G c c1" and same: "m_position c1 = m_position c" and c1: "I c1"
    using start_node_step [OF I_wf [OF assms(2)] sn] keeps_start_node [OF assms(2) sn] by auto
  have cut: "m_cut c1 = m_cut c"
    using sn by (auto simp: start_node_def make_node_def Let_def)
  have seq: "meets t agrees_ok I c1 v (parse_seq run skip n 0 es c1)"
    using assms same step_same [OF s] by (intro parse_seq_meets c1) simp_all
  show ?thesis
  proof (cases v)
    case Aborts
    then show ?thesis using seq by (simp add: sequence_parse_def sn throws_bindI)
  next
    case (Ends res k)
    have "yields t (parse_seq run skip n 0 es c1) (\<lambda>ok c2. (agrees_ok res ok c2 \<and> I c2 \<and> get_cut c2 = cut_after c1 k) \<and> step_rel G c1 c2)"
      using yields_post [OF seq [unfolded Ends meets_simps] parse_seq_contract [OF W_wf_list [OF assms(1)] step_rel_wf [OF s]]] .
    then show ?thesis
      unfolding sequence_parse_def Let_def sn prod.case Ends
    proof (rule meets_bind)
      fix ok c2 assume c2: "(agrees_ok res ok c2 \<and> I c2 \<and> get_cut c2 = cut_after c1 k) \<and> step_rel G c1 c2"
      then have "m_position c \<le> input_size c2"
        using in_bounds [OF assms(2)] step_rel_input [OF s] step_rel_input [of G c1 c2] by simp
      then show "meets t agrees I c (Ends res k) (if ok then Ret (ok_result (Some n)) (upd_node n (\<lambda>n. n\<lparr>end_offset := mark c2\<rparr>) c2)
          else Ret null_result (set_state (m_position c) c2))"
        using c2 cut_after_cong [OF cut, of k] by (cases res)
          (auto simp: agrees_ok_def agrees_def ok_result_def null_result_def keeps_upd_node keeps_set_state)
    qed
  qed
qed

text \<open>Inside a cut scope the flag matters only to the scope.\<close>

abbreviation any_cut :: "cut_result \<Rightarrow> ('c, parse_result) parse_outcome \<Rightarrow> bool" where
  "any_cut v m \<equiv> (case v of Aborts \<Rightarrow> throws t m | Ends res k \<Rightarrow> \<not> k \<and> yields t m (\<lambda>r c'. agrees res r c' \<and> I c'))"

lemma any_cut_bind: "yields t m Q \<Longrightarrow> (\<And>a s. Q a s \<Longrightarrow> any_cut v (f a s)) \<Longrightarrow> v = Aborts \<or> (\<exists>res. v = Ends res False) \<Longrightarrow> any_cut v (bind_o m f)"
  by (cases v) (auto intro: throws_bind yields_bindI)

lemma parse_alt_meets:
  assumes "list_all (W (skips c)) es" "I c" "m_cut c \<noteq> []" "\<not> get_cut c" "full_alt (Ec c) es (m_position c) = Some v"
  shows "any_cut v (parse_alt run i es c)"
  using assms
proof (induction es arbitrary: i c)
  case Nil
  then show ?case by (auto simp: agrees_def null_result_def)
next
  case (Cons e es)
  have wf: "W (skips c) e" using Cons.prems(1) by simp
  obtain ve where ve: "Ec c e (m_position c) = Some ve"
    using Cons.prems(5) by (auto split: option.splits)
  show ?case
  proof (cases ve)
    case Aborts
    then show ?thesis
      using Cons.prems(5) ve run_aborts [OF wf Cons.prems(2) ve [unfolded Aborts]] by (auto intro: throws_bindI)
  next
    case (Ends re k)
    show ?thesis
      unfolding parse_alt.simps
    proof (rule any_cut_bind [OF run_yields [OF wf Cons.prems(2) ve [unfolded Ends]] _ full_alt_scoped [OF Cons.prems(5)]])
      fix r c1 assume c1: "(agrees re r c1 \<and> I c1 \<and> get_cut c1 = cut_after c k) \<and> ret_rel G c r c1"
      then have st: "step_rel G c c1" and same: "re = None \<longrightarrow> m_position c1 = m_position c"
        by (auto simp: agrees_def ret_rel_def)
      have cut: "get_cut c1 = k" using c1 Cons.prems(3,4) by (simp add: cut_after_def)
      show "any_cut v (if success r then Ret r (case tree r of None \<Rightarrow> c1
         | Some t \<Rightarrow> upd_node t (\<lambda>n. n\<lparr>alt_winner := Some i\<rparr>) c1)
         else if get_cut c1 then Throw (cut_error c1) c1 else parse_alt run (Suc i) es c1)"
        using Cons.prems ve Ends c1 same cut step_same [OF st] keeps_upd_node [of c1] Cons.IH [of c1 "Suc i"]
        by (cases re) (auto simp: agrees_def split: option.split if_splits)
    qed
  qed
qed

lemma cut_scope_meets:
  assumes "I c" and m: "any_cut v (m (init_cut c))"
    and contract: "post (m (init_cut c)) (ret_rel G (init_cut c)) (throw_rel G (init_cut c))"
  shows "meets t agrees I c v (scope_guard remove_cut (m (init_cut c)))"
proof (cases v)
  case Aborts
  have "post (m (init_cut c)) (\<lambda>_ _. True) (\<lambda>e s. rets (remove_cut s) (\<lambda>_ _. True))"
    using contract
  proof (rule post_mono)
    fix e s assume "throw_rel G (init_cut c) e s"
    then show "rets (remove_cut s) (\<lambda>_ _. True)"
      using remove_cut_scope [of c s G] by (auto simp: throw_rel_def)
  qed simp
  then show ?thesis using m Aborts by (simp add: throws_guard)
next
  case (Ends res k)
  then have k: "\<not> k" and ends: "yields t (m (init_cut c)) (\<lambda>r c'. agrees res r c' \<and> I c')" using m by auto
  have "yields t (scope_guard remove_cut (m (init_cut c))) (\<lambda>r c'. agrees res r c' \<and> I c' \<and> get_cut c' = get_cut c)"
  proof (rule yields_guard, rule yields_mono [OF yields_post [OF ends contract]])
    fix r s assume s: "(agrees res r s \<and> I s) \<and> ret_rel G (init_cut c) r s"
    then have env: "same_env (init_cut c) s" by (simp add: ret_rel_def step_rel_def)
    obtain x where cut: "m_cut s = x # m_cut c"
      using env by (cases "m_cut s") (auto simp: same_env_def init_cut_def)
    have "rets (remove_cut s) (\<lambda>_. I)"
      using s cut I_commit [of s] keeps_remove_cut [of s] by (cases "get_cut s") auto
    moreover have "rets (remove_cut s) (\<lambda>_ c'. m_position c' = m_position s \<and> get_cut c' = get_cut c)"
      by (simp add: remove_cut_def cut Let_def get_cut_def)
    ultimately show "yields t (remove_cut s) (\<lambda>_ c'. agrees res r c' \<and> I c' \<and> get_cut c' = get_cut c)"
      using s by (intro rets_yields) (auto simp: rets_iff agrees_def split: option.splits)
  qed
  then show ?thesis using k Ends by simp
qed

lemma alternation_meets:
  assumes "list_all (W (skips c)) es" "I c" "full_alt (Ec c) es (m_position c) = Some v"
  shows "meets t agrees I c v (alternation_parse run es c)"
  unfolding alternation_parse_def
  using assms by (intro cut_scope_meets parse_alt_meets parse_alt_contract) (auto simp: keeps_init_cut I_wf intro: W_wf_list)

lemma predicate_meets:
  assumes "W (skips c) e" "I c" "Ec c e (m_position c) = Some ve"
  shows "meets t agrees I c (full_pred b (m_position c) ve) (predicate_parse_impl (run e) b c)"
proof (cases ve)
  case Aborts
  then show ?thesis
    using run_aborts [OF assms(1,2)] assms(3) by (simp add: predicate_parse_impl_def throws_bindI)
next
  case (Ends re k)
  show ?thesis
    unfolding predicate_parse_impl_def Let_def
  proof (rule meets_bind [OF run_yields [OF assms(1,2) assms(3) [unfolded Ends]]])
    fix r c1 assume c1: "(agrees re r c1 \<and> I c1 \<and> get_cut c1 = cut_after c k) \<and> ret_rel G c r c1"
    then have "m_position c \<le> input_size c1"
      using in_bounds [OF assms(2)] step_rel_input [of G c c1] by (simp add: ret_rel_def)
    then show "meets t agrees I c (full_pred b (m_position c) ve)
        (Ret \<lparr>success = (if b then \<not> success r else success r), tree = None\<rparr> (set_state (m_position c) c1))"
      using c1 Ends keeps_set_state [of c1 "m_position c"] by (auto simp: agrees_def set_state_def split: option.splits)
  qed
qed

lemma lexeme_meets:
  assumes "W False e" "I c" "E (m_input c) False e (m_position c) = Some v"
  shows "meets t agrees I c v (lexeme_parse (run e) c)"
proof -
  let ?c = "set_skip_enabled False c"
  have c: "I ?c" "m_input ?c = m_input c" "m_position ?c = m_position c" "skips ?c = False" "m_cut ?c = m_cut c"
    using assms(2) by (simp_all add: set_skip_enabled_def keeps_skip_flag skips_def)
  then have run: "meets t agrees I ?c v (run e ?c)"
    using assms by (intro run_meets) simp_all
  then show ?thesis
    using c(5) unfolding lexeme_parse_def Let_def
    by (cases v; cases "run e ?c")
       (auto simp: set_skip_enabled_def keeps_skip_flag agrees_def cut_after_def get_cut_def split: option.splits)
qed

abbreviation loop_meets :: "(nat \<times> nat \<times> bool) option \<Rightarrow> ('c, nat \<times> nat \<times> bool) parse_outcome \<Rightarrow> bool" where
  "loop_meets v m \<equiv> (case v of None \<Rightarrow> throws t m
    | Some x \<Rightarrow> yields t m (\<lambda>y c'. I c' \<and> agrees_loop x y c'))"

lemma loop_meets_bind: "yields t m Q \<Longrightarrow> (\<And>a s. Q a s \<Longrightarrow> loop_meets v (f a s)) \<Longrightarrow> loop_meets v (bind_o m f)"
  by (cases v) (auto simp del: if_split intro: throws_bind yields_bindI)

lemma rep_loop_meets:
  assumes e: "W b e"
    and "skips c = b" "I c" "m_cut c \<noteq> []" "lpos = m_position c" "t \<longrightarrow> m \<le> n"
    and "full_loop m (Kc c) (Ec c e) max_rep k (m_position c) = Some v"
  shows "loop_meets v (rep_loop n (run e) skip max_rep node k lpos c)"
  using assms(2-)
proof (induction n arbitrary: c k lpos m)
  case 0
  then show ?case by (cases m) (auto split: option.split)
next
  case (Suc n)
  obtain m' where m: "m = Suc m'" using Suc.prems(6) by (cases m) auto
  obtain s where s: "(if k > 0 then Kc c (m_position c) else Some (Some (m_position c))) = Some s"
    using Suc.prems(6) m by (cases "if k > 0 then Kc c (m_position c) else Some (Some (m_position c))") auto
  show ?case
  proof (cases s)
    case None
    then show ?thesis
      using Suc.prems(2,6) m s skip_aborts [of c "k > 0"] by (simp del: if_split add: throws_bindI)
  next
    case (Some p)
    obtain ve where ve: "Ec c e p = Some ve"
      using Suc.prems(6) m s Some by (cases "Ec c e p") (auto simp del: if_split)
    have v: "Some v = (case ve of Aborts \<Rightarrow> Some None | Ends None k' \<Rightarrow> Some (Some (k, m_position c, k'))
        | Ends (Some q) k' \<Rightarrow> if max_rep > 0 \<and> int (k + 1) \<ge> max_rep then Some (Some (k + 1, q, False))
            else if q = p then Some (Some (k + 1, q, False))
            else full_loop m' (Kc c) (Ec c e) max_rep (k + 1) q)"
      using Suc.prems(6) m s Some ve by (simp del: if_split)
    show ?thesis
      unfolding rep_loop.simps Let_def
    proof (rule loop_meets_bind [OF skip_yields [OF Suc.prems(2)]])
      show "(if k > 0 then Kc c (m_position c) else Some (Some (m_position c))) = Some (Some p)"
        using s Some by simp
      fix u c0 assume c0: "(I c0 \<and> m_position c0 = p \<and> get_cut c0 = get_cut c) \<and> step_rel G c c0"
      let ?c1 = "set_cut False c0"
      have c1: "step_rel G c ?c1" "I ?c1" "m_position ?c1 = p" "\<not> get_cut ?c1" "m_cut ?c1 \<noteq> []"
        using c0 Suc.prems(3) step_rel_trans [OF _ step_set_cut [OF I_wf]] keeps_set_cut step_cut_empty [of G c c0]
        by (blast, blast, auto simp: set_cut_def get_cut_def split: list.splits)
      note same1 = step_same [OF c1(1)]
      have W1: "W (skips ?c1) e" and E1: "Ec ?c1 e (m_position ?c1) = Some ve"
        using e Suc.prems(1) ve c1 same1 by simp_all
      show "loop_meets v (bind_o (run e ?c1) (\<lambda>r c2. if success r then
            if max_rep > 0 \<and> int (k + 1) \<ge> max_rep then Ret (k + 1, m_position c2, False) (push_child node (tree r) c2)
            else if m_position (push_child node (tree r) c2) = m_position c0 then Ret (k + 1, m_position c2, False) (push_child node (tree r) c2)
            else rep_loop n (run e) skip max_rep node (k + 1) (m_position c2) (push_child node (tree r) c2)
          else Ret (k, lpos, True) c2))"
      proof (cases ve)
        case Aborts
        then show ?thesis
          using v run_aborts [OF W1 c1(2) E1 [unfolded Aborts]] by (simp add: throws_bindI)
      next
        case (Ends re k')
        show ?thesis
        proof (rule loop_meets_bind [OF run_yields [OF W1 c1(2) E1 [unfolded Ends]]])
          fix r c2 assume c2: "(agrees re r c2 \<and> I c2 \<and> get_cut c2 = cut_after ?c1 k') \<and> ret_rel G ?c1 r c2"
          let ?c3 = "push_child node (tree r) c2"
          have st2: "step_rel G ?c1 c2" using c2 by (simp add: ret_rel_def)
          have st3: "step_rel G c2 ?c3" using c2 by (auto simp: step_push_child I_wf)
          note same = same1 step_same [OF st2] step_same [OF st3]
          have cut: "get_cut c2 = k'" using c1 c2 by (simp add: cut_after_def)
          show "loop_meets v (if success r then
            if max_rep > 0 \<and> int (k + 1) \<ge> max_rep then Ret (k + 1, m_position c2, False) ?c3
            else if m_position ?c3 = m_position c0 then Ret (k + 1, m_position c2, False) ?c3
            else rep_loop n (run e) skip max_rep node (k + 1) (m_position c2) ?c3
          else Ret (k, lpos, True) c2)"
          proof (cases re)
            case None
            then show ?thesis
              using Suc.prems(4) v Ends c2 cut by (simp add: agrees_def)
          next
            case q: (Some q)
            then have r: "success r" "m_position c2 = q" using c2 by (simp_all add: agrees_def)
            have c3: "I ?c3" "m_cut ?c3 \<noteq> []" "skips ?c3 = b" "m_position ?c3 = q"
              using c2 r same Suc.prems(1,3) by (simp_all add: keeps_push_child)
            show ?thesis
            proof (cases "max_rep > 0 \<and> int (k + 1) \<ge> max_rep \<or> q = p")
              case True
              then have "v = Some (k + 1, q, False)" using v Ends q by (auto split: if_splits)
              then show ?thesis using True r c0 c3 by auto
            next
              case False
              then have "Some v = full_loop m' (Kc c) (Ec c e) max_rep (k + 1) q"
                using v Ends q by (auto split: if_splits)
              then have "full_loop m' (Kc ?c3) (Ec ?c3 e) max_rep (k + 1) (m_position ?c3) = Some v"
                using c3(4) same by simp
              then have "loop_meets v (rep_loop n (run e) skip max_rep node (k + 1) (m_position c2) ?c3)"
                using c3 r Suc.prems(5) m by (intro Suc.IH) auto
              then show ?thesis using False r c0 c3 by auto
            qed
          qed
        qed
      qed
    qed
  qed
qed

lemma rep_finish_meets:
  assumes "I c" and "init \<le> input_size c" "q \<le> input_size c" and "agrees_loop (k, q, committed) x c"
  shows "any_cut (if k < min_rep then Ends None False else if max_rep < 0 \<and> committed then Aborts else Ends (Some q) False)
    (rep_finish min_rep max_rep node init x c)"
proof -
  have "I (upd_node node f (set_state q c))" "I (upd_node node f c)" for f
    using assms by (simp_all add: keeps_upd_node keeps_set_state)
  moreover have "I (upd_node node g (upd_node node f (set_state q c)))" for f g
    using assms by (simp add: keeps_upd_node keeps_set_state)
  moreover obtain count lpos failed where "x = (count, lpos, failed)" by (cases x)
  ultimately show ?thesis
    using assms keeps_set_state [of c init]
    by (cases failed) (auto simp: rep_finish_def Let_def agrees_def null_result_def ok_result_def set_state_def)
qed

lemma repeat_meets:
  assumes e: "W (skips c) e" and c: "I c" and n: "t \<longrightarrow> m \<le> n"
    and ev: "full_rep m (Kc c) (Ec c e) min_rep max_rep (m_position c) = Some v"
  shows "meets t agrees I c v (repeat_parse_impl n (run e) skip min_rep max_rep c)"
  unfolding repeat_parse_impl_def
proof (rule cut_scope_meets [OF c])
  let ?c = "init_cut c"
  obtain i c1 where sn: "start_node ?c = (i, c1)" by (cases "start_node ?c")
  have ic: "I ?c" using c by (rule keeps_init_cut)
  have s: "step_rel G ?c c1" and c1: "I c1"
    and pos: "m_position c1 = m_position c" "input_size c1 = input_size ?c"
    using start_node_step [OF I_wf [OF ic] sn] keeps_start_node [OF ic sn] by auto
  have cut1: "m_cut c1 \<noteq> []" using step_cut_empty [OF s] by simp
  note same = step_same [OF s]
  have p: "m_position c1 \<le> m_position ?c" "m_position ?c \<le> input_size c1" "m_position c1 \<le> input_size c1"
    using pos in_bounds [OF ic] by simp_all
  obtain l where l: "full_loop m (Kc c) (Ec c e) max_rep 0 (m_position c) = Some l"
    using ev by (auto simp: full_rep_def split: option.splits)
  have loop: "loop_meets l (rep_loop n (run e) skip max_rep i 0 (m_position ?c) c1)"
    using e l n same pos by (intro rep_loop_meets [where b = "skips c"] c1 cut1) simp_all
  show "any_cut v (repeat_body n (run e) skip min_rep max_rep ?c)"
  proof (cases l)
    case None
    then show ?thesis
      using loop ev l by (auto simp: repeat_body_def sn full_rep_def Let_def throws_bindI)
  next
    case (Some kq)
    obtain k q committed where kq: "kq = (k, q, committed)" by (cases kq)
    have v: "v = (if k < min_rep then Ends None False else if max_rep < 0 \<and> committed then Aborts else Ends (Some q) False)"
      using ev l Some kq by (simp add: full_rep_def)
    have "yields t (rep_loop n (run e) skip max_rep i 0 (m_position ?c) c1) (\<lambda>y c'. I c' \<and> agrees_loop kq y c')"
      using loop Some by simp
    from yields_post [OF this rep_loop_contract [OF W_wf [OF e] step_rel_wf [OF s] step_rel_refl [OF step_rel_wf [OF s]] p(1,2)]]
    show ?thesis
      unfolding repeat_body_def Let_def sn prod.case
    proof (rule any_cut_bind)
      show "v = Aborts \<or> (\<exists>res. v = Ends res False)" using v by simp
      fix y c2
      assume y: "(I c2 \<and> agrees_loop kq y c2) \<and>
        (case y of (count', lpos', failed) \<Rightarrow> \<lambda>s. step_rel G c1 s \<and> m_position c1 \<le> lpos' \<and>
           lpos' \<le> input_size c1 \<and> (\<not> failed \<longrightarrow> m_position s = lpos')) c2"
      then have "input_size c2 = input_size c1" "q \<le> input_size c1"
        using step_rel_input [of G c1 c2] kq by (auto split: prod.splits simp: agrees_loop_def)
      then show "any_cut v (rep_finish min_rep max_rep i (m_position ?c) y c2)"
        unfolding v using y kq p(2) by (intro rep_finish_meets) simp_all
    qed
  qed
  show "post (repeat_body n (run e) skip min_rep max_rep ?c) (ret_rel G ?c) (throw_rel G ?c)"
    by (rule repeat_body_contract [OF W_wf [OF e] I_wf [OF ic]])
qed

subsection \<open>The engine on all but rules\<close>

lemma leaf_meets:
  "rets m (\<lambda>_. I) \<Longrightarrow> post m (agrees res) no_throw \<Longrightarrow> (\<And>r c'. m = Ret r c' \<Longrightarrow> m_cut c' = m_cut c) \<Longrightarrow>
   meets t agrees I c (Ends res False) m"
  by (cases m) (auto simp: get_cut_def)

lemma cut_meets: "I (set_cut True c) \<Longrightarrow> meets t agrees I c (Ends (Some (m_position c)) True) (cut_parse c)"
  by (cases "m_cut c") (auto simp: cut_parse_def agrees_def ok_result_def cut_after_def set_cut_def get_cut_def)

lemma step_meets:
  assumes run: "\<And>e c. run e c = parse n G e c"
    and skip: "\<And>c. skip c = run_skipper (\<lambda>r. parse n G (RuleExpr r)) c"
    and n: "t \<longrightarrow> m \<le> n"
    and W: "W (skips c) e" and c: "I c" and cut: "e = CutExpr \<Longrightarrow> I (set_cut True c)"
    and ev: "full_step m G (m_input c) (K (m_input c)) (E (m_input c)) (skips c) e (m_position c) = Some v"
  shows "meets t agrees I c v (parse (Suc n) G e c)"
proof -
  have eqs: "run = parse n G" "skip = run_skipper (\<lambda>r. parse n G (RuleExpr r))"
    using run skip by auto
  note kids = sequence_meets [unfolded eqs] alternation_meets [unfolded eqs] repeat_meets [unfolded eqs, OF _ _ n]
    lexeme_meets [unfolded eqs]
  have subs: "list_all (W (inner_mode (skips c) e)) (subs e)" by (rule W_subs [OF W])
  have wf: "wf_expr G e" by (rule W_wf [OF W])
  show ?thesis
  proof (cases e)
    case (TerminalSeqExpr vs)
    have "rets (terminal_seq_loop (g_ops G) vs (m_position c) vs c) (\<lambda>_. I)"
      by (rule keeps_terminal_seq [OF c in_bounds [OF c]])
    then have "meets t agrees I c (Ends (if take (length vs) (drop (m_position c) (m_input c)) = vs
        then Some (m_position c + length vs) else None) False) (terminal_seq_loop (g_ops G) vs (m_position c) vs c)"
      by (rule leaf_meets [OF _ terminal_seq_agrees terminal_seq_cut])
    then show ?thesis using ev TerminalSeqExpr by (auto simp: full_step_def terminal_seq_parse_def mark_def)
  next
    case (MatcherExpr fn)
    then have "meets t agrees I c (Ends (map_option sp_end (fn (m_input c) (Span (m_position c) (m_position c)))) False)
        (matcher_parse fn c)"
      using wf c in_bounds [OF c] by (intro leaf_meets keeps_matcher matcher_agrees matcher_cut) simp_all
    then show ?thesis using ev MatcherExpr by (auto simp: full_step_def)
  next
    case (TerminalExpr v)
    then have "meets t agrees I c (Ends (ev_symbol (g_ops G) (m_input c) v (m_position c)) False) (terminal_parse (g_ops G) v c)"
      using wf c by (intro leaf_meets keeps_terminal terminal_agrees terminal_cut) simp_all
    then show ?thesis using ev TerminalExpr by (auto simp: full_step_def)
  next
    case (TokenExpr v)
    then have "meets t agrees I c (Ends (ev_symbol (g_ops G) (m_input c) v (m_position c)) False) (token_parse (g_ops G) v c)"
      using wf c by (intro leaf_meets keeps_token token_agrees token_cut) simp_all
    then show ?thesis using ev TokenExpr by (auto simp: full_step_def)
  next
    case (NotExpr a)
    then obtain re where re: "Ec c a (m_position c) = Some re" "v = full_pred True (m_position c) re"
      using ev by (auto simp: full_step_def)
    then show ?thesis
      using predicate_meets [unfolded eqs, OF _ c re(1), of True] subs NotExpr by simp
  next
    case (AndExpr a)
    then obtain re where re: "Ec c a (m_position c) = Some re" "v = full_pred False (m_position c) re"
      using ev by (auto simp: full_step_def)
    then show ?thesis
      using predicate_meets [unfolded eqs, OF _ c re(1), of False] subs AndExpr by simp
  next
    case EmptyExpr
    then show ?thesis using c ev by (auto simp: full_step_def empty_parse_def agrees_def ok_result_def)
  next
    case CutExpr
    then show ?thesis using cut_meets [OF cut] ev by (auto simp: full_step_def)
  qed (use c ev kids subs in \<open>auto simp: full_step_def Let_def\<close>)
qed

end

subsection \<open>Neither cuts nor skipping\<close>

text \<open>The recognisers, which have no cuts and no skipper: a special case.\<close>

locale agreeing_parsers = child_parsers G run skip + quiet_invariant I
  for G :: "('c, 'v) grammar"
    and run :: "'c expr \<Rightarrow> 'c parser"
    and skip :: "'c ctx \<Rightarrow> ('c, unit) parse_outcome"
    and I :: "'c ctx \<Rightarrow> bool" +
  fixes E :: "'c list \<Rightarrow> 'c expr \<Rightarrow> nat \<Rightarrow> ev_result"
  assumes I_wf: "I c \<Longrightarrow> wf_state G c"
    and I_skipper: "I c \<Longrightarrow> m_skipper c = None"
    and uncut: "I c \<Longrightarrow> no_cuts c"
    and run_agrees: "wf_expr G e \<Longrightarrow> I c \<Longrightarrow> E (m_input c) e (m_position c) = Some res \<Longrightarrow>
      post (run e c) (\<lambda>r c'. agrees res r c' \<and> I c') no_throw"
    and skip_idle: "m_skipper c = None \<Longrightarrow> skip c = Ret () c"

context agreeing_parsers
begin

lemma meets_plainly: "I c \<Longrightarrow> meets False P I c (Ends res False) m \<longleftrightarrow> post m (\<lambda>a c'. P res a c' \<and> I c') no_throw"
  using no_cuts_get_cut [OF uncut] by (cases m) auto

end

sublocale agreeing_parsers < meet: meeting_parsers G run skip I False
  "\<lambda>_. wf_expr G" "\<lambda>input. plainly (E input)" "\<lambda>_. no_skip"
proof
  show "I c \<Longrightarrow> get_cut c \<Longrightarrow> rets (remove_cut c) (\<lambda>_. I)" for c
    using uncut no_cuts_get_cut by blast
  show "wf_expr G e \<Longrightarrow> list_all (wf_expr G) (subs e)" for e
    by (cases e) simp_all
  show "meets False agrees I c v (run e c)"
    if "wf_expr G e" "I c" "plainly (E (m_input c)) (skips c) e (m_position c) = Some v" for c e v
    using that run_agrees [of e c] by (auto simp: plainly_def meets_plainly [OF that(2)] simp del: meets_simps)
  show "case s of None \<Rightarrow> throws False (skip c)
      | Some q \<Rightarrow> yields False (skip c) (\<lambda>_ c'. I c' \<and> m_position c' = q \<and> get_cut c' = get_cut c)"
    if "I c" "no_skip (skips c) (m_position c) = Some s" for c s
    using that skip_idle [OF I_skipper] by (auto simp: no_skip_def)
qed (simp_all add: I_wf)

context agreeing_parsers
begin

lemma parse_seq_agrees:
  assumes "list_all (wf_expr G) es" "I c" "ev_seq (E (m_input c)) es (m_position c) = Some res"
  shows "post (parse_seq run skip node i es c)
    (\<lambda>ok c'. I c' \<and> ok = (res \<noteq> None) \<and> (\<forall>q. res = Some q \<longrightarrow> m_position c' = q)) no_throw"
proof -
  have "meets False agrees_ok I c (Ends res False) (parse_seq run skip node i es c)"
    using assms by (intro meet.parse_seq_meets) (simp_all add: plainly_seq)
  then show ?thesis
    by (cases "parse_seq run skip node i es c") (auto simp: agrees_ok_def)
qed

lemma parse_alt_agrees:
  assumes "list_all (wf_expr G) es" "I c" "m_cut c \<noteq> []" "ev_alt (E (m_input c)) es (m_position c) = Some res"
  shows "post (parse_alt run i es c) (\<lambda>r c'. agrees res r c' \<and> I c') no_throw"
  using meet.parse_alt_meets [OF assms(1-3), of "Ends res False" i] no_cuts_get_cut [OF uncut [OF assms(2)]] assms(4)
  by (cases "parse_alt run i es c") (auto simp: plainly_alt)

lemma rep_loop_agrees:
  assumes e: "wf_expr G e" and "I c" "m_cut c \<noteq> []" "lpos = m_position c"
    and "ev_loop m (E (m_input c) e) max_rep k (m_position c) = Some (k', q)"
  shows "post (rep_loop n (run e) skip max_rep node k lpos c)
    (\<lambda>(count, lpos', failed) c'. I c' \<and> count = k' \<and> lpos' = q \<and> (\<not> failed \<longrightarrow> m_position c' = q)) no_throw"
proof -
  have "meet.loop_meets (Some (k', q, False)) (rep_loop n (run e) skip max_rep node k lpos c)"
    using assms by (intro meet.rep_loop_meets [where b = "skips c" and m = m]) (simp_all add: plainly_loop)
  then show ?thesis
    by (cases "rep_loop n (run e) skip max_rep node k lpos c") (auto simp: agrees_loop_def)
qed

lemma rep_finish_agrees:
  assumes "I c" and "init \<le> input_size c" "q \<le> input_size c" and "\<not> failed \<longrightarrow> m_position c = q"
  shows "post (rep_finish min_rep max_rep node init (k, q, failed) c)
    (\<lambda>r c'. agrees (if k < min_rep then None else Some q) r c' \<and> I c') no_throw"
proof -
  have "agrees_loop (k, q, False) (k, q, failed) c"
    using assms no_cuts_get_cut [OF uncut] by (auto simp: agrees_loop_def)
  from meet.rep_finish_meets [OF assms(1-3) this, of min_rep max_rep node] show ?thesis
    by (cases "rep_finish min_rep max_rep node init (k, q, failed) c") (auto split: if_splits)
qed

lemma step_agrees:
  assumes run: "\<And>e c. run e c = parse n G e c"
    and skip: "\<And>c. skip c = run_skipper (\<lambda>r. parse n G (RuleExpr r)) c"
    and wf: "wf_expr G e" and c: "I c"
    and ev: "ev_step m G (m_input c) (E (m_input c)) e (m_position c) = Some res"
  shows "post (parse (Suc n) G e c) (\<lambda>r c'. agrees res r c' \<and> I c') no_throw"
proof -
  have "e \<noteq> CutExpr" using ev by (auto simp: ev_step_def)
  then have "meets False agrees I c (Ends res False) (parse (Suc n) G e c)"
    using assms by (intro meet.step_meets [where m = m] plainly_step) auto
  then show ?thesis unfolding meets_plainly [OF c] .
qed

end

subsection \<open>Sound memos\<close>

text \<open>
  \<open>V input r p res\<close>: the recogniser says \<open>res\<close> of rule \<open>r\<close> at \<open>p\<close>. The entries of the pairs in
  \<open>P\<close> are provisional. \<open>u\<close>: no scope was committed, so those entries are still there. \<open>sk\<close> is
  the skipper.
\<close>

type_synonym 'c verdict = "'c list \<Rightarrow> rule_ref \<Rightarrow> nat \<Rightarrow> nat option \<Rightarrow> bool"

definition memo_sound_but :: "bool \<Rightarrow> rule_ref option \<Rightarrow> 'c verdict \<Rightarrow> (rule_ref \<times> nat) set \<Rightarrow> ('c, 'v) grammar \<Rightarrow> 'c ctx \<Rightarrow> bool" where
  "memo_sound_but u sk V P G c \<longleftrightarrow>
     wf_state G c \<and> m_skipper c = sk \<and> (u \<longrightarrow> no_cuts c \<and> (\<forall>(r, p) \<in> P. memo_lookup r p c \<noteq> None)) \<and>
     (\<forall>r p st. memo_lookup r p c = Some st \<longrightarrow> (r, p) \<in> P \<or> V (m_input c) r p (entry_res st))"

definition memo_sound :: "bool \<Rightarrow> rule_ref option \<Rightarrow> 'c verdict \<Rightarrow> ('c, 'v) grammar \<Rightarrow> 'c ctx \<Rightarrow> bool" where
  "memo_sound u sk V G c = memo_sound_but u sk V (set (frame_ids c)) G c"

lemma memo_sound_but_wf: "memo_sound_but u sk V P G c \<Longrightarrow> wf_state G c"
  by (simp add: memo_sound_but_def)

lemma memo_sound_wf: "memo_sound u sk V G c \<Longrightarrow> wf_state G c"
  by (simp add: memo_sound_def memo_sound_but_wf)

lemma memo_sound_skipper: "memo_sound u sk V G c \<Longrightarrow> m_skipper c = sk"
  by (simp add: memo_sound_def memo_sound_but_def)

lemma memo_sound_no_cuts: "memo_sound u sk V G c \<Longrightarrow> u \<Longrightarrow> no_cuts c"
  by (simp add: memo_sound_def memo_sound_but_def)

lemma memo_sound_running: "memo_sound u sk V G c \<Longrightarrow> u \<Longrightarrow> (r, p) \<in> set (frame_ids c) \<Longrightarrow> memo_lookup r p c \<noteq> None"
  by (auto simp: memo_sound_def memo_sound_but_def)

lemma memo_sound_entry:
  "memo_sound u sk V G c \<Longrightarrow> memo_lookup r p c = Some st \<Longrightarrow> (r, p) \<notin> set (frame_ids c) \<Longrightarrow> V (m_input c) r p (entry_res st)"
  by (auto simp: memo_sound_def memo_sound_but_def)

lemma memo_sound_but_same:
  assumes "memo_sound_but u sk V P G c" and "m_position c' \<le> input_size c'" and "m_input c' = m_input c"
    and "m_skipper c' = m_skipper c" and "length (m_node_arena c) \<le> length (m_node_arena c')"
    and "no_cuts c \<Longrightarrow> no_cuts c'" and "m_mem c' = m_mem c"
  shows "memo_sound_but u sk V P G c'"
proof -
  have same: "memo_lookup r p c' = memo_lookup r p c" for r p
    using assms(7) by (simp add: memo_lookup_def)
  have "wf_state G c'"
    using assms(2-5) same by (auto intro: wf_state_cong [OF memo_sound_but_wf [OF assms(1)]])
  then show ?thesis using assms same by (simp add: memo_sound_but_def)
qed

interpretation memo_sound_but_inv: quiet_invariant "memo_sound_but u sk V P G" for u sk V P and G :: "('c, 'v) grammar"
proof
  show "memo_sound_but u sk V P G c \<Longrightarrow> m_position c \<le> input_size c" for c
    by (rule wf_state_pos [OF memo_sound_but_wf])
qed (rule memo_sound_but_same)

lemma memo_sound_same:
  assumes "memo_sound u sk V G c" and "m_position c' \<le> input_size c'" and "m_input c' = m_input c"
    and "m_skipper c' = m_skipper c" and "length (m_node_arena c) \<le> length (m_node_arena c')"
    and "no_cuts c \<Longrightarrow> no_cuts c'" and "m_mem c' = m_mem c" and "frame_ids c' = frame_ids c"
  shows "memo_sound u sk V G c'"
  using memo_sound_but_same [of u sk V _ G c c'] assms by (simp add: memo_sound_def)

text \<open>The steps of a growth loop, of entering a rule, of leaving it.\<close>

lemma memo_sound_frame_step:
  assumes "memo_sound u sk V G c" and "wf_state G c'" and "frame_step k c c'" and "k \<in> set (frame_ids c)"
  shows "memo_sound u sk V G c'"
proof -
  have same: "frame_ids c' = frame_ids c" "m_input c' = m_input c" "m_cut c' = m_cut c" "m_skipper c' = m_skipper c"
    using assms(3) by (simp_all add: frame_step_def)
  have "memo_lookup r p c' \<noteq> None" if "(r, p) \<in> set (frame_ids c)" u for r p
  proof (cases "(r, p) = k")
    case True
    then show ?thesis
      using assms(3) memo_sound_running [OF assms(1) that(2,1)] by (auto simp: frame_step_def)
  next
    case False
    then show ?thesis
      using frame_step_running [OF assms(3) that(1)] memo_sound_running [OF assms(1) that(2,1)] by simp
  qed
  moreover have "V (m_input c) r p (entry_res st)" if "memo_lookup r p c' = Some st" "(r, p) \<notin> set (frame_ids c)" for r p st
    using memo_sound_entry [OF assms(1) frame_step_memo [OF assms(3) that(1)] that(2)] assms(4) that(2) by blast
  ultimately show ?thesis
    using assms(2) same memo_sound_no_cuts [OF assms(1)] memo_sound_skipper [OF assms(1)]
    unfolding memo_sound_def memo_sound_but_def no_cuts_def by (simp only: simp_thms) blast
qed

lemma memo_sound_entered:
  assumes "memo_sound u sk V G c"
  shows "memo_sound u sk V G (entered rule c)"
  using assms in_rule_wf [OF entered_in_rule [OF memo_sound_wf [OF assms]], of rule]
  by (fastforce simp: memo_sound_def memo_sound_but_def entered_lookup no_cuts_def)

lemma memo_sound_left:
  assumes "memo_sound u sk V G s" and "same_but_stack k s c4" and "wf_state G c4"
  shows "memo_sound_but u sk V (insert k (set (frame_ids c4))) G c4"
proof -
  have "memo_lookup r p c4 = memo_lookup r p s" for r p
    using assms(2) by (simp add: same_but_stack_def memo_lookup_def)
  then show ?thesis
    using assms by (auto simp: memo_sound_def memo_sound_but_def same_but_stack_def no_cuts_def)
qed

lemma memo_sound_final:
  assumes "memo_sound_but u sk V (insert (r, p) (set (frame_ids c))) G c"
    and "wf_state G (snd (update_rule_state r p st c))" and "V (m_input c) r p (entry_res st)"
  shows "memo_sound u sk V G (snd (update_rule_state r p st c))"
  using assms by (fastforce simp: memo_sound_def memo_sound_but_def memo_lookup_update no_cuts_def split: if_splits)

subsection \<open>Leaving a rule, taking an entry\<close>

lemma rule_matched_agrees:
  assumes "memo_sound_but u sk V (insert (rule, p) (set (frame_ids c4))) G c4"
    and "post (rule_matched nt rule p st inner c4) (ret_rel G c) (throw_rel G c)"
    and "V (m_input c4) rule p (Some (m_last_pos st))" "m_position c4 = m_last_pos st"
  shows "rets (rule_matched nt rule p st inner c4) (\<lambda>r c'. agrees (Some (m_last_pos st)) r c' \<and> memo_sound u sk V G c')"
proof -
  obtain node c5 where b: "build_rule_node nt rule p (tree inner) c4 = (node, c5)"
    by (cases "build_rule_node nt rule p (tree inner) c4")
  have same: "frame_ids c5 = frame_ids c4" "m_input c5 = m_input c4" "m_position c5 = m_position c4"
    using b by (auto simp: build_rule_node_def Let_def make_node_def frame_ids_def push_child_def
        split: if_splits option.splits)
  have "memo_sound_but u sk V (insert (rule, p) (set (frame_ids c5))) G c5"
    using memo_sound_but_inv.keeps_build_node [OF assms(1) b] same by simp
  then have "memo_sound u sk V G (snd (update_rule_state rule p (st\<lparr>m_cached_result := ok_result (Some node)\<rparr>) c5))"
    using assms(2,3) same
    by (intro memo_sound_final)
       (auto simp: rule_matched_def b Let_def ret_rel_def step_rel_def entry_res_def ok_result_def)
  then show ?thesis
    using same assms(4) by (simp add: rule_matched_def b Let_def agrees_def ok_result_def)
qed

lemma rule_failed_agrees:
  assumes "memo_sound_but u sk V (insert (rule, p) (set (frame_ids c4))) G c4"
    and "post (rule_failed nt rule p st c4) (ret_rel G c) (throw_rel G c)"
    and V: "V (m_input c4) rule p (ev_recover nt (m_input c4) p None)"
    and p: "p \<le> input_size c4" and u: "u \<or> is_sync_token (m_recover nt) = None"
  shows "rets (rule_failed nt rule p st c4)
    (\<lambda>r c'. agrees (ev_recover nt (m_input c4) p None) r c' \<and> memo_sound u sk V G c')"
proof -
  let ?c1 = "record_rule_failure nt p c4"
  have same: "frame_ids ?c1 = frame_ids c4" "m_input ?c1 = m_input c4" "m_cut ?c1 = m_cut c4"
    by (simp_all add: record_rule_failure_def frame_ids_def)
  have s1: "memo_sound_but u sk V (insert (rule, p) (set (frame_ids c4))) G ?c1"
    using assms(1) by (simp add: record_rule_failure_def memo_sound_but_inv.keeps_record_failure)
  have cut: "u \<Longrightarrow> \<not> get_cut ?c1"
    using no_cuts_get_cut s1 by (auto simp: memo_sound_but_def)
  have fail: "memo_sound u sk V G (snd (update_rule_state rule p (st\<lparr>m_cached_result := null_result\<rparr>) ?c1))"
    if "V (m_input c4) rule p None"
       "wf_state G (snd (update_rule_state rule p (st\<lparr>m_cached_result := null_result\<rparr>) ?c1))"
    using s1 that same by (intro memo_sound_final) (simp_all add: entry_res_def null_result_def)
  have recover: "memo_sound u sk V G (snd (update_rule_state rule p \<lparr>m_last_pos = q, m_cached_result = ok_result None\<rparr>
      (record_diagnostic d (?c1\<lparr>m_position := q\<rparr>))))"
    if "V (m_input c4) rule p (Some q)" "q \<le> input_size ?c1"
       "wf_state G (snd (update_rule_state rule p \<lparr>m_last_pos = q, m_cached_result = ok_result None\<rparr>
         (record_diagnostic d (?c1\<lparr>m_position := q\<rparr>))))" for q d
  proof (rule memo_sound_final [OF _ that(3)])
    show "memo_sound_but u sk V (insert (rule, p) (set (frame_ids (record_diagnostic d (?c1\<lparr>m_position := q\<rparr>))))) G
        (record_diagnostic d (?c1\<lparr>m_position := q\<rparr>))"
      using memo_sound_but_inv.keeps_record_diagnostic [OF memo_sound_but_inv.keeps_position [OF s1 that(2)], of d] same(1)
      by (simp add: frame_ids_def record_diagnostic_def)
  qed (use that(1) same in \<open>simp add: record_diagnostic_def entry_res_def ok_result_def\<close>)
  show ?thesis
  proof (cases "is_sync_token (m_recover nt)")
    case None
    then show ?thesis
      using assms(2,3) fail by (simp add: rule_failed_def ev_recover_def agrees_def null_result_def ret_rel_def step_rel_def)
  next
    case (Some sync)
    let ?q = "if scan_sync sync (m_input c4) p < input_size ?c1
              then scan_sync sync (m_input c4) p + 1 else input_size ?c1"
    have q: "?q \<le> input_size ?c1" by simp
    have res: "ev_recover nt (m_input c4) p None = Some ?q"
      using Some by (simp add: ev_recover_def Let_def input_size_def)
    show ?thesis
      using assms(2) V recover [OF _ q] Some cut u q unfolding res
      by (simp add: rule_failed_def Let_def reset_def agrees_def ok_result_def ret_rel_def step_rel_def record_diagnostic_def
          del: One_nat_def)
  qed
qed

lemma rule_left_agrees:
  assumes c: "memo_sound u sk V G c" and s: "memo_sound u sk V G s" "same_but_stack (rule, m_position c) s c4"
    and left: "rule_left G c res inner st c4"
    and V: "V (m_input c) rule (m_position c) (ev_recover nt (m_input c) (m_position c) res)"
    and u: "u \<or> is_sync_token (m_recover nt) = None"
  shows "rets (if \<not> success inner then rule_failed nt rule (m_position c) st c4
      else rule_matched nt rule (m_position c) st inner c4)
    (\<lambda>r c'. agrees (ev_recover nt (m_input c) (m_position c) res) r c' \<and> memo_sound u sk V G c')"
proof -
  let ?p = "m_position c"
  have l: "step_rel G c c4" "m_position c4 = m_last_pos st"
      "tree_ok c4 (tree inner)" "grow_end res (inner, st)" "?p \<le> m_last_pos st" "\<not> success inner \<Longrightarrow> m_last_pos st = ?p"
    using left by (auto simp: rule_left_def)
  have but: "memo_sound_but u sk V (insert (rule, ?p) (set (frame_ids c4))) G c4"
    by (rule memo_sound_left [OF s step_rel_wf [OF l(1)]])
  have input: "m_input c4 = m_input c" by (rule step_input [OF l(1)])
  show ?thesis
  proof (cases "success inner")
    case True
    then have b: "res = Some (m_last_pos st)"
      using l(4) by (auto simp: grow_end_def split: option.splits)
    then have bres: "ev_recover nt (m_input c) ?p res = Some (m_last_pos st)"
      by (simp add: ev_recover_def)
    have "V (m_input c4) rule ?p (Some (m_last_pos st))"
      using V unfolding input bres .
    from rule_matched_agrees [OF but rule_matched_contract [OF l(1,3,2,5)] this l(2)] True show ?thesis
      unfolding bres by simp
  next
    case False
    then have bres: "res = None"
      using l(4) by (auto simp: grow_end_def split: option.splits)
    have wf: "wf_state G c" by (rule memo_sound_wf [OF c])
    have L: "m_position c4 = ?p" "?p \<le> input_size c4"
      using False l wf_state_pos [OF wf] step_rel_input [OF l(1)] by auto
    show ?thesis
      using rule_failed_agrees [OF but rule_failed_contract [OF wf l(1) L(1) l(6) [OF False]] _ L(2) u] V False
      unfolding input bres by simp
  qed
qed

text \<open>
  What a rule with an entry returns: that of the entry, whether the rule is running or not.
  Little else changes.
\<close>

definition only_position :: "'c ctx \<Rightarrow> 'c ctx \<Rightarrow> bool" where
  "only_position c c' \<longleftrightarrow> report_of c' = report_of c \<and> m_mem c' = m_mem c \<and> m_cut c' = m_cut c \<and> frame_ids c' = frame_ids c \<and>
     m_input c' = m_input c \<and> m_skipper c' = m_skipper c \<and> m_node_arena c' = m_node_arena c \<and>
     m_position c' \<le> input_size c'"

lemma memo_sound_only_position: "memo_sound u sk V G c \<Longrightarrow> only_position c c' \<Longrightarrow> memo_sound u sk V G c'"
  by (intro memo_sound_same [of u sk V G c c']) (simp_all add: only_position_def no_cuts_def)


lemma reenter_entry:
  assumes wf: "wf_state G c" and look: "memo_lookup rule (m_position c) c = Some st"
  shows "rets (reenter rule (m_position c) st c)
    (\<lambda>r c'. agrees (entry_res st) r c' \<and> r = m_cached_result st \<and> only_position c c')"
proof -
  have e: "m_last_pos st \<le> input_size c" "success (m_cached_result st) \<or> m_last_pos st = m_position c"
    using wf look by (auto simp: wf_state_def wf_ctx_def entry_ok_def)
  have ret: "rets (return_cached st c1) (\<lambda>r c'. agrees (entry_res st) r c' \<and> r = m_cached_result st \<and> only_position c c')"
    if "m_mem c1 = m_mem c" "m_cut c1 = m_cut c" "frame_ids c1 = frame_ids c" "m_input c1 = m_input c"
      "m_skipper c1 = m_skipper c" "m_node_arena c1 = m_node_arena c" "report_of c1 = report_of c" for c1
    using that e by (auto simp: return_cached_def reset_def agrees_def entry_res_def input_size_def frame_ids_def only_position_def)
  have mark: "m_mem (mark_head r p c) = m_mem c" "m_cut (mark_head r p c) = m_cut c"
    "frame_ids (mark_head r p c) = frame_ids c" "m_input (mark_head r p c) = m_input c"
    "m_skipper (mark_head r p c) = m_skipper c" "m_node_arena (mark_head r p c) = m_node_arena c"
    "report_of (mark_head r p c) = report_of c" for r p
  proof -
    have "lr_keys (mark_head r p c) = lr_keys c"
      using mark_head_frames_keys [of r p "m_lr_stack c"]
      by (auto simp: mark_head_def Let_def set_growing_head_def lr_keys_def split: prod.splits)
    then show "frame_ids (mark_head r p c) = frame_ids c" by (rule frame_ids_keys)
  qed (auto simp: mark_head_def Let_def set_growing_head_def report_of_def split: prod.splits)
  have "memo_lookup rule (m_position c) (mark_head rule (m_position c) c) = Some st"
    using look mark(1) by (simp add: memo_lookup_def)
  then have get: "memo_get rule (m_position c) (mark_head rule (m_position c) c) = st" "memo_get rule (m_position c) c = st"
    using look by (simp_all add: memo_get_lookup)
  show ?thesis
    using ret [OF refl refl refl refl refl refl refl] ret [OF mark] get
    by (auto simp: reenter_def Let_def split: option.split)
qed

text \<open>The call of a rule is the one or the other.\<close>

lemma nonterminal_branch:
  "lookup_rule G rule = Some nt \<Longrightarrow> nonterminal_parse n run G rule c =
     (case memo_lookup rule (m_position c) c of
        None \<Rightarrow> parse_fresh n run nt rule (m_position c) (snd (rule_state rule (m_position c) c))
      | Some st \<Rightarrow> reenter rule (m_position c) st c)"
  using rule_state_fst [of rule "m_position c" c] memo_hit_same [of rule "m_position c" c]
  by (cases "rule_state rule (m_position c) c"; cases "memo_lookup rule (m_position c) c")
     (simp_all add: nonterminal_parse_def mark_def)

lemma nonterminal_cases:
  assumes "lookup_rule G rule = Some nt"
    and "memo_lookup rule (m_position c) c = None \<Longrightarrow>
      post (parse_fresh n run nt rule (m_position c) (snd (rule_state rule (m_position c) c))) Q F"
    and "\<And>st. memo_lookup rule (m_position c) c = Some st \<Longrightarrow> post (reenter rule (m_position c) st c) Q F"
  shows "post (nonterminal_parse n run G rule c) Q F"
  using assms(2,3) unfolding nonterminal_branch [OF assms(1)] by (auto split: option.split)

end
