(* ===== verification/Packrat.thy ===== *)
theory Packrat
  imports Agreement
begin

text \<open>
  The engine agrees with the reference recogniser: whenever the recogniser gives an
  expression a result at a position, a parse that ends gives the same result, whatever the
  memo already holds, as long as its entries agree with the recogniser. The recogniser has
  no meaning for a left-recursive call, so a running rule is never entered again at its
  position while the theorem applies: its evaluation would need more fuel than it has.
\<close>

subsection \<open>Sound states\<close>

abbreviation ev_says :: "('c, 'v) grammar \<Rightarrow> 'c verdict" where
  "ev_says G \<equiv> (\<lambda>input r p. evals G input (RuleExpr r) p)"

definition sound :: "('c, 'v) grammar \<Rightarrow> 'c ctx \<Rightarrow> bool" where
  "sound G c = memo_sound True None (ev_says G) G c"

text \<open>The rules that are running are not resolved by the recogniser within fuel \<open>h\<close>.\<close>

definition pending :: "nat \<Rightarrow> ('c, 'v) grammar \<Rightarrow> 'c ctx \<Rightarrow> bool" where
  "pending h G c = (\<forall>(r, p) \<in> set (frame_ids c). ev h G (m_input c) (RuleExpr r) p = None)"

lemma sound_wf: "sound G c \<Longrightarrow> wf_state G c"
  by (simp add: sound_def memo_sound_wf)

lemma sound_skipper: "sound G c \<Longrightarrow> m_skipper c = None"
  by (simp add: sound_def memo_sound_skipper)

lemma sound_uncut: "sound G c \<Longrightarrow> no_cuts c"
  by (simp add: sound_def memo_sound_no_cuts)

lemma sound_entry:
  "sound G c \<Longrightarrow> memo_lookup r p c = Some st \<Longrightarrow> (r, p) \<notin> set (frame_ids c) \<Longrightarrow>
   evals G (m_input c) (RuleExpr r) p (entry_res st)"
  unfolding sound_def by (rule memo_sound_entry)

lemma pending_less: "pending m G c \<Longrightarrow> n \<le> m \<Longrightarrow> pending n G c"
  unfolding pending_def using ev_le [of n m] by (fastforce simp: le_opt_def)

lemma pending_same: "pending h G c \<Longrightarrow> frame_ids c' = frame_ids c \<Longrightarrow> m_input c' = m_input c \<Longrightarrow> pending h G c'"
  by (simp add: pending_def)

lemma pending_step: "pending h G c \<Longrightarrow> step_rel G c c' \<Longrightarrow> pending h G c'"
  by (rule pending_same [OF _ step_frame_ids step_input])

interpretation sound_inv: quiet_invariant "sound G" for G :: "('c, 'v) grammar"
proof
  fix c c' :: "'c ctx"
  show "sound G c \<Longrightarrow> m_position c \<le> input_size c"
    by (rule wf_state_pos [OF sound_wf])
  assume "sound G c" "m_position c' \<le> input_size c'" "m_input c' = m_input c" "m_skipper c' = m_skipper c"
    "length (m_node_arena c) \<le> length (m_node_arena c')" "no_cuts c \<Longrightarrow> no_cuts c'" "m_lr_stack c' = m_lr_stack c" "m_mem c' = m_mem c"
  then show "sound G c'"
    using memo_sound_but_same [of True None _ _ G c c'] by (simp add: sound_def memo_sound_def frame_ids_def)
qed

interpretation engine_inv: quiet_invariant "\<lambda>c. sound G c \<and> pending h G c" for h and G :: "('c, 'v) grammar"
proof
  fix c c' :: "'c ctx"
  show "sound G c \<and> pending h G c \<Longrightarrow> m_position c \<le> input_size c"
    using sound_inv.in_bounds by blast
  assume "sound G c \<and> pending h G c" "m_position c' \<le> input_size c'" "m_input c' = m_input c" "m_skipper c' = m_skipper c"
    "length (m_node_arena c) \<le> length (m_node_arena c')" "no_cuts c \<Longrightarrow> no_cuts c'" "m_lr_stack c' = m_lr_stack c" "m_mem c' = m_mem c"
  then show "sound G c' \<and> pending h G c'"
    using sound_inv.quiet_step [of G c c'] pending_same [of h G c c'] by (simp add: frame_ids_def)
qed

subsection \<open>Children that agree\<close>

abbreviation good ::
  "('c, 'v) grammar \<Rightarrow> 'c ctx \<Rightarrow> nat option \<Rightarrow> parse_result \<Rightarrow> 'c ctx \<Rightarrow> bool" where
  "good G c res r c' \<equiv> agrees res r c' \<and> sound G c' \<and> ret_rel G c r c'"

locale packrat_parsers = child_parsers G run skip
  for G :: "('c, 'v) grammar"
    and run :: "'c expr \<Rightarrow> 'c parser"
    and skip :: "'c ctx \<Rightarrow> ('c, unit) parse_outcome" +
  fixes h :: nat
  assumes run_sound: "wf_expr G e \<Longrightarrow> sound G c \<Longrightarrow> pending h G c \<Longrightarrow>
      ev h G (m_input c) e (m_position c) = Some res \<Longrightarrow>
      post (run e c) (\<lambda>r c'. agrees res r c' \<and> sound G c') no_throw"
    and skip_idle: "m_skipper c = None \<Longrightarrow> skip c = Ret () c"
begin

lemma run_good:
  assumes "wf_expr G e" "sound G c" "pending h G c"
    and "ev h G (m_input c) e (m_position c) = Some res"
  shows "post (run e c) (good G c res) no_throw"
  by (rule post_mono [OF post_conj [OF run_sound [OF assms] run_contract [OF assms(1) sound_wf [OF assms(2)]]]])
     simp_all

end

sublocale packrat_parsers < agr: agreeing_parsers G run skip "\<lambda>c. sound G c \<and> pending h G c" "ev h G"
proof
  fix e c res
  assume e: "wf_expr G e" and c: "sound G c \<and> pending h G c" and ev: "ev h G (m_input c) e (m_position c) = Some res"
  have "post (run e c) (good G c res) no_throw" using c by (intro run_good e ev) auto
  then show "post (run e c) (\<lambda>r c'. agrees res r c' \<and> sound G c' \<and> pending h G c') no_throw"
    by (rule post_mono) (use c pending_step in \<open>auto simp: ret_rel_def\<close>)
qed (auto simp: sound_wf sound_skipper sound_uncut skip_idle)

subsection \<open>Rules\<close>

lemma sound_step:
  assumes "sound G s" and "wf_state G s'" and "frame_step k s s'" and "k \<in> set (frame_ids s)"
  shows "sound G s'"
  using assms unfolding sound_def by (rule memo_sound_frame_step)

text \<open>What the runs of a body keep.\<close>

definition running :: "nat \<Rightarrow> ('c, 'v) grammar \<Rightarrow> 'c ctx \<Rightarrow> rule_ref \<Rightarrow> 'c ctx \<Rightarrow> bool" where
  "running h G c rule s \<longleftrightarrow> sound G s \<and> pending h G s \<and> m_input s = m_input c \<and> (rule, m_position c) \<in> set (frame_ids s)"

lemma running_step:
  "running h G c rule s \<Longrightarrow> wf_state G s' \<Longrightarrow> frame_step (rule, m_position c) s s' \<Longrightarrow> running h G c rule s'"
  using sound_step [of G s s' "(rule, m_position c)"] pending_same [of h G s s']
  by (simp add: running_def frame_step_def)

lemma running_ret: "running h G c rule s \<Longrightarrow> good G s res r s' \<Longrightarrow> running h G c rule s'"
  using pending_step [of h G s s'] step_input [of G s s'] step_frame_ids [of G s s']
  by (simp add: running_def ret_rel_def)

lemma running_entered:
  assumes "sound G c" "pending h G c" "ev h G (m_input c) (RuleExpr rule) (m_position c) = None"
  shows "running h G c rule (entered rule c)"
  using assms memo_sound_entered [of True None "ev_says G" G c rule] by (simp add: running_def sound_def pending_def)

lemma rule_left_good:
  assumes c: "sound G c" and nt: "lookup_rule G rule = Some nt" "m_rule nt = Some e"
    and ev: "ev h G (m_input c) e (m_position c) = Some bres"
    and s: "sound G s" "same_but_stack (rule, m_position c) s c4" and left: "rule_left G c bres inner st c4"
  shows "post (if \<not> success inner then rule_failed nt rule (m_position c) st c4
      else rule_matched nt rule (m_position c) st inner c4)
    (\<lambda>r c'. agrees (ev_recover nt (m_input c) (m_position c) bres) r c' \<and> sound G c') no_throw"
proof -
  have "ev (Suc h) G (m_input c) (RuleExpr rule) (m_position c) = Some (ev_recover nt (m_input c) (m_position c) bres)"
    using nt ev by simp
  then have "evals G (m_input c) (RuleExpr rule) (m_position c) (ev_recover nt (m_input c) (m_position c) bres)"
    unfolding evals_def by blast
  then show ?thesis
    using rule_left_agrees [of True None "ev_says G" G c s rule c4 bres inner st nt] c s left
    by (simp add: sound_def rets_imp_post)
qed

context packrat_parsers
begin

lemma body_running:
  assumes "wf_expr G e" and "ev h G (m_input c) e (m_position c) = Some bres"
    and "running h G c rule s" and "m_position s = m_position c"
  shows "post (run e s) (\<lambda>r s'. good G s bres r s' \<and> running h G c rule s') no_throw"
proof -
  have "post (run e s) (good G s bres) no_throw"
    using assms by (intro run_good) (auto simp: running_def)
  then show ?thesis
    by (rule post_mono) (use running_ret [OF assms(3)] in blast)+
qed

text \<open>A rule the recogniser resolves, with any further property \<open>J\<close> of its growth, and \<open>K\<close> once
  its body has run.\<close>

lemma fresh_rule_after:
  assumes c: "sound G c" "pending h G c" and nt: "lookup_rule G rule = Some nt" "m_rule nt = Some e"
    and new: "ev h G (m_input c) (RuleExpr rule) (m_position c) = None"
    and ev: "ev h G (m_input c) e (m_position c) = Some bres"
    and J_step: "\<And>b s s'. J b s \<Longrightarrow> frame_step (rule, m_position c) s s' \<Longrightarrow> (rule, m_position c) \<in> set (frame_ids s) \<Longrightarrow> J b s'"
    and K_step: "\<And>b s s'. K b s \<Longrightarrow> frame_step (rule, m_position c) s s' \<Longrightarrow> (rule, m_position c) \<in> set (frame_ids s) \<Longrightarrow> K b s'"
    and K_J: "\<And>b s. K b s \<Longrightarrow> J b s"
    and J_body: "\<And>b s. J b s \<Longrightarrow> sound G s \<Longrightarrow> pending h G s \<Longrightarrow> m_position s = m_position c \<Longrightarrow>
      m_input s = m_input c \<Longrightarrow> post (run e s) (\<lambda>r. K (if success r \<and> \<not> success b then r else b)) no_throw"
    and J_enter: "J null_result (entered rule c)"
    and J_leave: "\<And>inner st s c4. K inner s \<Longrightarrow> sound G s \<Longrightarrow> same_but_stack (rule, m_position c) s c4 \<Longrightarrow>
      rule_left G c bres inner st c4 \<Longrightarrow>
      post (if \<not> success inner then rule_failed nt rule (m_position c) st c4
            else rule_matched nt rule (m_position c) st inner c4) Q no_throw"
  shows "post (parse_fresh n run nt rule (m_position c) (snd (rule_state rule (m_position c) c))) Q no_throw"
proof -
  let ?J = "\<lambda>b s. running h G c rule s \<and> J b s" and ?K = "\<lambda>b s. running h G c rule s \<and> K b s"
  have wfe: "wf_expr G e"
    using sound_wf [OF c(1)] wf_grammar_body [OF _ nt] by (simp add: wf_state_def)
  show ?thesis
  proof (rule parse_fresh_after [where J = ?J and K = ?K and t = False, unfolded yields_partial,
      OF nt sound_wf [OF c(1)] _ _ _ _ _ _ grow_const])
    fix st b s re
    assume s: "?J b s" "m_position s = m_position c" and head: "grow_head (\<lambda>_. Some bres) (m_position c) b st"
      and re: "Some bres = Some re"
    have "post (run e s) (\<lambda>r s'. (good G s bres r s' \<and> running h G c rule s') \<and>
        K (if success r \<and> \<not> success b then r else b) s') no_throw"
      using s by (intro post_conj [OF body_running [OF wfe ev] J_body]) (auto simp: running_def)
    then show "post (run e s) (\<lambda>r s'. agrees re r s' \<and> ?K (if grows st r s' then r else b) s') no_throw"
      by (rule post_mono) (use re in \<open>simp_all add: grow_const_stays [OF head]\<close>)
  next
    fix b s s' assume "?J b s" "wf_state G s'" "frame_step (rule, m_position c) s s'"
    moreover from this have "(rule, m_position c) \<in> set (frame_ids s)" by (simp add: running_def)
    ultimately show "?J b s'"
      using running_step J_step by blast
  next
    fix b s s' assume "?K b s" "wf_state G s'" "frame_step (rule, m_position c) s s'"
    moreover from this have "(rule, m_position c) \<in> set (frame_ids s)" by (simp add: running_def)
    ultimately show "?K b s'"
      using running_step K_step by blast
  next
    show "?J b s" if "?K b s" for b s using that K_J by blast
  next
    show "?J null_result (entered rule c)" using running_entered [OF c new] J_enter by simp
  next
    fix inner st s c4 assume "?K inner s" "same_but_stack (rule, m_position c) s c4" "rule_left G c bres inner st c4"
    then show "post (if \<not> success inner then rule_failed nt rule (m_position c) st c4
        else rule_matched nt rule (m_position c) st inner c4) Q no_throw"
      by (intro J_leave) (auto simp: running_def)
  qed simp_all
qed

lemma fresh_rule:
  assumes c: "sound G c" "pending h G c" and nt: "lookup_rule G rule = Some nt" "m_rule nt = Some e"
    and new: "ev h G (m_input c) (RuleExpr rule) (m_position c) = None"
    and ev: "ev h G (m_input c) e (m_position c) = Some bres"
    and J_step: "\<And>b s s'. J b s \<Longrightarrow> frame_step (rule, m_position c) s s' \<Longrightarrow> (rule, m_position c) \<in> set (frame_ids s) \<Longrightarrow> J b s'"
    and J_body: "\<And>b s. J b s \<Longrightarrow> sound G s \<Longrightarrow> pending h G s \<Longrightarrow> m_position s = m_position c \<Longrightarrow>
      m_input s = m_input c \<Longrightarrow> post (run e s) (\<lambda>r. J (if success r \<and> \<not> success b then r else b)) no_throw"
    and J_enter: "J null_result (entered rule c)"
    and J_leave: "\<And>inner st s c4. J inner s \<Longrightarrow> sound G s \<Longrightarrow> same_but_stack (rule, m_position c) s c4 \<Longrightarrow>
      rule_left G c bres inner st c4 \<Longrightarrow>
      post (if \<not> success inner then rule_failed nt rule (m_position c) st c4
            else rule_matched nt rule (m_position c) st inner c4) Q no_throw"
  shows "post (parse_fresh n run nt rule (m_position c) (snd (rule_state rule (m_position c) c))) Q no_throw"
  by (rule fresh_rule_after [where J = J and K = J, OF c nt new ev J_step J_step _ J_body J_enter J_leave])

lemma step_good:
  assumes run: "run = parse n G" and skip: "skip = run_skipper (\<lambda>r. parse n G (RuleExpr r))"
    and "wf_expr G e" "sound G c" "pending h G c" and no_rule: "\<forall>r. e \<noteq> RuleExpr r"
    and ev: "ev (Suc h) G (m_input c) e (m_position c) = Some res"
  shows "post (parse (Suc n) G e c) (\<lambda>r c'. agrees res r c' \<and> sound G c') no_throw"
proof -
  have "ev_step h G (m_input c) (ev h G (m_input c)) e (m_position c) = Some res"
    using ev ev_other [OF no_rule] by metis
  then have "post (parse (Suc n) G e c) (\<lambda>r c'. agrees res r c' \<and> sound G c' \<and> pending h G c') no_throw"
    using assms by (intro agr.step_agrees) simp_all
  then show ?thesis by (rule post_mono) simp_all
qed

lemma nonterminal_good:
  assumes c: "sound G c" "pending (Suc h) G c" and rule: "defined_rule G rule"
    and ev: "ev (Suc h) G (m_input c) (RuleExpr rule) (m_position c) = Some res"
    and new: "ev h G (m_input c) (RuleExpr rule) (m_position c) = None"
  shows "post (nonterminal_parse n run G rule c) (\<lambda>r c'. agrees res r c' \<and> sound G c') no_throw"
proof -
  obtain nt e where nt: "lookup_rule G rule = Some nt" "m_rule nt = Some e"
    using rule by (auto simp: defined_rule_def is_defined_def split: option.splits)
  obtain bres where bres: "ev h G (m_input c) e (m_position c) = Some bres"
    and res: "res = ev_recover nt (m_input c) (m_position c) bres"
    using ev nt by auto
  have idle: "(rule, m_position c) \<notin> set (frame_ids c)"
    using c(2) ev by (auto simp: pending_def simp del: ev.simps)
  have wfe: "wf_expr G e"
    using sound_wf [OF c(1)] wf_grammar_body [OF _ nt] by (simp add: wf_state_def)
  show ?thesis
  proof (rule nonterminal_cases [OF nt(1)])
    assume "memo_lookup rule (m_position c) c = None"
    show "post (parse_fresh n run nt rule (m_position c) (snd (rule_state rule (m_position c) c)))
        (\<lambda>r c'. agrees res r c' \<and> sound G c') no_throw"
      unfolding res
    proof (rule fresh_rule [where J = "\<lambda>_ _. True", OF c(1) pending_less [OF c(2)] nt new bres])
      fix s assume "sound G s" "pending h G s" "m_position s = m_position c" "m_input s = m_input c"
      then show "post (run e s) (\<lambda>r s'. True) no_throw"
        using run_good [OF wfe, of s bres] bres by (cases "run e s") auto
    qed (simp_all add: rule_left_good [OF c(1) nt bres] del: if_split)
  next
    fix st assume st: "memo_lookup rule (m_position c) c = Some st"
    have "evals G (m_input c) (RuleExpr rule) (m_position c) res"
      using ev unfolding evals_def by blast
    then have "res = entry_res st"
      using sound_entry [OF c(1) st idle] by (rule evals_unique)
    then show "post (reenter rule (m_position c) st c) (\<lambda>r c'. agrees res r c' \<and> sound G c') no_throw"
      using rets_imp_post [OF reenter_entry [OF sound_wf [OF c(1)] st], of no_throw] c(1) memo_sound_only_position
      by (auto simp: sound_def elim!: post_mono)
  qed
qed

end

subsection \<open>The engine\<close>

lemma run_skipper_idle: "m_skipper c = None \<Longrightarrow> run_skipper p c = Ret () c"
  by (simp add: run_skipper_def)

lemma packrat_parsersI:
  assumes "\<And>n e c res. wf_expr G e \<Longrightarrow> sound G c \<Longrightarrow> pending h G c \<Longrightarrow>
      ev h G (m_input c) e (m_position c) = Some res \<Longrightarrow>
      post (parse n G e c) (\<lambda>r c'. agrees res r c' \<and> sound G c') no_throw"
  shows "packrat_parsers G (parse n G) (run_skipper (\<lambda>r. parse n G (RuleExpr r))) h"
  using assms
  by (intro packrat_parsers.intro packrat_parsers_axioms.intro engine_child_parsers run_skipper_idle)

lemma engine_agrees:
  "wf_expr G e \<Longrightarrow> sound G c \<Longrightarrow> pending h G c \<Longrightarrow> ev h G (m_input c) e (m_position c) = Some res \<Longrightarrow>
   post (parse n G e c) (\<lambda>r c'. agrees res r c' \<and> sound G c') no_throw"
proof (induction h arbitrary: n e c res)
  case 0
  then show ?case by simp
next
  case (Suc h)
  have kids: "packrat_parsers G (parse m G) (run_skipper (\<lambda>r. parse m G (RuleExpr r))) h" for m
    by (rule packrat_parsersI) (rule Suc.IH)
  have pend: "pending h G c" by (rule pending_less [OF Suc.prems(3)]) simp
  show ?case
  proof (cases n)
    case 0
    then show ?thesis by simp
  next
    case n: (Suc m)
    show ?thesis
    proof (cases "\<exists>r. e = RuleExpr r")
      case True
      then obtain r where RuleExpr: "e = RuleExpr r" by blast
      show ?thesis
      proof (cases "ev h G (m_input c) (RuleExpr r) (m_position c)")
        case (Some res')
        then have "res' = res"
          using ev_more [OF Some, of "Suc h"] Suc.prems(4) RuleExpr by simp
        then show ?thesis
          using Suc.IH [OF Suc.prems(1,2) pend] Some RuleExpr by simp
      next
        case None
        then show ?thesis
          using packrat_parsers.nonterminal_good [OF kids [of m] Suc.prems(2,3) _ _ None, of res m]
            Suc.prems(1,4) RuleExpr n by simp
      qed
    next
      case False
      then show ?thesis
        using packrat_parsers.step_good [OF kids [of m] refl refl Suc.prems(1,2) pend] Suc.prems(4) n by blast
    qed
  qed
qed

interpretation packrat: packrat_parsers G "parse n G" "run_skipper (\<lambda>r. parse n G (RuleExpr r))" h
  for n h G
  by (rule packrat_parsersI) (rule engine_agrees)

subsection \<open>Properties\<close>

lemma start_ctx_sound: "wf_grammar G \<Longrightarrow> sound G (start_ctx None input)"
  by (simp add: sound_def memo_sound_def memo_sound_but_def start_ctx_wf skipper_ok_def no_cuts_def memo_lookup_def frame_ids_def)

lemma start_ctx_pending: "pending h G (start_ctx s input)"
  by (simp add: pending_def frame_ids_def)

text \<open>A cut-free parse of an expression that has a result.\<close>

lemma cut_free_agrees:
  assumes "wf_grammar G" and "cut_free_grammar G" and "wf_expr G e" and "cut_free e"
    and "ev h G input e 0 = Some res" and "fuel_bound G e input \<le> n"
  shows "\<exists>r c. parse n G e (start_ctx None input) = Ret r c \<and> good G (start_ctx None input) res r c"
proof -
  have "skipper_ok G None" by (simp add: skipper_ok_def)
  then obtain r c where ret: "parse n G e (start_ctx None input) = Ret r c"
    using cut_free_total [OF assms(1,2) _ assms(3,4,6)] by blast
  have "good G (start_ctx None input) res r c"
    using packrat.run_good [OF assms(3) start_ctx_sound [OF assms(1)] start_ctx_pending, of h input res n] assms(5) ret
    by simp
  with ret show ?thesis by blast
qed

text \<open>
  C1: the engine computes the semantics of parsing expressions: with a cut-free grammar and
  no skipper, whenever the recogniser gives the expression a result on the input, the parse
  returns, with success and the end of the match if the recogniser matches, and with
  failure and nothing consumed if it fails. Memo, invocation stack, growing seeds and tree
  building do not change what is recognised.
\<close>

theorem engine_equals_recogniser:
  assumes "wf_grammar G" and "cut_free_grammar G" and "wf_expr G e" and "cut_free e"
    and "ev h G input e 0 = Some res" and "fuel_bound G e input \<le> n"
  shows "\<exists>r c. parse n G e (start_ctx None input) = Ret r c \<and>
    (case res of None \<Rightarrow> \<not> success r \<and> m_position c = 0
     | Some q \<Rightarrow> success r \<and> m_position c = q)"
  using cut_free_agrees [OF assms] by (auto simp: agrees_def ret_rel_def split: option.splits)

text \<open>\<open>P = 0 P 1 | 0 1\<close> and \<open>Q = &P (0 | 1)* \<close>.\<close>

definition nest_grammar :: "(nat, nat) grammar" where
  "nest_grammar =
     \<lparr>m_rules =
        [(''P'', new_non_terminal\<lparr>m_rule := Some (AlternationExpr
            [SequenceExpr [TerminalExpr (TValue 0), RuleExpr ''P'', TerminalExpr (TValue 1)],
             TerminalSeqExpr [0, 1]]), m_name := ''P''\<rparr>),
         (''Q'', new_non_terminal\<lparr>m_rule := Some (SequenceExpr
            [AndExpr (RuleExpr ''P''), ZeroOrMoreExpr (TerminalExpr (TRange 0 1))]), m_name := ''Q''\<rparr>)],
      m_start = ''Q'', g_skipper = None, g_ops = token_ops None (\<le>)\<rparr>"

lemma nest_wf: "wf_grammar nest_grammar" "cut_free_grammar nest_grammar" "wf_expr nest_grammar (RuleExpr ''Q'')"
  by (simp_all add: nest_grammar_def wf_grammar_def cut_free_grammar_def defined_rule_def
       lookup_rule_def is_defined_def new_non_terminal_def token_ops_def)

lemma nest_ev: "ev 20 nest_grammar [0, 0, 1, 1, 1] (RuleExpr ''Q'') 0 = Some (Some 5)"
  by code_simp

theorem engine_equals_recogniser_witness:
  "\<exists>r c. parse 500 nest_grammar (RuleExpr ''Q'') (start_ctx None [0, 0, 1, 1, 1]) = Ret r c \<and>
     success r \<and> m_position c = 5"
proof -
  have "fuel_bound nest_grammar (RuleExpr ''Q'') [0, 0, 1, 1, 1] \<le> 500"
    by (simp add: nest_grammar_def fuel_bound_def grammar_size_def body_size_def new_non_terminal_def)
  from engine_equals_recogniser [OF nest_wf _ nest_ev this] show ?thesis by simp
qed

text \<open>
  C15: the memo is sound where the recogniser decides the parse: if it gives the start
  expression a result on the input, so that no left recursion and no cut is met on the way,
  then after the parse, run without a skipper, every entry left in the memo (for whatever
  rule, at whatever position, from a successful or a failed attempt) is what the recogniser
  gives for that rule at that position. With indirect left recursion the memo can keep entries
  that are not (\<open>Left_Iteration.indirect_recursion_stale_entry\<close>).
\<close>

theorem memo_entries_sound:
  assumes "wf_grammar G" and "wf_expr G e" and "ev h G input e 0 = Some res"
    and "parse n G e (start_ctx None input) = Ret r c" and "memo_lookup rule p c = Some st"
  shows "evals G input (RuleExpr rule) p (if success (m_cached_result st) then Some (m_last_pos st) else None)"
proof -
  have start: "sound G (start_ctx None input)"
    by (rule start_ctx_sound [OF assms(1)])
  have s: "sound G c" and ret: "ret_rel G (start_ctx None input) r c"
    using engine_agrees [OF assms(2) start start_ctx_pending, of h res n] assms(3,4)
      eng.run_contract [OF assms(2) sound_wf [OF start], of n] by auto
  have "frame_ids c = []"
    using frame_ids_keys [of c "start_ctx None input"] ret by (simp add: ret_rel_def step_rel_def frame_ids_def)
  moreover have "m_input c = input"
    using ret by (simp add: ret_rel_def step_rel_def same_env_def)
  ultimately show ?thesis
    using sound_entry [OF s assms(5)] by (simp add: entry_res_def)
qed

definition memo_summary ::
  "('c, parse_result) parse_outcome \<Rightarrow> rule_ref \<Rightarrow> nat \<Rightarrow> (bool \<times> nat) option" where
  "memo_summary m rule p = (case m of
      Ret r c \<Rightarrow> map_option (\<lambda>st. (success (m_cached_result st), m_last_pos st)) (memo_lookup rule p c)
    | _ \<Rightarrow> None)"

lemma memo_summary_RetE:
  assumes "memo_summary m rule p = Some (b, q)"
  obtains r c st where "m = Ret r c" "memo_lookup rule p c = Some st"
    "success (m_cached_result st) = b" "m_last_pos st = q"
  using assms by (cases m) (auto simp: memo_summary_def)

lemma nest_memo: "memo_summary (parse 12 nest_grammar (RuleExpr ''Q'') (start_ctx None [0, 1])) ''P'' 1 = Some (False, 1)"
  by code_simp

lemma nest_ev2: "ev 12 nest_grammar [0, 1] (RuleExpr ''Q'') 0 = Some (Some 2)"
  by code_simp

theorem memo_entries_sound_witness: "evals nest_grammar [0, 1] (RuleExpr ''P'') 1 None"
proof -
  obtain r c st where m: "parse 12 nest_grammar (RuleExpr ''Q'') (start_ctx None [0, 1]) = Ret r c"
      "memo_lookup ''P'' 1 c = Some st" "\<not> success (m_cached_result st)"
    using memo_summary_RetE [OF nest_memo] by metis
  from memo_entries_sound [OF nest_wf(1,3) nest_ev2 m(1,2)] m(3) show ?thesis by simp
qed

end
