(* ===== verification/Grammar_Rules.thy ===== *)
theory Grammar_Rules
  imports Expr
begin

text \<open>
  The ownership of the rules: \<open>Grammar::operator[]\<close>, \<open>find\<close>, \<open>has_rule\<close>, \<open>rule_names\<close>, the
  start rule and the skipper (\<open>include/peglib/Grammar.h\<close>), and the handles that give a rule
  its body, label, recovery, action and hook (\<open>Rule\<close> and \<open>RuleHandle\<close> of
  \<open>include/peglib/NonTerminal.h\<close>). A handle is the name of its rule: its pointer is the
  address under which the grammar owns that name for its whole life.
\<close>

subsection \<open>The map of rules\<close>

definition new_grammar :: "'c elem_ops \<Rightarrow> ('c, 'v) grammar" where
  "new_grammar ops = \<lparr>m_rules = [], m_start = [], g_skipper = None, g_ops = ops\<rparr>"

text \<open>\<open>std::map\<close>: a new key goes to its place in the order.\<close>

fun try_emplace ::
  "rule_ref \<Rightarrow> ('c, 'v) non_terminal \<Rightarrow> (rule_ref \<times> ('c, 'v) non_terminal) list
     \<Rightarrow> bool \<times> (rule_ref \<times> ('c, 'v) non_terminal) list" where
  "try_emplace r nt [] = (True, [(r, nt)])"
| "try_emplace r nt ((k, v) # rest) =
     (if r < k then (True, (r, nt) # (k, v) # rest)
      else if r = k then (False, (k, v) # rest)
      else (let (inserted, rest') = try_emplace r nt rest in (inserted, (k, v) # rest')))"

definition grammar_index :: "string \<Rightarrow> ('c, 'v) grammar \<Rightarrow> 'c expr \<times> ('c, 'v) grammar" where
  "grammar_index name G =
     (let (inserted, rules) = try_emplace name new_non_terminal (m_rules G)
      in (RuleExpr name, G\<lparr>m_rules := rules\<rparr>))"

definition grammar_find :: "string \<Rightarrow> ('c, 'v) grammar \<Rightarrow> 'c expr option" where
  "grammar_find name G = (case lookup_rule G name of None \<Rightarrow> None | Some _ \<Rightarrow> Some (RuleExpr name))"

definition has_rule :: "string \<Rightarrow> ('c, 'v) grammar \<Rightarrow> bool" where
  "has_rule name G \<longleftrightarrow> lookup_rule G name \<noteq> None"

definition rule_names :: "('c, 'v) grammar \<Rightarrow> string list" where
  "rule_names G = map fst (m_rules G)"

definition set_start :: "string \<Rightarrow> ('c, 'v) grammar \<Rightarrow> ('c, 'v) grammar" where
  "set_start name G = G\<lparr>m_start := name\<rparr>"

definition undefined_rules :: "('c, 'v) grammar \<Rightarrow> string list" where
  "undefined_rules G = map fst (filter (\<lambda>(name, nt). \<not> is_defined nt) (m_rules G))"

text \<open>The exceptions of the interface of a grammar.\<close>

datatype api_error =
    LogicError string
  | OutOfRange string
  | InvalidArgument string
  | EscapedParseError parse_error

definition set_skipper :: "rule_ref \<Rightarrow> ('c, 'v) grammar \<Rightarrow> api_error + ('c, 'v) grammar" where
  "set_skipper r G =
     (case lookup_rule G r of
        Some nt \<Rightarrow>
          if \<not> is_defined nt then Inl (InvalidArgument ''Grammar::set_skipper: rule is not defined'')
          else Inr (G\<lparr>g_skipper := Some r\<rparr>)
      | None \<Rightarrow> Inl (InvalidArgument ''Grammar::set_skipper: rule is not defined''))"

definition clear_skipper :: "('c, 'v) grammar \<Rightarrow> ('c, 'v) grammar" where
  "clear_skipper G = G\<lparr>g_skipper := None\<rparr>"

definition has_skipper :: "('c, 'v) grammar \<Rightarrow> bool" where
  "has_skipper G \<longleftrightarrow> g_skipper G \<noteq> None"

subsection \<open>Handles\<close>

text \<open>A write through the pointer of a handle.\<close>

definition upd_rule ::
  "rule_ref \<Rightarrow> (('c, 'v) non_terminal \<Rightarrow> ('c, 'v) non_terminal) \<Rightarrow> ('c, 'v) grammar \<Rightarrow> ('c, 'v) grammar" where
  "upd_rule r f G = G\<lparr>m_rules := map (\<lambda>(k, nt). (k, if k = r then f nt else nt)) (m_rules G)\<rparr>"

definition rule_assign :: "rule_ref \<Rightarrow> 'c expr \<Rightarrow> ('c, 'v) grammar \<Rightarrow> ('c, 'v) grammar" where
  "rule_assign r e G = upd_rule r (\<lambda>nt. nt\<lparr>m_rule := Some e, m_name := r\<rparr>) G"

text \<open>
  The assignment of a handle: \<open>same_object\<close> tells whether both sides are the same C++
  object, which two calls of \<open>operator[]\<close> never return.
\<close>

definition rule_alias :: "bool \<Rightarrow> rule_ref \<Rightarrow> rule_ref \<Rightarrow> ('c, 'v) grammar \<Rightarrow> ('c, 'v) grammar" where
  "rule_alias same_object r rhs G =
     (if same_object then G
      else upd_rule r (\<lambda>nt. nt\<lparr>m_rule := Some (RuleExpr rhs), m_name := r\<rparr>) G)"

definition rule_set_label :: "rule_ref \<Rightarrow> string \<Rightarrow> ('c, 'v) grammar \<Rightarrow> ('c, 'v) grammar" where
  "rule_set_label r label G = upd_rule r (\<lambda>nt. nt\<lparr>m_label := label\<rparr>) G"

definition rule_set_recovery :: "rule_ref \<Rightarrow> 'c recover_spec \<Rightarrow> ('c, 'v) grammar \<Rightarrow> ('c, 'v) grammar" where
  "rule_set_recovery r spec G = upd_rule r (\<lambda>nt. nt\<lparr>m_recover := spec\<rparr>) G"

definition rule_on_match :: "rule_ref \<Rightarrow> bool \<Rightarrow> ('c, 'v) grammar \<Rightarrow> ('c, 'v) grammar" where
  "rule_on_match r hook G = upd_rule r (\<lambda>nt. nt\<lparr>m_on_match := hook\<rparr>) G"

text \<open>\<open>e\<close> is the expression of the \<open>RuleHandle\<close>: the body of the assignment that returned it.\<close>

definition rule_set_action ::
  "rule_ref \<Rightarrow> 'c expr \<Rightarrow> ('c, 'v) action \<Rightarrow> ('c, 'v) grammar \<Rightarrow> ('c, 'v) grammar" where
  "rule_set_action r e f G = upd_rule r (\<lambda>nt. nt\<lparr>m_typed_fold := Some (e, f)\<rparr>) G"

definition rule_has_recovery :: "('c, 'v) non_terminal \<Rightarrow> bool" where
  "rule_has_recovery nt \<longleftrightarrow> configured (m_recover nt)"

subsection \<open>Lemmas\<close>

lemma try_emplace_snd:
  assumes "sorted_wrt (<) (map fst rules)"
  shows "sorted_wrt (<) (map fst (snd (try_emplace r nt rules))) \<and>
    set (map fst (snd (try_emplace r nt rules))) = insert r (set (map fst rules)) \<and>
    map_of (snd (try_emplace r nt rules)) =
      (if map_of rules r = None then (map_of rules)(r \<mapsto> nt) else map_of rules)"
  using assms
proof (induction rules)
  case (Cons kv rest)
  obtain k v where kv: "kv = (k, v)" by (cases kv)
  have below: "map_of rest r = None" if "r \<le> k"
    using Cons.prems that kv by (auto simp: map_of_eq_None_iff)
  show ?case
    using Cons.IH Cons.prems kv below
    by (auto simp: split_beta fun_eq_iff)
qed auto

lemma lookup_upd_rule:
  "lookup_rule (upd_rule r f G) r' = (if r' = r then map_option f (lookup_rule G r) else lookup_rule G r')"
proof -
  have "map_of (map (\<lambda>(k, nt). (k, if k = r then f nt else nt)) rules) r' =
      (if r' = r then map_option f (map_of rules r) else map_of rules r')" for rules :: "(rule_ref \<times> ('a, 'b) non_terminal) list"
    by (induction rules) auto
  then show ?thesis
    by (simp add: lookup_rule_def upd_rule_def)
qed

interpretation rules: record_table lookup_rule upd_rule
  by unfold_locales (rule lookup_upd_rule)

lemma upd_rule_names [simp]: "rule_names (upd_rule r f G) = rule_names G"
  by (induction "m_rules G") (auto simp: rule_names_def upd_rule_def split_beta comp_def)

lemma upd_rule_fields [simp]:
  "m_start (upd_rule r f G) = m_start G" "g_skipper (upd_rule r f G) = g_skipper G"
  "g_ops (upd_rule r f G) = g_ops G"
  by (simp_all add: upd_rule_def)

lemma has_rule_iff: "has_rule r G \<longleftrightarrow> r \<in> set (rule_names G)"
  by (auto simp: has_rule_def lookup_rule_def rule_names_def map_of_eq_None_iff)

definition rules_ordered :: "('c, 'v) grammar \<Rightarrow> bool" where
  "rules_ordered G \<longleftrightarrow> sorted_wrt (<) (rule_names G)"

lemma rules_ordered_upd [simp]: "rules_ordered (upd_rule r f G) = rules_ordered G"
  by (simp add: rules_ordered_def)

lemma grammar_index_names:
  assumes "rules_ordered G"
  shows "rules_ordered (snd (grammar_index r G))"
    and "set (rule_names (snd (grammar_index r G))) = insert r (set (rule_names G))"
    and "lookup_rule (snd (grammar_index r G)) =
      (if has_rule r G then lookup_rule G else (lookup_rule G)(r \<mapsto> new_non_terminal))"
  using try_emplace_snd [of "m_rules G" r new_non_terminal] assms
  by (auto simp: rules_ordered_def rule_names_def grammar_index_def split_beta has_rule_def
      lookup_rule_def [abs_def])

lemma lookup_in_rules:
  assumes "rules_ordered G"
  shows "(r, nt) \<in> set (m_rules G) \<longleftrightarrow> lookup_rule G r = Some nt"
proof -
  have "distinct (map fst (m_rules G))"
    using assms sorted_wrt_less_distinct by (auto simp: rules_ordered_def rule_names_def)
  then show ?thesis
    by (simp add: lookup_rule_def map_of_eq_Some_iff)
qed

lemma set_undefined_rules:
  "rules_ordered G \<Longrightarrow>
   set (undefined_rules G) = {r. \<exists>nt. lookup_rule G r = Some nt \<and> \<not> is_defined nt}"
  by (force simp: undefined_rules_def lookup_in_rules [symmetric] image_iff)

lemma new_grammar_rules: "rules_ordered (new_grammar ops)" "rule_names (new_grammar ops) = []"
    "lookup_rule (new_grammar ops) r = None"
  by (simp_all add: rules_ordered_def new_grammar_def rule_names_def lookup_rule_def)

end
