(* ===== verification/Rule_Graph.thy ===== *)
theory Rule_Graph
  imports Grammar_Rules Contract
begin

text \<open>
  The analyses of \<open>include/peglib/Grammar.h\<close> over the references between rules:
  \<open>collect_rule_refs\<close> of every expression class, \<open>unreachable_rules\<close> and the DOT rendering
  \<open>to_dot\<close>. A \<open>std::set\<close> of names is a sorted list without duplicates, a
  \<open>std::vector\<close> used as a stack has its top at the end.
\<close>

subsection \<open>References\<close>

fun collect_rule_refs :: "'c expr \<Rightarrow> string list \<Rightarrow> string list" where
  "collect_rule_refs (SequenceExpr es) refs = fold collect_rule_refs es refs"
| "collect_rule_refs (AlternationExpr es) refs = fold collect_rule_refs es refs"
| "collect_rule_refs (ZeroOrMoreExpr e) refs = collect_rule_refs e refs"
| "collect_rule_refs (OneOrMoreExpr e) refs = collect_rule_refs e refs"
| "collect_rule_refs (NTimesExpr e n) refs = collect_rule_refs e refs"
| "collect_rule_refs (OptionalExpr e) refs = collect_rule_refs e refs"
| "collect_rule_refs (NotExpr e) refs = collect_rule_refs e refs"
| "collect_rule_refs (AndExpr e) refs = collect_rule_refs e refs"
| "collect_rule_refs (LexemeExpr e) refs = collect_rule_refs e refs"
| "collect_rule_refs (RuleExpr r) refs = insort_insert r refs"
| "collect_rule_refs (TerminalExpr v) refs = refs"
| "collect_rule_refs (TokenExpr v) refs = refs"
| "collect_rule_refs (TerminalSeqExpr vs) refs = refs"
| "collect_rule_refs (MatcherExpr fn) refs = refs"
| "collect_rule_refs EmptyExpr refs = refs"
| "collect_rule_refs CutExpr refs = refs"

definition nonterminal_refs :: "('c, 'v) non_terminal \<Rightarrow> string list" where
  "nonterminal_refs nt = (case m_rule nt of None \<Rightarrow> [] | Some e \<Rightarrow> collect_rule_refs e [])"

text \<open>The rules an expression mentions.\<close>

fun mentions :: "'c expr \<Rightarrow> string \<Rightarrow> bool" where
  "mentions (SequenceExpr es) r \<longleftrightarrow> list_ex (\<lambda>e. mentions e r) es"
| "mentions (AlternationExpr es) r \<longleftrightarrow> list_ex (\<lambda>e. mentions e r) es"
| "mentions (ZeroOrMoreExpr e) r \<longleftrightarrow> mentions e r"
| "mentions (OneOrMoreExpr e) r \<longleftrightarrow> mentions e r"
| "mentions (NTimesExpr e n) r \<longleftrightarrow> mentions e r"
| "mentions (OptionalExpr e) r \<longleftrightarrow> mentions e r"
| "mentions (NotExpr e) r \<longleftrightarrow> mentions e r"
| "mentions (AndExpr e) r \<longleftrightarrow> mentions e r"
| "mentions (LexemeExpr e) r \<longleftrightarrow> mentions e r"
| "mentions (RuleExpr q) r \<longleftrightarrow> q = r"
| "mentions _ r \<longleftrightarrow> False"

lemma fold_collect_set:
  "(\<And>e refs. e \<in> set es \<Longrightarrow> set (f e refs) = set refs \<union> M e) \<Longrightarrow>
   set (fold f es refs) = set refs \<union> (\<Union>e \<in> set es. M e)"
  by (induction es arbitrary: refs) auto

lemma set_collect_rule_refs: "set (collect_rule_refs e refs) = set refs \<union> {r. mentions e r}"
proof (induction e arbitrary: refs)
  case (SequenceExpr es)
  then show ?case
    by (subst collect_rule_refs.simps, subst fold_collect_set [where M = "\<lambda>e. {r. mentions e r}"])
       (auto simp: list_ex_iff)
next
  case (AlternationExpr es)
  then show ?case
    by (subst collect_rule_refs.simps, subst fold_collect_set [where M = "\<lambda>e. {r. mentions e r}"])
       (auto simp: list_ex_iff)
qed (auto simp: set_insort_insert)

lemma fold_keeps: "(\<And>e s. e \<in> set es \<Longrightarrow> P s \<Longrightarrow> P (f e s)) \<Longrightarrow> P s \<Longrightarrow> P (fold f es s)"
  by (induction es arbitrary: s) auto

lemma collect_rule_refs_ordered:
  "sorted refs \<and> distinct refs \<Longrightarrow> sorted (collect_rule_refs e refs) \<and> distinct (collect_rule_refs e refs)"
proof (induction e arbitrary: refs)
  case (SequenceExpr es)
  then show ?case
    by (subst (1 2) collect_rule_refs.simps) (rule fold_keeps; blast)
next
  case (AlternationExpr es)
  then show ?case
    by (subst (1 2) collect_rule_refs.simps) (rule fold_keeps; blast)
qed (auto simp: sorted_insort_insert distinct_insort_insert)

text \<open>One rule refers to another, in the grammar.\<close>

definition refers :: "('c, 'v) grammar \<Rightarrow> string \<Rightarrow> string \<Rightarrow> bool" where
  "refers G a b \<longleftrightarrow>
     (case lookup_rule G a of
        None \<Rightarrow> False
      | Some nt \<Rightarrow> (case m_rule nt of None \<Rightarrow> False | Some e \<Rightarrow> mentions e b))"

lemma set_nonterminal_refs: "lookup_rule G a = Some nt \<Longrightarrow> set (nonterminal_refs nt) = {b. refers G a b}"
  by (cases "m_rule nt") (auto simp: nonterminal_refs_def refers_def set_collect_rule_refs)

lemma distinct_nonterminal_refs: "distinct (nonterminal_refs nt)"
  using collect_rule_refs_ordered [of "[]"] by (auto simp: nonterminal_refs_def split: option.split)

subsection \<open>Reachability\<close>

fun push_new :: "string list \<Rightarrow> string list \<Rightarrow> string list \<Rightarrow> string list \<times> string list" where
  "push_new [] reachable queue = (reachable, queue)"
| "push_new (r # refs) reachable queue =
     (if r \<in> set reachable then push_new refs reachable queue
      else push_new refs (insort_insert r reachable) (queue @ [r]))"

definition all_refs :: "('c, 'v) grammar \<Rightarrow> string set" where
  "all_refs G = (\<Union>(r, nt) \<in> set (m_rules G). set (nonterminal_refs nt))"

lemma finite_all_refs: "finite (all_refs G)"
  by (auto simp: all_refs_def)

lemma push_new_set:
  "set (fst (push_new refs reachable queue)) = set reachable \<union> set refs"
  "set (snd (push_new refs reachable queue)) = set queue \<union> (set refs - set reachable)"
  by (induction refs reachable queue rule: push_new.induct) (auto simp: set_insort_insert)

lemma push_new_same: "set refs \<subseteq> set reachable \<Longrightarrow> push_new refs reachable queue = (reachable, queue)"
  by (induction refs reachable queue rule: push_new.induct) auto

function reach_loop :: "('c, 'v) grammar \<Rightarrow> string list \<Rightarrow> string list \<Rightarrow> string list" where
  "reach_loop G reachable queue =
     (if queue = [] then reachable
      else let name = List.last queue; rest = butlast queue
           in case lookup_rule G name of
                None \<Rightarrow> reach_loop G reachable rest
              | Some nt \<Rightarrow>
                  reach_loop G (fst (push_new (nonterminal_refs nt) reachable rest))
                    (snd (push_new (nonterminal_refs nt) reachable rest)))"
  by pat_completeness auto
termination
proof (relation "inv_image (less_than <*lex*> less_than)
    (\<lambda>(G :: ('c, 'v) grammar, reachable, queue :: string list).
        (card (all_refs G - set reachable), length queue))", goal_cases)
  case 1
  then show ?case by auto
next
  case (2 G reachable queue name rest)
  then show ?case by simp
next
  case (3 G reachable queue name rest nt)
  have sub: "set (nonterminal_refs nt) \<subseteq> all_refs G"
    using 3 by (fastforce simp: all_refs_def lookup_rule_def dest: map_of_SomeD)
  show ?case
  proof (cases "set (nonterminal_refs nt) \<subseteq> set reachable")
    case True
    then show ?thesis using 3 by (simp add: push_new_same)
  next
    case False
    then have "all_refs G - (set reachable \<union> set (nonterminal_refs nt)) \<subset> all_refs G - set reachable"
      using sub by blast
    then have "card (all_refs G - (set reachable \<union> set (nonterminal_refs nt))) < card (all_refs G - set reachable)"
      by (intro psubset_card_mono) (simp_all add: finite_all_refs)
    then show ?thesis by (simp add: push_new_set case_prod_unfold)
  qed
qed

declare reach_loop.simps [simp del]

definition unreachable_rules :: "('c, 'v) grammar \<Rightarrow> string list" where
  "unreachable_rules G =
     (if m_start G = [] then []
      else case lookup_rule G (m_start G) of
          None \<Rightarrow> []
        | Some _ \<Rightarrow>
            let reachable = reach_loop G [m_start G] [m_start G]
            in map fst (filter (\<lambda>(name, nt). is_defined nt \<and> name \<notin> set reachable) (m_rules G)))"

text \<open>
  The loop keeps what it has reached closed under references, up to the rules still in
  the queue, and reaches nothing else.
\<close>

lemma reach_loop_spec:
  assumes "set queue \<subseteq> set reachable"
    and "\<And>a b. a \<in> set reachable - set queue \<Longrightarrow> refers G a b \<Longrightarrow> b \<in> set reachable"
    and "\<And>b. b \<in> set reachable \<Longrightarrow> (refers G)\<^sup>*\<^sup>* s b" and "s \<in> set reachable"
  shows "set (reach_loop G reachable queue) = {b. (refers G)\<^sup>*\<^sup>* s b}"
  using assms
proof (induction G reachable queue rule: reach_loop.induct)
  case (1 G reachable queue)
  note prems = "1.prems"
  show ?case
  proof (cases "queue = []")
    case True
    have "b \<in> set reachable" if "(refers G)\<^sup>*\<^sup>* s b" for b
      using that by induction (use prems True in auto)
    then show ?thesis
      using True prems(3) by (auto simp: reach_loop.simps)
  next
    case False
    define name rest where nr: "name = List.last queue" "rest = butlast queue"
    have q: "set queue = insert name (set rest)"
      using False by (metis nr append_butlast_last_id rotate1.simps(2) set_rotate1 list.simps(15))
    show ?thesis
    proof (cases "lookup_rule G name")
      case None
      have "b \<in> set reachable" if "a \<in> set reachable - set rest" "refers G a b" for a b
      proof -
        have "a \<noteq> name" using that(2) None by (auto simp: refers_def)
        with that q show ?thesis by (intro prems(2) [OF _ that(2)]) simp
      qed
      then have "set (reach_loop G reachable rest) = {b. (refers G)\<^sup>*\<^sup>* s b}"
        using "1.IH"(1) [OF False nr None _ _ prems(3,4)] q prems(1) by blast
      then show ?thesis
        using False None by (simp add: reach_loop.simps [of G reachable queue] nr)
    next
      case (Some nt)
      define r' q' where p: "r' = fst (push_new (nonterminal_refs nt) reachable rest)"
        "q' = snd (push_new (nonterminal_refs nt) reachable rest)"
      have sets: "set r' = set reachable \<union> {b. refers G name b}"
          "set q' = set rest \<union> ({b. refers G name b} - set reachable)"
        by (simp_all add: p push_new_set set_nonterminal_refs [OF Some])
      have name: "(refers G)\<^sup>*\<^sup>* s name"
        using q prems(1,3) by blast
      have sub: "set q' \<subseteq> set r'" using sets q prems(1) by blast
      have closed: "b \<in> set r'" if "a \<in> set r' - set q'" "refers G a b" for a b
      proof (cases "a = name")
        case False
        then have "a \<in> set reachable - set queue" using that(1) sets q by blast
        from prems(2) [OF this that(2)] show ?thesis using sets by simp
      qed (use that sets in blast)
      have only: "(refers G)\<^sup>*\<^sup>* s b" if "b \<in> set r'" for b
        using that sets prems(3) rtranclp.rtrancl_into_rtrancl [OF name] by blast
      have "set (reach_loop G r' q') = {b. (refers G)\<^sup>*\<^sup>* s b}"
      proof (rule "1.IH"(2) [OF False nr Some, folded p])
        show "s \<in> set r'" using prems(4) sets(1) by simp
      qed (fact sub, fact closed, fact only)
      then show ?thesis
        using False Some by (simp add: reach_loop.simps [of G reachable queue] nr p Let_def)
    qed
  qed
qed

lemma reach_loop_start: "set (reach_loop G [s] [s]) = {b. (refers G)\<^sup>*\<^sup>* s b}"
  by (rule reach_loop_spec) auto

text \<open>
  C38: \<open>unreachable_rules\<close> lists, in order, exactly the defined rules that no chain of
  references leads to from the start rule, and nothing when there is no start rule or
  the grammar does not have it.
\<close>

theorem unreachable_rules_correct:
  "unreachable_rules G =
     (if m_start G \<noteq> [] \<and> has_rule (m_start G) G
      then map fst (filter (\<lambda>(name, nt). is_defined nt \<and> \<not> (refers G)\<^sup>*\<^sup>* (m_start G) name) (m_rules G))
      else [])"
  by (simp add: unreachable_rules_def has_rule_def reach_loop_start split: option.split)

end
