(* ===== verification/Grammar_Build.thy ===== *)
theory Grammar_Build
  imports Rule_Graph
begin

text \<open>
  A grammar as the program builds it: the sequence of accesses, assignments, aliases and
  settings a client makes through the handles of \<open>Grammar_Rules\<close>, and what the grammar is
  at the end.
\<close>

subsection \<open>Building a grammar\<close>

text \<open>
  What a program does to a grammar while it builds it. An assignment \<open>g["r"] = e\<close> first
  gets or creates the rules its right-hand side refers to, then the rule. An action goes
  through the handle the assignment of \<open>e\<close> to the rule returned. When \<open>set_skipper\<close> throws,
  the grammar keeps the skipper it had.
\<close>

datatype ('c, 'v) build_op =
    Access string
  | Assign string "'c expr"
  | Alias string string
  | Label string string
  | Recovery string "'c recover_spec"
  | Action string "'c expr" "('c, 'v) action"
  | Hook string bool
  | Start string
  | Skipper string

definition access_all :: "string list \<Rightarrow> ('c, 'v) grammar \<Rightarrow> ('c, 'v) grammar" where
  "access_all rs G = fold (\<lambda>r H. snd (grammar_index r H)) rs G"

fun build_step :: "('c, 'v) build_op \<Rightarrow> ('c, 'v) grammar \<Rightarrow> ('c, 'v) grammar" where
  "build_step (Access r) G = access_all [r] G"
| "build_step (Assign r e) G = rule_assign r e (access_all (collect_rule_refs e [] @ [r]) G)"
| "build_step (Alias r q) G = rule_alias False r q (access_all [q, r] G)"
| "build_step (Label r l) G = rule_set_label r l (access_all [r] G)"
| "build_step (Recovery r spec) G = rule_set_recovery r spec (access_all [r] G)"
| "build_step (Action r e f) G = rule_set_action r e f (access_all [r] G)"
| "build_step (Hook r b) G = rule_on_match r b (access_all [r] G)"
| "build_step (Start r) G = set_start r G"
| "build_step (Skipper r) G =
     (case set_skipper r (access_all [r] G) of Inl err \<Rightarrow> access_all [r] G | Inr G' \<Rightarrow> G')"

definition build :: "'c elem_ops \<Rightarrow> ('c, 'v) build_op list \<Rightarrow> ('c, 'v) grammar" where
  "build ops steps = fold build_step steps (new_grammar ops)"

text \<open>The rules the steps name, and the body the last assignment gave a rule.\<close>

fun names_of :: "('c, 'v) build_op \<Rightarrow> string set" where
  "names_of (Access r) = {r}"
| "names_of (Assign r e) = insert r {q. mentions e q}"
| "names_of (Alias r q) = {r, q}"
| "names_of (Label r l) = {r}"
| "names_of (Recovery r spec) = {r}"
| "names_of (Action r e f) = {r}"
| "names_of (Hook r b) = {r}"
| "names_of (Start r) = {}"
| "names_of (Skipper r) = {r}"

fun body_after :: "('c, 'v) build_op \<Rightarrow> string \<Rightarrow> 'c expr option \<Rightarrow> 'c expr option" where
  "body_after (Assign r e) name old = (if name = r then Some e else old)"
| "body_after (Alias r q) name old = (if name = r then Some (RuleExpr q) else old)"
| "body_after _ name old = old"

subsection \<open>Lemmas\<close>

lemma access_all_spec:
  assumes "rules_ordered G"
  shows "rules_ordered (access_all rs G) \<and>
    set (rule_names (access_all rs G)) = set rs \<union> set (rule_names G) \<and>
    lookup_rule (access_all rs G) =
      (\<lambda>r. if r \<in> set rs \<and> lookup_rule G r = None then Some new_non_terminal else lookup_rule G r)"
  using assms
proof (induction rs arbitrary: G)
  case (Cons r rs)
  have a: "access_all (r # rs) G = access_all rs (snd (grammar_index r G))"
    by (simp add: access_all_def)
  show ?case
    unfolding a using Cons.IH [OF grammar_index_names(1) [OF Cons.prems], of r] grammar_index_names [OF Cons.prems, of r]
    by (auto simp: fun_eq_iff has_rule_def)
qed (simp add: access_all_def)

lemma set_start_rules [simp]:
  "rules_ordered (set_start r G) = rules_ordered G" "rule_names (set_start r G) = rule_names G"
  "lookup_rule (set_start r G) = lookup_rule G"
  by (simp_all add: set_start_def rules_ordered_def rule_names_def lookup_rule_def [abs_def])

lemma set_skipper_rules:
  "set_skipper r G = Inr H \<Longrightarrow>
   rules_ordered H = rules_ordered G \<and> rule_names H = rule_names G \<and> lookup_rule H = lookup_rule G"
  by (auto simp: set_skipper_def rules_ordered_def rule_names_def lookup_rule_def [abs_def]
      split: option.splits if_splits)

lemma build_step_spec:
  assumes "rules_ordered G"
  shows "rules_ordered (build_step s G) \<and>
    set (rule_names (build_step s G)) = names_of s \<union> set (rule_names G) \<and>
    map_option m_rule (lookup_rule (build_step s G) r) =
      (if r \<in> names_of s \<union> set (rule_names G)
       then Some (body_after s r (case lookup_rule G r of None \<Rightarrow> None | Some nt \<Rightarrow> m_rule nt)) else None)"
proof -
  have mem: "r \<in> set (rule_names H) \<longleftrightarrow> lookup_rule H r \<noteq> None" for r and H :: "('a, 'b) grammar"
    using has_rule_iff [of r H] by (simp add: has_rule_def)
  show ?thesis
    using assms
    by (cases s)
       (auto split: sum.split dest!: set_skipper_rules simp: access_all_spec rules.get_upd mem rule_assign_def rule_alias_def rule_set_label_def
         rule_set_recovery_def rule_on_match_def rule_set_action_def new_non_terminal_def option.map_comp comp_def set_collect_rule_refs)
qed

lemma build_spec:
  fixes ops :: "'c elem_ops" and steps r
  defines "G \<equiv> build ops steps :: ('c, 'v) grammar"
  shows "rules_ordered G \<and> set (rule_names G) = (\<Union>s \<in> set steps. names_of s) \<and>
   map_option m_rule (lookup_rule G r) =
     (if r \<in> (\<Union>s \<in> set steps. names_of s) then Some (fold (\<lambda>s. body_after s r) steps None) else None)"
  unfolding G_def
proof (induction steps rule: rev_induct)
  case Nil
  then show ?case by (simp add: build_def new_grammar_rules)
next
  case (snoc s steps)
  let ?G = "build ops steps :: ('c, 'v) grammar"
  have b: "build ops (steps @ [s]) = build_step s ?G"
    by (simp add: build_def)
  have untouched: "fold (\<lambda>s. body_after s r) ss b = b" if "r \<notin> (\<Union>s \<in> set ss. names_of s)" for ss b
    using that
  proof (induction ss arbitrary: b)
    case (Cons s ss)
    then have "body_after s r b = b" by (cases s) auto
    with Cons show ?case by simp
  qed simp
  have old: "(case lookup_rule ?G r of None \<Rightarrow> None | Some nt \<Rightarrow> m_rule nt) = fold (\<lambda>s. body_after s r) steps None"
    using snoc.IH untouched [of steps None] by (auto split: option.splits if_splits)
  show ?case
    using snoc.IH build_step_spec [of ?G s r] unfolding b old by auto
qed

lemma rules_ordered_build: "rules_ordered (build ops steps)"
  using build_spec by blast

subsection \<open>Properties\<close>

text \<open>
  C37: what a grammar knows of its rules after any sequence of accesses, assignments, aliases
  and settings: its names are those mentioned, once each and in order; the body of a rule
  is the one its last assignment gave it; and \<open>undefined_rules\<close> lists, in order, exactly
  the names that were mentioned and never assigned.
\<close>

theorem build_correct:
  "let G = build ops steps
   in rule_names G = sorted_list_of_set (\<Union>s \<in> set steps. names_of s) \<and>
      map_option m_rule (lookup_rule G r) =
        (if has_rule r G then Some (fold (\<lambda>s. body_after s r) steps None) else None) \<and>
      undefined_rules G =
        filter (\<lambda>name. fold (\<lambda>s. body_after s name) steps None = None) (rule_names G)"
proof -
  let ?G = "build ops steps :: ('a, 'b) grammar"
  have names: "set (rule_names ?G) = (\<Union>s \<in> set steps. names_of s)" and ord: "rules_ordered ?G"
    using build_spec [of ops steps] by blast+
  have "rule_names ?G = sorted_list_of_set (set (rule_names ?G))"
    using ord by (simp add: rules_ordered_def strict_sorted_equal)
  moreover have "is_defined nt \<longleftrightarrow> fold (\<lambda>s. body_after s name) steps None \<noteq> None"
    if "(name, nt) \<in> set (m_rules ?G)" for name nt
    using build_spec [of ops steps name] that lookup_in_rules [OF ord, of name nt]
    by (auto simp: is_defined_def split: if_splits)
  then have "undefined_rules ?G =
      map fst (filter (\<lambda>(name, nt). fold (\<lambda>s. body_after s name) steps None = None) (m_rules ?G))"
    unfolding undefined_rules_def by (intro arg_cong [where f = "map fst"] filter_cong) auto
  then have "undefined_rules ?G =
      filter (\<lambda>name. fold (\<lambda>s. body_after s name) steps None = None) (rule_names ?G)"
    by (simp add: rule_names_def filter_map comp_def case_prod_unfold)
  ultimately show ?thesis
    using build_spec [of ops steps r] names by (simp add: has_rule_iff Let_def)
qed

text \<open>The skipper of a built grammar is a defined rule: no step takes a body away.\<close>

lemma body_after_stays: "b \<noteq> None \<Longrightarrow> body_after s r b \<noteq> None"
  by (cases s) auto

lemma build_skipper:
  "g_skipper (build ops steps :: ('c, 'v) grammar) = Some r \<Longrightarrow> defined_rule (build ops steps :: ('c, 'v) grammar) r"
proof (induction steps arbitrary: r rule: rev_induct)
  case Nil
  then show ?case by (simp add: build_def new_grammar_def)
next
  case (snoc s steps)
  let ?G = "build ops steps :: ('c, 'v) grammar"
  have b: "build ops (steps @ [s]) = build_step s ?G"
    by (simp add: build_def)
  have dr: "defined_rule H q \<longleftrightarrow> (\<exists>e. map_option m_rule (lookup_rule H q) = Some (Some e))"
    for H :: "('c, 'v) grammar" and q
    by (auto simp: defined_rule_def is_defined_def split: option.splits)
  have keep: "defined_rule (build_step s ?G) q" if old: "defined_rule ?G q" for q
  proof -
    obtain nt e where nt: "lookup_rule ?G q = Some nt" "m_rule nt = Some e"
      using old by (auto simp: defined_rule_def is_defined_def split: option.splits)
    then have "q \<in> set (rule_names ?G)" using has_rule_iff [of q ?G] by (simp add: has_rule_def)
    then show ?thesis
      using build_step_spec [of ?G s q, OF rules_ordered_build]
        body_after_stays [of "Some e" s q] nt unfolding dr by auto
  qed
  have idx: "g_skipper (access_all rs G) = g_skipper G" for rs and G :: "('c, 'v) grammar"
    by (induction rs arbitrary: G) (simp_all add: access_all_def grammar_index_def split_beta)
  show ?case
  proof (cases "\<exists>q H. s = Skipper q \<and> set_skipper q (access_all [q] ?G) = Inr H")
    case True
    then obtain q H where s: "s = Skipper q" "set_skipper q (access_all [q] ?G) = Inr H" by blast
    then have "defined_rule H q" "g_skipper H = Some q"
      by (auto simp: set_skipper_def defined_rule_def lookup_rule_def split: option.splits if_splits)
    then show ?thesis using snoc.prems s b by simp
  next
    case False
    then have "g_skipper (build_step s ?G) = g_skipper ?G"
      by (cases s) (auto simp: idx rule_assign_def rule_alias_def rule_set_label_def rule_set_recovery_def
        rule_on_match_def rule_set_action_def set_start_def split: sum.split)
    then show ?thesis using snoc keep b by simp
  qed
qed

subsection \<open>Closed grammars\<close>

text \<open>What is left to check of an expression once its rules are defined.\<close>

fun terms_ok :: "'c elem_ops \<Rightarrow> 'c expr \<Rightarrow> bool" where
  "terms_ok ops (TerminalExpr v) \<longleftrightarrow> wf_terminal ops v"
| "terms_ok ops (TokenExpr v) \<longleftrightarrow> wf_terminal ops v"
| "terms_ok ops (MatcherExpr fn) \<longleftrightarrow> matcher_ok fn"
| "terms_ok ops (SequenceExpr es) \<longleftrightarrow> list_all (terms_ok ops) es"
| "terms_ok ops (AlternationExpr es) \<longleftrightarrow> list_all (terms_ok ops) es"
| "terms_ok ops (ZeroOrMoreExpr e) \<longleftrightarrow> terms_ok ops e"
| "terms_ok ops (OneOrMoreExpr e) \<longleftrightarrow> terms_ok ops e"
| "terms_ok ops (NTimesExpr e n) \<longleftrightarrow> terms_ok ops e"
| "terms_ok ops (OptionalExpr e) \<longleftrightarrow> terms_ok ops e"
| "terms_ok ops (NotExpr e) \<longleftrightarrow> terms_ok ops e"
| "terms_ok ops (AndExpr e) \<longleftrightarrow> terms_ok ops e"
| "terms_ok ops (LexemeExpr e) \<longleftrightarrow> terms_ok ops e"
| "terms_ok ops _ \<longleftrightarrow> True"

fun step_ok :: "'c elem_ops \<Rightarrow> ('c, 'v) build_op \<Rightarrow> bool" where
  "step_ok ops (Assign r e) \<longleftrightarrow> terms_ok ops e"
| "step_ok ops _ \<longleftrightarrow> True"

lemma wf_expr_iff: "wf_expr G e \<longleftrightarrow> terms_ok (g_ops G) e \<and> (\<forall>r. mentions e r \<longrightarrow> defined_rule G r)"
  by (induction e) (auto simp: list_all_iff list_ex_iff)

lemma body_after_names:
  "fold (\<lambda>s. body_after s r) steps None = Some e \<Longrightarrow> mentions e q \<Longrightarrow> q \<in> (\<Union>s \<in> set steps. names_of s)"
proof (induction steps rule: rev_induct)
  case (snoc s steps)
  then show ?case by (cases s) (auto split: if_splits)
qed simp

lemma body_after_ok:
  "fold (\<lambda>s. body_after s r) steps None = Some e \<Longrightarrow> list_all (step_ok ops) steps \<Longrightarrow> terms_ok ops e"
proof (induction steps rule: rev_induct)
  case (snoc s steps)
  then show ?case by (cases s) (auto split: if_splits)
qed simp

lemma build_ops: "g_ops (build ops steps) = ops"
proof -
  have idx: "g_ops (access_all rs G) = g_ops G" for rs and G :: "('a, 'b) grammar"
    by (induction rs arbitrary: G) (simp_all add: access_all_def grammar_index_def split_beta)
  have "g_ops (build_step s G) = g_ops G" for s and G :: "('a, 'b) grammar"
    by (cases s)
       (simp_all add: set_start_def set_skipper_def split: sum.split option.split,
        simp_all add: idx rule_assign_def rule_alias_def rule_set_label_def rule_set_recovery_def rule_on_match_def rule_set_action_def)
  then have "g_ops (fold build_step steps G) = g_ops G" for G :: "('a, 'b) grammar"
    by (induction steps arbitrary: G) simp_all
  then show ?thesis by (simp add: build_def new_grammar_def)
qed

lemma build_closed:
  assumes "undefined_rules (build ops steps :: ('c, 'v) grammar) = []" and "list_all (step_ok ops) steps"
  shows "wf_grammar (build ops steps :: ('c, 'v) grammar)"
    and "has_rule r (build ops steps :: ('c, 'v) grammar) \<Longrightarrow> defined_rule (build ops steps :: ('c, 'v) grammar) r"
proof -
  let ?G = "build ops steps :: ('c, 'v) grammar"
  have ord: "rules_ordered ?G" by (rule rules_ordered_build)
  have defined: "defined_rule ?G r" if "has_rule r ?G" for r
    using set_undefined_rules [OF ord] that assms(1) by (auto simp: has_rule_def defined_rule_def)
  then show "has_rule r ?G \<Longrightarrow> defined_rule ?G r" .
  have "wf_expr ?G e" if nt: "lookup_rule ?G r = Some nt" "m_rule nt = Some e" for r nt e
  proof -
    have body: "fold (\<lambda>s. body_after s r) steps None = Some e"
      using build_spec [of ops steps r] nt by (auto split: if_splits)
    have "defined_rule ?G q" if "mentions e q" for q
      using body_after_names [OF body that] build_spec [of ops steps]
      by (intro defined) (simp add: has_rule_iff)
    then show ?thesis
      using body_after_ok [OF body assms(2)] by (simp add: wf_expr_iff build_ops)
  qed
  then show "wf_grammar ?G"
    by (auto simp: wf_grammar_def list_all_iff lookup_in_rules [OF ord] split: option.split)
qed

end
