(* ===== verification/Grammar_Parse.thy ===== *)
theory Grammar_Parse
  imports Grammar_Build Safety Packrat
begin

text \<open>
  The entry points of \<open>include/peglib/Grammar.h\<close>: \<open>parse\<close> with the start rule or a named
  rule, \<open>parse_tree\<close> and \<open>parse_string\<close>, with the exceptions of their interface.
\<close>

subsection \<open>Definitions\<close>

type_synonym ('c, 'a) api_outcome = "('c ctx, api_error, 'a) outcome"

text \<open>
  A step of the engine outside the \<open>try\<close> block of an entry point, where a \<open>ParseError\<close>
  leaves the entry point, and inside it, where it becomes the result \<open>failed\<close>.
\<close>

fun outside_try :: "('c, 'a) parse_outcome \<Rightarrow> ('c, 'a) api_outcome" where
  "outside_try (Ret a c) = Ret a c"
| "outside_try (Throw e c) = Throw (EscapedParseError e) c"
| "outside_try Fault = Fault"
| "outside_try Diverge = Diverge"

fun inside_try :: "'a \<Rightarrow> ('c, 'a) parse_outcome \<Rightarrow> ('c, 'a) api_outcome" where
  "inside_try failed (Ret a c) = Ret a c"
| "inside_try failed (Throw e c) = Ret failed c"
| "inside_try failed Fault = Fault"
| "inside_try failed Diverge = Diverge"

text \<open>The part \<open>parse\<close> and \<open>parse_tree\<close> share; \<open>view\<close> is what they read of the result.\<close>

definition enter_rule ::
  "nat \<Rightarrow> ('c, 'v) grammar \<Rightarrow> string \<Rightarrow> 'a \<Rightarrow> (parse_result \<Rightarrow> 'a) \<Rightarrow> 'c ctx \<Rightarrow> ('c, 'a) api_outcome" where
  "enter_rule fuel G rule failed view c =
     bind_o (outside_try (run_skipper (\<lambda>r. parse fuel G (RuleExpr r)) (internal_set_skipper (g_skipper G) c)))
       (\<lambda>_ c1. inside_try failed (bind_o (parse fuel G (RuleExpr rule) c1) (\<lambda>r c2. Ret (view r) c2)))"

definition grammar_parse_rule ::
  "nat \<Rightarrow> ('c, 'v) grammar \<Rightarrow> string \<Rightarrow> 'c ctx \<Rightarrow> ('c, bool) api_outcome" where
  "grammar_parse_rule fuel G rule c =
     (case lookup_rule G rule of
        None \<Rightarrow> Throw (OutOfRange (''Grammar::parse: rule '' @ [CHR 0x27] @ rule @ [CHR 0x27] @ '' not found'')) c
      | Some _ \<Rightarrow> enter_rule fuel G rule False success c)"

definition grammar_parse :: "nat \<Rightarrow> ('c, 'v) grammar \<Rightarrow> 'c ctx \<Rightarrow> ('c, bool) api_outcome" where
  "grammar_parse fuel G c =
     (if m_start G = [] then Throw (LogicError ''Grammar::parse: no start rule set'') c
      else grammar_parse_rule fuel G (m_start G) c)"

definition grammar_parse_tree ::
  "nat \<Rightarrow> ('c, 'v) grammar \<Rightarrow> string \<Rightarrow> 'c ctx \<Rightarrow> ('c, node_ref) api_outcome" where
  "grammar_parse_tree fuel G rule c =
     (case lookup_rule G rule of
        None \<Rightarrow> Throw (OutOfRange (''Grammar::parse_tree: rule '' @ [CHR 0x27] @ rule @ [CHR 0x27] @ '' not found'')) c
      | Some _ \<Rightarrow> enter_rule fuel G rule None tree c)"

definition grammar_parse_string :: "nat \<Rightarrow> ('c, 'v) grammar \<Rightarrow> 'c list \<Rightarrow> ('c, bool) api_outcome" where
  "grammar_parse_string fuel G input = grammar_parse fuel G (make_ctx input)"

subsection \<open>The contexts an entry point runs in\<close>

lemma internal_set_skipper_start: "internal_set_skipper s (make_ctx input) = start_ctx s input"
  by (simp add: start_ctx_def)

lemma enter_rule_post:
  assumes "wf_state G (internal_set_skipper (g_skipper G) c)" and "defined_rule G rule"
  shows "post (enter_rule fuel G rule failed view c) (\<lambda>_ c'. m_input c' = m_input c)
     (\<lambda>e c'. \<exists>err. e = EscapedParseError err \<and> g_skipper G \<noteq> None)"
proof -
  let ?c = "internal_set_skipper (g_skipper G) c"
  have skip: "post (run_skipper (\<lambda>r. parse fuel G (RuleExpr r)) ?c) (\<lambda>_. step_rel G ?c)
      (\<lambda>_ _. g_skipper G \<noteq> None)"
  proof (cases "g_skipper G")
    case None
    then show ?thesis
      using assms(1) by (simp add: run_skipper_def internal_set_skipper_def step_rel_refl)
  next
    case (Some s)
    then show ?thesis
      by (intro post_mono [OF eng.skip_contract [OF assms(1)]]) simp_all
  qed
  have outside: "post m Q (\<lambda>_ _. E) \<Longrightarrow> (\<And>a s. Q a s \<Longrightarrow> post (f a s) Q' E') \<Longrightarrow>
      (\<And>e s. E \<Longrightarrow> E' (EscapedParseError e) s) \<Longrightarrow> post (bind_o (outside_try m) f) Q' E'"
    for m :: "('a, unit) parse_outcome" and Q E f Q' E'
    by (cases m) auto
  have inside: "post m (\<lambda>_ c'. m_input c' = m_input c) (\<lambda>_ c'. m_input c' = m_input c) \<Longrightarrow>
      post (inside_try failed m) (\<lambda>_ c'. m_input c' = m_input c) E" for m :: "('a, 'c) parse_outcome" and E
    by (cases m) auto
  show ?thesis
    unfolding enter_rule_def
  proof (rule outside [OF skip])
    fix u c1 assume s: "step_rel G ?c c1"
    then have "m_input c1 = m_input c"
      by (simp add: step_rel_def same_env_def internal_set_skipper_def)
    moreover have "post (parse fuel G (RuleExpr rule) c1) (ret_rel G c1) (throw_rel G c1)"
      using assms(2) step_rel_wf [OF s] by (intro parse_post) simp_all
    ultimately show "post (inside_try failed (bind_o (parse fuel G (RuleExpr rule) c1) (\<lambda>r. Ret (view r))))
        (\<lambda>_ c'. m_input c' = m_input c) (\<lambda>e c'. \<exists>err. e = EscapedParseError err \<and> g_skipper G \<noteq> None)"
      by (intro inside)
         (cases "parse fuel G (RuleExpr rule) c1"; simp add: ret_rel_def throw_rel_def step_rel_def same_env_def)
  qed simp
qed

lemma enter_rule_total:
  assumes "wf_grammar G" "cut_free_grammar G" "skipper_ok G (g_skipper G)" "defined_rule G rule"
    and "fuel_bound G (RuleExpr rule) input \<le> n"
  shows "\<exists>a c. enter_rule n G rule failed view (make_ctx input) = Ret a c"
proof -
  let ?c = "start_ctx (g_skipper G) input"
  have calm: "calm G ?c" by (rule start_ctx_calm [OF assms(1-3)])
  have fuel: "fuel_needed G ?c (size (RuleExpr rule :: 'a expr)) \<le> n"
    using assms(5) by (simp add: fuel_needed_def frames_left_def fuel_bound_def input_size_def)
  have "fuel_needed G ?c 0 \<le> n"
    by (rule total.fuel_needed_mono [OF le0 fuel])
  then have "rets (run_skipper (\<lambda>r. parse n G (RuleExpr r)) ?c) (\<lambda>_ c1. step_rel G ?c c1 \<and> calm G c1)"
    by (rule rets_post [OF total.skip_calm [OF calm] eng.skip_contract [OF calm_wf [OF calm]]])
  then obtain u c1 where c1: "run_skipper (\<lambda>r. parse n G (RuleExpr r)) ?c = Ret u c1" "step_rel G ?c c1" "calm G c1"
    by (auto simp: rets_iff)
  have "rets (parse n G (RuleExpr rule) c1) (\<lambda>_. calm G)"
    using assms(4) c1(3) fuel step_rel_fuel_needed [OF c1(2)] by (intro total.run_calm) simp_all
  then show ?thesis
    by (auto simp: enter_rule_def internal_set_skipper_start c1(1) rets_iff)
qed

text \<open>What a grammar built without undefined rules guarantees.\<close>

lemma built_ready:
  assumes "undefined_rules (build ops steps :: ('c, 'v) grammar) = []" and "list_all (step_ok ops) steps"
  defines "G \<equiv> build ops steps :: ('c, 'v) grammar"
  shows "wf_grammar G" "skipper_ok G (g_skipper G)" "has_rule r G \<Longrightarrow> defined_rule G r"
    "wf_state G (internal_set_skipper (g_skipper G) (make_ctx input))"
proof -
  show wf: "wf_grammar G" "has_rule r G \<Longrightarrow> defined_rule G r"
    using build_closed [OF assms(1,2)] by (simp_all add: G_def)
  show skip: "skipper_ok G (g_skipper G)"
    using build_skipper unfolding skipper_ok_def G_def by (auto split: option.split)
  show "wf_state G (internal_set_skipper (g_skipper G) (make_ctx input))"
    using start_ctx_wf [OF wf(1) skip] by (simp add: start_ctx_def)
qed

lemma built_enter_rule:
  assumes "undefined_rules (build ops steps :: ('c, 'v) grammar) = []" and "list_all (step_ok ops) steps"
    and "lookup_rule (build ops steps :: ('c, 'v) grammar) r \<noteq> None"
  shows "enter_rule n (build ops steps :: ('c, 'v) grammar) r failed view (make_ctx input) \<noteq> Fault"
  using assms(3) built_ready(3) [OF assms(1,2), of r] enter_rule_post [OF built_ready(4) [OF assms(1,2)], of r]
  by (intro post_not_Fault) (auto simp: has_rule_def)

subsection \<open>Properties\<close>

text \<open>
  C31: \<open>undefined_rules\<close> is the whole check a client needs: if it is empty for the grammar
  the client built (with sound ranges and matchers in its expressions; actions, hooks, labels
  and recovery of any kind), no assertion of the library fires in \<open>parse\<close>, \<open>parse_tree\<close> or
  \<open>parse_string\<close>, for any rule name and any input. It says nothing of the fold that \<open>parse_ast\<close>
  runs on the tree.
\<close>

theorem built_grammar_never_faults:
  assumes "undefined_rules (build ops steps :: ('c, 'v) grammar) = []" and "list_all (step_ok ops) steps"
  shows "let G = build ops steps :: ('c, 'v) grammar
     in grammar_parse_rule n G rule (make_ctx input) \<noteq> Fault \<and>
        grammar_parse_tree n G rule (make_ctx input) \<noteq> Fault \<and>
        grammar_parse_string n G input \<noteq> Fault"
  by (auto simp: built_enter_rule [OF assms] Let_def grammar_parse_rule_def grammar_parse_tree_def grammar_parse_string_def
      grammar_parse_def split: option.split)

text \<open>\<open>g["list"] = g["item"] >> *(5 >> g["item"])\<close>, \<open>g["item"] = 0..3\<close>, with \<open>4\<close> skipped.\<close>

definition list_steps :: "(nat, unit) build_op list" where
  "list_steps =
     [Assign ''list'' (op_seq (RuleExpr ''item'') (op_star (op_value_seq 5 (RuleExpr ''item'')))),
      Assign ''item'' (TokenExpr (TRange 0 3)),
      Assign ''ws'' (op_star (TerminalExpr (TValue 4))), Skipper ''ws'', Start ''list'']"

definition num_ops :: "nat elem_ops" where
  "num_ops = token_ops None (\<le>)"

definition list_grammar :: "(nat, unit) grammar" where
  "list_grammar = build num_ops list_steps"

lemma list_steps_ok: "undefined_rules (build num_ops list_steps :: (nat, unit) grammar) = []"
    "list_all (step_ok num_ops) list_steps"
  by code_simp (simp add: list_steps_def op_seq_def op_value_seq_def num_ops_def token_ops_def)

theorem built_grammar_never_faults_witness:
  "grammar_parse_string 30 list_grammar [4, 1, 5] \<noteq> Fault"
  using built_grammar_never_faults [OF list_steps_ok, of 30 "[]" "[4, 1, 5]"]
  by (simp add: Let_def list_grammar_def)

text \<open>
  C33: the exceptions of \<open>parse\<close>: it throws only when the grammar has no start rule
  (\<open>std::logic_error\<close>) or does not have that rule (\<open>std::out_of_range\<close>), both before it
  touched the context, or when the skipper it runs before the \<open>try\<close> block throws; any
  failure of the rule itself is the result \<open>false\<close>.
\<close>

theorem grammar_parse_exceptions:
  assumes "undefined_rules (build ops steps :: ('c, 'v) grammar) = []" and "list_all (step_ok ops) steps"
    and "grammar_parse n (build ops steps :: ('c, 'v) grammar) (make_ctx input) = Throw e c"
  shows "let G = build ops steps :: ('c, 'v) grammar
    in e = LogicError ''Grammar::parse: no start rule set'' \<and> m_start G = [] \<and> c = make_ctx input \<or>
       (\<exists>msg. e = OutOfRange msg) \<and> m_start G \<noteq> [] \<and> \<not> has_rule (m_start G) G \<and> c = make_ctx input \<or>
       (\<exists>err. e = EscapedParseError err) \<and> has_rule (m_start G) G \<and> g_skipper G \<noteq> None"
proof -
  let ?G = "build ops steps :: ('c, 'v) grammar"
  show ?thesis
  proof (cases "m_start ?G \<noteq> [] \<and> has_rule (m_start ?G) ?G")
    case True
    have "post (enter_rule n ?G (m_start ?G) False success (make_ctx input)) (\<lambda>_ c'. m_input c' = m_input (make_ctx input))
        (\<lambda>e c'. \<exists>err. e = EscapedParseError err \<and> g_skipper ?G \<noteq> None)"
      using built_ready(3,4) [OF assms(1,2)] True by (intro enter_rule_post) simp_all
    with True assms(3) show ?thesis
      by (auto simp: Let_def grammar_parse_def grammar_parse_rule_def has_rule_def)
  qed (use assms(3) in \<open>auto simp: Let_def grammar_parse_def grammar_parse_rule_def has_rule_def split: if_splits option.splits\<close>)
qed

text \<open>A skipper that commits: \<open>g["W"] = 0 >> ^ >> 0 | 1\<close>.\<close>

definition committing_steps :: "(nat, unit) build_op list" where
  "committing_steps =
     [Assign ''I'' (TokenExpr (TValue 1)),
      Assign ''W'' (op_alt_value (op_seq (op_seq (TerminalExpr (TValue 0)) CutExpr) (TerminalExpr (TValue 0))) 1),
      Skipper ''W'', Start ''I'']"

lemma committing_steps_ok: "undefined_rules (build num_ops committing_steps :: (nat, unit) grammar) = []"
    "list_all (step_ok num_ops) committing_steps"
  by code_simp (simp add: committing_steps_def op_seq_def op_alt_value_def op_alt_def num_ops_def token_ops_def)

definition escapes :: "('c, 'a) api_outcome \<Rightarrow> bool" where
  "escapes m = (case m of Throw (EscapedParseError err) c \<Rightarrow> True | _ \<Rightarrow> False)"

lemma escapes_ThrowE: "escapes m \<Longrightarrow> (\<And>err c. m = Throw (EscapedParseError err) c \<Longrightarrow> P) \<Longrightarrow> P"
  by (auto simp: escapes_def split: outcome.splits api_error.splits)

lemma committing_run:
  "escapes (grammar_parse 8 (build num_ops committing_steps :: (nat, unit) grammar) (make_ctx [0, 1]))"
  by code_simp

theorem grammar_parse_exceptions_witness:
  "\<exists>err c. grammar_parse 8 (build num_ops committing_steps :: (nat, unit) grammar) (make_ctx [0, 1]) =
      Throw (EscapedParseError err) c \<and>
    g_skipper (build num_ops committing_steps :: (nat, unit) grammar) \<noteq> None"
proof -
  obtain err c where t: "grammar_parse 8 (build num_ops committing_steps :: (nat, unit) grammar) (make_ctx [0, 1]) =
      Throw (EscapedParseError err) c"
    using committing_run by (rule escapes_ThrowE)
  from grammar_parse_exceptions [OF committing_steps_ok t] t show ?thesis by (simp add: Let_def)
qed

text \<open>
  C32: what \<open>parse_string\<close> computes for a cut-free grammar the client built and left without
  undefined rules: it returns, within an explicit number of nested calls, and without a
  skipper it returns \<open>true\<close> exactly when the recogniser matches the start rule at the
  beginning of the input.
\<close>

theorem parse_string_correct:
  assumes "undefined_rules (build ops steps :: ('c, 'v) grammar) = []" and "list_all (step_ok ops) steps"
    and "cut_free_grammar (build ops steps :: ('c, 'v) grammar)"
    and "m_start (build ops steps :: ('c, 'v) grammar) = rule" "rule \<noteq> []"
    and "has_rule rule (build ops steps :: ('c, 'v) grammar)"
    and "fuel_bound (build ops steps :: ('c, 'v) grammar) (RuleExpr rule) input \<le> n"
  shows "let G = build ops steps :: ('c, 'v) grammar
    in \<exists>b c. grammar_parse_string n G input = Ret b c \<and>
         (\<forall>h res. g_skipper G = None \<and> ev h G input (RuleExpr rule) 0 = Some res \<longrightarrow> b = (res \<noteq> None))"
proof -
  define G where "G = (build ops steps :: ('c, 'v) grammar)"
  note ready = built_ready [OF assms(1,2), folded G_def]
  have rule: "defined_rule G rule" using ready(3) assms(6) by (simp add: G_def)
  have cut: "cut_free_grammar G" and n: "fuel_bound G (RuleExpr rule) input \<le> n"
    using assms(3,7) by (simp_all add: G_def)
  have ps: "grammar_parse_string n G input = enter_rule n G rule False success (make_ctx input)"
    using assms(4-6) by (auto simp: G_def grammar_parse_string_def grammar_parse_def grammar_parse_rule_def has_rule_def)
  obtain b c where b: "grammar_parse_string n G input = Ret b c"
    using enter_rule_total [OF ready(1) cut ready(2) rule n] ps by metis
  have "b = (res \<noteq> None)" if h: "g_skipper G = None" "ev h G input (RuleExpr rule) 0 = Some res" for h res
  proof -
    obtain r c' where p: "parse n G (RuleExpr rule) (start_ctx None input) = Ret r c'" "agrees res r c'"
      using cut_free_agrees [OF ready(1) cut _ _ h(2) n] rule by auto
    then show ?thesis
      using b p h(1)
      by (auto simp: ps enter_rule_def internal_set_skipper_start run_skipper_idle agrees_def split: option.splits)
  qed
  with b show ?thesis by (fold G_def) (auto simp: Let_def)
qed

lemma list_grammar_start: "m_start list_grammar = ''list''" "has_rule ''list'' list_grammar"
  by code_simp+

lemma list_grammar_cut_free: "cut_free_grammar list_grammar"
  by code_simp

lemma list_grammar_fuel: "fuel_bound list_grammar (RuleExpr ''list'') [4, 1, 5, 2] \<le> 500"
  by code_simp

theorem parse_string_correct_witness: "\<exists>b c. grammar_parse_string 500 list_grammar [4, 1, 5, 2] = Ret b c"
  using parse_string_correct [OF list_steps_ok list_grammar_cut_free [unfolded list_grammar_def]
      list_grammar_start(1) [unfolded list_grammar_def] _ list_grammar_start(2) [unfolded list_grammar_def]
      list_grammar_fuel [unfolded list_grammar_def]]
  by (auto simp: Let_def list_grammar_def)

end
