(* ===== verification/Dot.thy ===== *)
theory Dot
  imports Rule_Graph
begin

text \<open>
  \<open>Grammar::to_dot\<close> and \<open>Grammar::dot_escape\<close> (\<open>include/peglib/Grammar.h\<close>): the rendering of
  the references between rules as a Graphviz digraph.
\<close>

subsection \<open>Definitions\<close>

abbreviation quote_ch :: char where "quote_ch \<equiv> CHR 0x22"
abbreviation backslash_ch :: char where "backslash_ch \<equiv> CHR 0x5C"
abbreviation newline_ch :: char where "newline_ch \<equiv> CHR 0x0A"

fun dot_escape :: "string \<Rightarrow> string" where
  "dot_escape [] = []"
| "dot_escape (c # s) =
     (if c = quote_ch then [backslash_ch, quote_ch]
      else if c = backslash_ch then [backslash_ch, backslash_ch]
      else if c = newline_ch then [backslash_ch, CHR ''n'']
      else [c]) @ dot_escape s"

definition quoted :: "string \<Rightarrow> string" where
  "quoted s = quote_ch # dot_escape s @ [quote_ch]"

definition node_line :: "string \<Rightarrow> string \<Rightarrow> string" where
  "node_line start name =
     ''  '' @ quoted name @ (if name = start then '' [peripheries=2]'' else []) @ '';'' @ [newline_ch]"

definition edge_line :: "string \<times> string \<Rightarrow> string" where
  "edge_line e = ''  '' @ quoted (fst e) @ '' -> '' @ quoted (snd e) @ '';'' @ [newline_ch]"

function dot_loop :: "('c, 'v) grammar \<Rightarrow> string list \<Rightarrow> string list \<Rightarrow> string \<Rightarrow> string" where
  "dot_loop G visited queue out =
     (if queue = [] then out
      else let name = List.last queue; rest = butlast queue
           in if name \<in> set visited then dot_loop G visited rest out
              else case lookup_rule G name of
                  None \<Rightarrow> dot_loop G (insort_insert name visited) rest out
                | Some nt \<Rightarrow>
                    dot_loop G (insort_insert name visited)
                      (rest @ filter (\<lambda>ref. has_rule ref G) (nonterminal_refs nt))
                      (out @ concat (map (\<lambda>ref. edge_line (name, ref)) (nonterminal_refs nt))))"
  by pat_completeness auto
termination
proof (relation "inv_image (less_than <*lex*> less_than)
    (\<lambda>(G :: ('c, 'v) grammar, visited, queue :: string list, out :: string).
        (card (set (rule_names G) - set visited), length queue))", goal_cases)
  case 1
  then show ?case by auto
next
  case (2 G visited queue out name rest)
  then show ?case by simp
next
  case (3 G visited queue out name rest)
  have "card (set (rule_names G) - set (insort_insert name visited)) \<le> card (set (rule_names G) - set visited)"
    by (intro card_mono) (auto simp: set_insort_insert)
  with 3 show ?case
    by simp (meson diff_less length_greater_0_conv order_le_less zero_less_one)
next
  case (4 G visited queue out name rest nt)
  then have "name \<in> set (rule_names G) - set visited"
    by (simp add: has_rule_iff [symmetric] has_rule_def)
  then have "card (set (rule_names G) - set (insort_insert name visited)) < card (set (rule_names G) - set visited)"
    by (intro psubset_card_mono) (auto simp: set_insort_insert)
  then show ?case by simp
qed

declare dot_loop.simps [simp del]

definition dot_header :: string where
  "dot_header = ''digraph peglib_grammar {'' @ [newline_ch] @ ''  node [shape=box];'' @ [newline_ch]
     @ ''  rankdir=LR;'' @ [newline_ch]"

definition defined_names :: "('c, 'v) grammar \<Rightarrow> string list" where
  "defined_names G = map fst (filter (\<lambda>(name, nt). is_defined nt) (m_rules G))"

definition to_dot :: "('c, 'v) grammar \<Rightarrow> string" where
  "to_dot G =
     dot_loop G [] (defined_names G)
       (dot_header @ concat (map (node_line (m_start G)) (defined_names G))) @ ''}'' @ [newline_ch]"

subsection \<open>The edges\<close>

lemma dot_loop_spec:
  "\<exists>es. dot_loop G visited queue out = out @ concat (map edge_line es) \<and> distinct es \<and>
     (\<forall>(a, b) \<in> set es. a \<notin> set visited \<and> refers G a b) \<and>
     (\<forall>a b. a \<in> set queue \<longrightarrow> a \<notin> set visited \<longrightarrow> refers G a b \<longrightarrow> (a, b) \<in> set es)"
proof (induction G visited queue out rule: dot_loop.induct)
  case (1 G visited queue out)
  show ?case
  proof (cases "queue = []")
    case True
    then show ?thesis by (intro exI [of _ "[]"]) (simp add: dot_loop.simps)
  next
    case False
    define name rest where nr: "name = List.last queue" "rest = butlast queue"
    have q: "set queue = insert name (set rest)"
      using False by (metis nr append_butlast_last_id rotate1.simps(2) set_rotate1 list.simps(15))
    note step = dot_loop.simps [of G visited queue out]
    show ?thesis
    proof (cases "name \<in> set visited")
      case True
      from "1.IH"(1) [OF False nr True] show ?thesis
        using False True q by (auto simp: step Let_def nr)
    next
      case fresh: False
      show ?thesis
      proof (cases "lookup_rule G name")
        case None
        then have none: "\<not> refers G name b" for b
          by (simp add: refers_def)
        from "1.IH"(2) [OF False nr fresh None] obtain es where
          "dot_loop G (insort_insert name visited) rest out = out @ concat (map edge_line es)" "distinct es"
          and sub: "\<forall>(a, b) \<in> set es. a \<notin> set (insort_insert name visited) \<and> refers G a b"
          and all: "\<forall>a b. a \<in> set rest \<longrightarrow> a \<notin> set (insort_insert name visited) \<longrightarrow> refers G a b \<longrightarrow> (a, b) \<in> set es"
          by blast
        moreover have "\<forall>(a, b) \<in> set es. a \<notin> set visited \<and> refers G a b"
          using sub by (auto simp: set_insort_insert)
        moreover have "\<forall>a b. a \<in> set queue \<longrightarrow> a \<notin> set visited \<longrightarrow> refers G a b \<longrightarrow> (a, b) \<in> set es"
          using all q none by (auto simp: set_insort_insert)
        ultimately show ?thesis
          using False fresh None by (intro exI [of _ es]) (simp add: step Let_def nr)
      next
        case (Some nt)
        define refs where "refs = nonterminal_refs nt"
        have refs: "set refs = {b. refers G name b}" "distinct refs"
          using set_nonterminal_refs [OF Some] distinct_nonterminal_refs [of nt] by (simp_all add: refs_def)
        from "1.IH"(3) [OF False nr fresh Some] obtain es where
          es: "dot_loop G (insort_insert name visited) (rest @ filter (\<lambda>ref. has_rule ref G) refs)
             (out @ concat (map (\<lambda>ref. edge_line (name, ref)) refs)) =
             (out @ concat (map (\<lambda>ref. edge_line (name, ref)) refs)) @ concat (map edge_line es)" "distinct es"
          and sub: "\<forall>(a, b) \<in> set es. a \<notin> set (insort_insert name visited) \<and> refers G a b"
          and all: "\<forall>a b. a \<in> set (rest @ filter (\<lambda>ref. has_rule ref G) refs) \<longrightarrow>
             a \<notin> set (insort_insert name visited) \<longrightarrow> refers G a b \<longrightarrow> (a, b) \<in> set es"
          unfolding refs_def by blast
        let ?es = "map (Pair name) refs @ es"
        have "distinct ?es"
          using refs(2) es(2) sub by (auto simp: distinct_map inj_on_def set_insort_insert)
        moreover have "\<forall>(a, b) \<in> set ?es. a \<notin> set visited \<and> refers G a b"
          using sub fresh refs(1) by (auto simp: set_insort_insert)
        moreover have "\<forall>a b. a \<in> set queue \<longrightarrow> a \<notin> set visited \<longrightarrow> refers G a b \<longrightarrow> (a, b) \<in> set ?es"
          using all q refs(1) by (auto simp: set_insort_insert)
        ultimately show ?thesis
          using False fresh Some es(1)
          by (intro exI [of _ ?es]) (simp add: step Let_def nr [symmetric] comp_def refs_def)
      qed
    qed
  qed
qed

subsection \<open>Reading a quoted name\<close>

text \<open>What a reader of a quoted string does after the opening quote.\<close>

fun read_quoted :: "string \<Rightarrow> (string \<times> string) option" where
  "read_quoted [] = None"
| "read_quoted (c # s) =
     (if c = quote_ch then Some ([], s)
      else if c = backslash_ch then
        (case s of
           [] \<Rightarrow> None
         | d # s' \<Rightarrow> map_option (\<lambda>(name, rest). ((if d = CHR ''n'' then newline_ch else d) # name, rest)) (read_quoted s'))
      else map_option (\<lambda>(name, rest). (c # name, rest)) (read_quoted s))"

lemma read_quoted_escape: "read_quoted (dot_escape s @ quote_ch # rest) = Some (s, rest)"
  by (induction s) auto

lemma defined_names_cover: "refers G a b \<Longrightarrow> a \<in> set (defined_names G)"
  by (force simp: refers_def defined_names_def lookup_rule_def is_defined_def image_iff
      split: option.splits dest: map_of_SomeD)

subsection \<open>Properties\<close>

text \<open>
  C39: the DOT text has one node line for each defined rule, in order, then one edge line for
  each reference of a rule to a rule, each exactly once, and the loop that emits them ends.
\<close>

theorem to_dot_correct:
  "\<exists>es. distinct es \<and> set es = {(a, b). refers G a b} \<and>
     to_dot G = dot_header @ concat (map (node_line (m_start G)) (defined_names G)) @
       concat (map edge_line es) @ ''}'' @ [newline_ch]"
proof -
  let ?out = "dot_header @ concat (map (node_line (m_start G)) (defined_names G))"
  obtain es where es: "dot_loop G [] (defined_names G) ?out = ?out @ concat (map edge_line es)" "distinct es"
      and sub: "\<forall>(a, b) \<in> set es. a \<notin> set [] \<and> refers G a b"
      and all: "\<forall>a b. a \<in> set (defined_names G) \<longrightarrow> a \<notin> set [] \<longrightarrow> refers G a b \<longrightarrow> (a, b) \<in> set es"
    using dot_loop_spec [of G "[]" "defined_names G" ?out] by blast
  have "set es = {(a, b). refers G a b}"
    using sub all defined_names_cover by fastforce
  then show ?thesis
    using es by (intro exI [of _ es]) (simp add: to_dot_def)
qed

text \<open>
  C40: a quoted rule name can be read back whatever its characters: the reader stops at the
  closing quote of the name, not at one inside it, and gets the name.
\<close>

theorem dot_escape_roundtrip:
  "\<exists>text. quoted name @ rest = quote_ch # text \<and> read_quoted text = Some (name, rest)"
  by (simp add: quoted_def read_quoted_escape)

end
