(* ===== verification/Result_Types.thy ===== *)
theory Result_Types
  imports Expr
begin

text \<open>
  The first half of \<open>include/peglib/ResultType.h\<close>: the type \<open>result_of<E>\<close> of the value an
  expression contributes to the action of its rule, computed from the expression alone.
  \<open>None\<close> stands for the hard compile errors: an alternation whose branches have different
  result types.
\<close>

datatype rtype =
    VoidT
  | ElemT
  | NodeT
  | TupleT "rtype list"
  | VecT rtype
  | OptT rtype

fun filter_void :: "rtype list \<Rightarrow> rtype list" where
  "filter_void [] = []"
| "filter_void (t # ts) = (if t = VoidT then filter_void ts else t # filter_void ts)"

fun collapse :: "rtype list \<Rightarrow> rtype" where
  "collapse [] = VoidT"
| "collapse [t] = t"
| "collapse (t0 # t1 # rest) = TupleT (t0 # t1 # rest)"

fun all_same :: "rtype list \<Rightarrow> bool" where
  "all_same [] = True"
| "all_same [t] = True"
| "all_same (t0 # t1 # rest) = (t0 = t1 \<and> all_same (t1 # rest))"

fun rep_of :: "rtype \<Rightarrow> rtype" where
  "rep_of VoidT = VoidT"
| "rep_of t = VecT t"

fun opt_of :: "rtype \<Rightarrow> rtype" where
  "opt_of VoidT = VoidT"
| "opt_of t = OptT t"

fun result_of :: "'c expr \<Rightarrow> rtype option" where
  "result_of (TerminalExpr v) = Some VoidT"
| "result_of (TerminalSeqExpr vs) = Some VoidT"
| "result_of (TokenExpr v) = Some ElemT"
| "result_of EmptyExpr = Some VoidT"
| "result_of CutExpr = Some VoidT"
| "result_of (NotExpr e) = Some VoidT"
| "result_of (AndExpr e) = Some VoidT"
| "result_of (MatcherExpr fn) = Some VoidT"
| "result_of (RuleExpr r) = Some NodeT"
| "result_of (LexemeExpr e) = result_of e"
| "result_of (SequenceExpr es) = map_option (\<lambda>ts. collapse (filter_void ts)) (those (map result_of es))"
| "result_of (AlternationExpr es) =
     (case those (map result_of es) of
        None \<Rightarrow> None
      | Some ts \<Rightarrow> (case ts of [] \<Rightarrow> None | t # _ \<Rightarrow> if all_same ts then Some t else None))"
| "result_of (ZeroOrMoreExpr e) = map_option rep_of (result_of e)"
| "result_of (OneOrMoreExpr e) = map_option rep_of (result_of e)"
| "result_of (NTimesExpr e n) = map_option rep_of (result_of e)"
| "result_of (OptionalExpr e) = map_option opt_of (result_of e)"

definition is_void :: "'c expr \<Rightarrow> bool" where
  "is_void e \<longleftrightarrow> result_of e = Some VoidT"

text \<open>The arguments an action takes after the context and the span.\<close>

fun flat_args :: "rtype \<Rightarrow> rtype list" where
  "flat_args (TupleT ts) = ts"
| "flat_args VoidT = []"
| "flat_args t = [t]"

text \<open>The values of a type.\<close>

fun has_type :: "('c, 'v) tval \<Rightarrow> rtype \<Rightarrow> bool" where
  "has_type VoidV t \<longleftrightarrow> t = VoidT"
| "has_type (ElemV x) t \<longleftrightarrow> t = ElemT"
| "has_type (NodeV v) t \<longleftrightarrow> t = NodeT"
| "has_type (TupleV vs) t \<longleftrightarrow> (case t of TupleT ts \<Rightarrow> list_all2 has_type vs ts | _ \<Rightarrow> False)"
| "has_type (VecV vs) t \<longleftrightarrow> (case t of VecT s \<Rightarrow> list_all (\<lambda>v. has_type v s) vs | _ \<Rightarrow> False)"
| "has_type (OptV ov) t \<longleftrightarrow> (case t of OptT s \<Rightarrow> (case ov of None \<Rightarrow> True | Some v \<Rightarrow> has_type v s) | _ \<Rightarrow> False)"

text \<open>The value of a sequence from those of its non-void children.\<close>

fun collapse_value :: "('c, 'v) tval list \<Rightarrow> ('c, 'v) tval" where
  "collapse_value [] = VoidV"
| "collapse_value [v] = v"
| "collapse_value (v0 # v1 # rest) = TupleV (v0 # v1 # rest)"

text \<open>How a value is unpacked into arguments.\<close>

fun unpack :: "rtype \<Rightarrow> ('c, 'v) tval \<Rightarrow> ('c, 'v) tval list" where
  "unpack (TupleT ts) (TupleV vs) = vs"
| "unpack VoidT v = []"
| "unpack t v = [v]"

subsection \<open>Lemmas\<close>

lemma those_Some_iff: "those xs = Some ys \<longleftrightarrow> xs = map Some ys"
proof (induction xs arbitrary: ys)
  case (Cons x xs)
  then show ?case by (cases x) (auto simp: map_eq_Cons_conv)
qed auto

lemma those_result_of:
  "those (map result_of es) = Some ts \<longleftrightarrow> list_all2 (\<lambda>e t. result_of e = Some t) es ts"
  by (auto simp: those_Some_iff list_all2_conv_all_nth list_eq_iff_nth_eq)

lemma all_same_hd: "all_same ts \<Longrightarrow> t \<in> set ts \<Longrightarrow> t = List.hd ts"
  by (induction ts rule: all_same.induct) auto

lemma result_of_alternation:
  "result_of (AlternationExpr es) = Some t \<longleftrightarrow> es \<noteq> [] \<and> (\<forall>e \<in> set es. result_of e = Some t)"
proof
  assume a: "result_of (AlternationExpr es) = Some t"
  obtain ts where ts: "those (map result_of es) = Some ts"
    using a by (cases "those (map result_of es)") simp_all
  obtain rest where rest: "ts = t # rest" "all_same ts"
    using a ts by (cases ts) (simp_all split: if_splits)
  have "result_of e = Some t" if e: "e \<in> set es" for e
  proof -
    obtain i where i: "i < length es" "e = es ! i"
      using e by (auto simp: in_set_conv_nth)
    have l: "list_all2 (\<lambda>e t. result_of e = Some t) es ts"
      using ts by (simp only: those_result_of)
    then have "result_of e = Some (ts ! i)" "i < length ts"
      using i by (simp_all add: list_all2_conv_all_nth)
    then show ?thesis
      using all_same_hd [OF rest(2) nth_mem] rest(1) by simp
  qed
  moreover have "es \<noteq> []"
    using ts rest(1) by auto
  ultimately show "es \<noteq> [] \<and> (\<forall>e \<in> set es. result_of e = Some t)"
    by blast
next
  assume r: "es \<noteq> [] \<and> (\<forall>e \<in> set es. result_of e = Some t)"
  have same: "all_same (replicate n t)" for n
  proof (induction n)
    case (Suc n)
    then show ?case by (cases n) simp_all
  qed simp
  have "list_all2 (\<lambda>e t. result_of e = Some t) es (replicate (length es) t)"
    using r by (simp add: list_all2_conv_all_nth)
  then have "those (map result_of es) = Some (replicate (length es) t)"
    by (simp only: those_result_of)
  then show "result_of (AlternationExpr es) = Some t"
    using r same [of "length es"] by (cases es) simp_all
qed

lemma filter_void_filter: "filter_void ts = filter (\<lambda>t. t \<noteq> VoidT) ts"
  by (induction ts) simp_all

lemma has_type_collapse: "list_all2 has_type vs ts \<Longrightarrow> has_type (collapse_value vs) (collapse ts)"
proof (induction ts rule: collapse.induct)
  case (3 t0 t1 rest)
  then obtain v0 v1 vs' where "vs = v0 # v1 # vs'"
    by (auto simp: list_all2_Cons2)
  with 3 show ?case by simp
qed (auto simp: list_all2_Cons2)

lemma rep_of_void [simp]: "rep_of t = VoidT \<longleftrightarrow> t = VoidT"
  by (cases t) simp_all

lemma opt_of_void [simp]: "opt_of t = VoidT \<longleftrightarrow> t = VoidT"
  by (cases t) simp_all

lemma rep_of_other: "t \<noteq> VoidT \<Longrightarrow> rep_of t = VecT t"
  by (cases t) simp_all

lemma opt_of_other: "t \<noteq> VoidT \<Longrightarrow> opt_of t = OptT t"
  by (cases t) simp_all

lemma unpack_typed: "has_type v t \<Longrightarrow> list_all2 has_type (unpack t v) (flat_args t)"
  by (cases t; cases v) auto

end
