(* ===== verification/Typed_Fold.thy ===== *)
theory Typed_Fold
  imports Result_Types Grammar_Parse
begin

text \<open>
  The second half of \<open>include/peglib/ResultType.h\<close>: the fold of a parse tree into the typed
  value of its rule, the walk that fires the match hooks, and \<open>Grammar::parse_ast\<close>. A fold
  only reads the context; its state is the cursor into the children of the node. The
  value of an action is a function of the input, of the span of the rule and of the values
  of the body; \<open>dflt\<close> is the value of a default-constructed \<open>NodeType\<close>. \<open>Fault\<close> stands for a
  null pointer followed or an element read past the end, \<open>Diverge\<close> for too little fuel.
\<close>

subsection \<open>Definitions\<close>

text \<open>\<open>node->children.at(i)\<close> throws \<open>std::out_of_range\<close>.\<close>

datatype fold_error = ChildOutOfRange

type_synonym ('c, 'v) folded = "(nat, fold_error, ('c, 'v) tval) outcome"

definition deref :: "'c ctx \<Rightarrow> node_ref \<Rightarrow> tree_node option" where
  "deref c node =
     (case node of
        None \<Rightarrow> None
      | Some i \<Rightarrow> (if i < length (m_node_arena c) then Some (m_node_arena c ! i) else None))"

abbreviation with_node :: "'c ctx \<Rightarrow> node_ref \<Rightarrow> (tree_node \<Rightarrow> ('s, 'e, 'a) outcome) \<Rightarrow> ('s, 'e, 'a) outcome" where
  "with_node c node f \<equiv> (case deref c node of None \<Rightarrow> Fault | Some nd \<Rightarrow> f nd)"

text \<open>
  The folds of the composite expressions, over the fold \<open>fe\<close> of their children.
\<close>

text \<open>The last branch is taken without looking at \<open>alt_winner\<close>.\<close>

fun fold_dispatch ::
  "('c expr \<Rightarrow> node_ref \<Rightarrow> nat \<Rightarrow> ('c, 'v) folded) \<Rightarrow> 'c ctx \<Rightarrow> nat \<Rightarrow> 'c expr list \<Rightarrow> node_ref \<Rightarrow> nat
     \<Rightarrow> ('c, 'v) folded" where
  "fold_dispatch fe c i [] node cur = Ret VoidV cur"
| "fold_dispatch fe c i [e] node cur = fe e node cur"
| "fold_dispatch fe c i (e # e' # es) node cur =
     with_node c node (\<lambda>nd.
       if alt_winner nd = Some i then fe e node cur
       else fold_dispatch fe c (Suc i) (e' # es) node cur)"

text \<open>
  The loop of \<open>fold_rep\<close> over the children from the cursor on; each child is folded from a
  cursor of its own.
\<close>

fun fold_children ::
  "(node_ref \<Rightarrow> nat \<Rightarrow> ('c, 'v) folded) \<Rightarrow> node_ref list \<Rightarrow> nat \<Rightarrow> ('c, 'v) tval list
     \<Rightarrow> (nat, fold_error, ('c, 'v) tval list) outcome" where
  "fold_children f [] cur out = Ret out cur"
| "fold_children f (child # rest) cur out =
     bind_o (f child 0) (\<lambda>v _. fold_children f rest (Suc cur) (out @ [v]))"

definition fold_rep ::
  "('c expr \<Rightarrow> node_ref \<Rightarrow> nat \<Rightarrow> ('c, 'v) folded) \<Rightarrow> 'c ctx \<Rightarrow> 'c expr \<Rightarrow> node_ref \<Rightarrow> nat
     \<Rightarrow> ('c, 'v) folded" where
  "fold_rep fe c e node cur =
     with_node c node (\<lambda>nd.
       if is_void e then Ret VoidV (length (nd_children nd))
       else bind_o (fold_children (fe e) (drop cur (nd_children nd)) cur []) (\<lambda>vs cur'. Ret (VecV vs) cur'))"

definition fold_optional ::
  "('c expr \<Rightarrow> node_ref \<Rightarrow> nat \<Rightarrow> ('c, 'v) folded) \<Rightarrow> 'c ctx \<Rightarrow> 'c expr \<Rightarrow> node_ref \<Rightarrow> nat
     \<Rightarrow> ('c, 'v) folded" where
  "fold_optional fe c e node cur =
     with_node c node (\<lambda>nd.
       if is_void e then Ret VoidV (if cur < length (nd_children nd) then Suc cur else cur)
       else if length (nd_children nd) \<le> cur \<or> nd_children nd ! cur = None then Ret (OptV None) cur
       else bind_o (fe e (nd_children nd ! cur) 0) (\<lambda>v _. Ret (OptV (Some v)) (Suc cur)))"

fun pushes_node :: "'c expr \<Rightarrow> bool" where
  "pushes_node (MatcherExpr fn) = True"
| "pushes_node _ = False"

fun seq_step ::
  "('c expr \<Rightarrow> node_ref \<Rightarrow> nat \<Rightarrow> ('c, 'v) folded) \<Rightarrow> 'c ctx \<Rightarrow> 'c expr list \<Rightarrow> node_ref \<Rightarrow> nat
     \<Rightarrow> ('c, 'v) tval list \<Rightarrow> (nat, fold_error, ('c, 'v) tval list) outcome" where
  "seq_step fe c [] node cur acc = Ret acc cur"
| "seq_step fe c (e # es) node cur acc =
     (if is_void e then seq_step fe c es node (if pushes_node e then Suc cur else cur) acc
      else with_node c node (\<lambda>nd.
        if length (nd_children nd) \<le> cur then Throw ChildOutOfRange cur
        else bind_o (fe e (nd_children nd ! cur) 0) (\<lambda>v _. seq_step fe c es node (Suc cur) (acc @ [v]))))"

definition fold_sequence ::
  "('c expr \<Rightarrow> node_ref \<Rightarrow> nat \<Rightarrow> ('c, 'v) folded) \<Rightarrow> 'c ctx \<Rightarrow> 'c expr list \<Rightarrow> node_ref \<Rightarrow> nat
     \<Rightarrow> ('c, 'v) folded" where
  "fold_sequence fe c es node cur =
     bind_o (seq_step fe c es node cur []) (\<lambda>acc cur'. Ret (collapse_value acc) cur')"

text \<open>
  \<open>fold_and_invoke\<close>, the closure \<open>set_action\<close> stores: fold the body from the node the rule
  wrapped, and call the action with the unpacked value. \<open>fold_rule\<close> and \<open>fold_start\<close> call
  the closure of the node's producer or of the start rule.
\<close>

definition fold_and_invoke ::
  "('c expr \<Rightarrow> node_ref \<Rightarrow> nat \<Rightarrow> ('c, 'v) folded) \<Rightarrow> 'c ctx \<Rightarrow> 'c expr \<Rightarrow> ('c, 'v) action \<Rightarrow> node_ref
     \<Rightarrow> (nat, fold_error, 'v) outcome" where
  "fold_and_invoke fe c e f node =
     with_node c node (\<lambda>nd.
       let sp = Span (start_offset nd) (end_offset nd)
       in case result_of e of
            None \<Rightarrow> Fault
          | Some t \<Rightarrow>
              if t = VoidT then Ret (f (m_input c) sp []) 0
              else bind_o (fe e (case nd_children nd of [] \<Rightarrow> node | b # _ \<Rightarrow> b) 0)
                     (\<lambda>v cur. Ret (f (m_input c) sp (unpack t v)) cur))"

definition typed_fold :: "('c, 'v) grammar \<Rightarrow> rule_ref \<Rightarrow> ('c expr \<times> ('c, 'v) action) option" where
  "typed_fold G r = (case lookup_rule G r of None \<Rightarrow> None | Some nt \<Rightarrow> m_typed_fold nt)"

definition fold_rule ::
  "('c expr \<Rightarrow> node_ref \<Rightarrow> nat \<Rightarrow> ('c, 'v) folded) \<Rightarrow> ('c, 'v) grammar \<Rightarrow> 'v \<Rightarrow> 'c ctx \<Rightarrow> node_ref
     \<Rightarrow> (nat, fold_error, 'v) outcome" where
  "fold_rule fe G dflt c node =
     with_node c node (\<lambda>nd.
       case producer nd of
         None \<Rightarrow> Ret dflt 0
       | Some r \<Rightarrow>
           (case typed_fold G r of
              None \<Rightarrow> Ret dflt 0
            | Some (e, f) \<Rightarrow> fold_and_invoke fe c e f node))"

primrec fold_expr ::
  "nat \<Rightarrow> ('c, 'v) grammar \<Rightarrow> 'v \<Rightarrow> 'c ctx \<Rightarrow> 'c expr \<Rightarrow> node_ref \<Rightarrow> nat \<Rightarrow> ('c, 'v) folded" where
  "fold_expr 0 G dflt c e node cur = Diverge"
| "fold_expr (Suc fuel) G dflt c e node cur =
     (let fe = fold_expr fuel G dflt c
      in case e of
           TokenExpr v \<Rightarrow>
             with_node c node (\<lambda>nd.
               case ctx_at (start_offset nd) c of None \<Rightarrow> Fault | Some x \<Rightarrow> Ret (ElemV x) cur)
         | LexemeExpr a \<Rightarrow> fe a node cur
         | AlternationExpr es \<Rightarrow> fold_dispatch fe c 0 es node cur
         | ZeroOrMoreExpr a \<Rightarrow> fold_rep fe c a node cur
         | OneOrMoreExpr a \<Rightarrow> fold_rep fe c a node cur
         | NTimesExpr a n \<Rightarrow> fold_rep fe c a node cur
         | OptionalExpr a \<Rightarrow> fold_optional fe c a node cur
         | SequenceExpr es \<Rightarrow> fold_sequence fe c es node cur
         | RuleExpr r \<Rightarrow> bind_o (fold_rule fe G dflt c node) (\<lambda>v _. Ret (NodeV v) cur)
         | _ \<Rightarrow> Ret VoidV cur)"

definition fold_start ::
  "nat \<Rightarrow> ('c, 'v) grammar \<Rightarrow> 'v \<Rightarrow> 'c ctx \<Rightarrow> node_ref \<Rightarrow> rule_ref \<Rightarrow> (nat, fold_error, 'v) outcome" where
  "fold_start fuel G dflt c node start =
     (case typed_fold G start of
        Some (e, f) \<Rightarrow> fold_and_invoke (fold_expr fuel G dflt c) c e f node
      | None \<Rightarrow> fold_rule (fold_expr fuel G dflt c) G dflt c node)"

text \<open>
  \<open>fire_on_match\<close>: the calls of the hooks, as the list of the rules and nodes they are
  called with, in order. It throws nothing; a null child is skipped. The walk follows the
  tree wherever it leads, so on a cyclic one it would never return: \<open>Tree_Shape\<close> proves that
  there is none.
\<close>

definition has_hook :: "('c, 'v) grammar \<Rightarrow> rule_ref option \<Rightarrow> bool" where
  "has_hook G r = (case r of None \<Rightarrow> False | Some q \<Rightarrow>
     (case lookup_rule G q of None \<Rightarrow> False | Some nt \<Rightarrow> m_on_match nt))"

fun fire_children ::
  "(node_ref \<Rightarrow> (nat, fold_error, (rule_ref \<times> nat) list) outcome) \<Rightarrow> node_ref list
     \<Rightarrow> (nat, fold_error, (rule_ref \<times> nat) list) outcome" where
  "fire_children f [] = Ret [] 0"
| "fire_children f (child # rest) =
     bind_o (f child) (\<lambda>hs _. bind_o (fire_children f rest) (\<lambda>hs' _. Ret (hs @ hs') 0))"

primrec fire_on_match ::
  "nat \<Rightarrow> ('c, 'v) grammar \<Rightarrow> 'c ctx \<Rightarrow> node_ref \<Rightarrow> rule_ref option
     \<Rightarrow> (nat, fold_error, (rule_ref \<times> nat) list) outcome" where
  "fire_on_match 0 G c node start = Diverge"
| "fire_on_match (Suc fuel) G c node start =
     (case node of
        None \<Rightarrow> Ret [] 0
      | Some i \<Rightarrow>
          with_node c node (\<lambda>nd.
            let own = (if has_hook G start then [(the start, i)]
                       else if has_hook G (producer nd) then [(the (producer nd), i)]
                       else [])
            in bind_o (fire_children (\<lambda>child. fire_on_match fuel G c child None) (nd_children nd))
                 (\<lambda>hs _. Ret (own @ hs) 0)))"

text \<open>
  \<open>parse_ast\<close>. Its result: no value, or the value and the hooks fired before the fold.
\<close>

definition grammar_parse_ast ::
  "nat \<Rightarrow> ('c, 'v) grammar \<Rightarrow> 'v \<Rightarrow> string \<Rightarrow> 'c ctx
     \<Rightarrow> ('c, ('v \<times> (rule_ref \<times> nat) list) option) api_outcome" where
  "grammar_parse_ast fuel G dflt rule c =
     (case lookup_rule G rule of
        None \<Rightarrow> Throw (OutOfRange (''Grammar::parse_ast: rule '' @ [CHR 0x27] @ rule @ [CHR 0x27] @ '' not found'')) c
      | Some _ \<Rightarrow>
          bind_o (grammar_parse_tree fuel G rule c) (\<lambda>t c1.
            case t of
              None \<Rightarrow> Ret None c1
            | Some i \<Rightarrow>
                (case bind_o (fire_on_match fuel G c1 (Some i) (Some rule)) (\<lambda>hooks _.
                        bind_o (fold_start fuel G dflt c1 (Some i) rule) (\<lambda>v cur. Ret (v, hooks) cur)) of
                   Ret r _ \<Rightarrow> Ret (Some r) c1
                 | Throw e _ \<Rightarrow> Throw (OutOfRange ''vector'') c1
                 | Fault \<Rightarrow> Fault
                 | Diverge \<Rightarrow> Diverge)))"

subsection \<open>Folds compute values of the result type\<close>

lemma with_node_Ret:
  "with_node c node f = Ret a s \<longleftrightarrow>
   (\<exists>i. node = Some i \<and> i < length (m_node_arena c) \<and> f (m_node_arena c ! i) = Ret a s)"
  by (auto simp: deref_def split: option.splits)

locale typed_children =
  fixes fe :: "'c expr \<Rightarrow> node_ref \<Rightarrow> nat \<Rightarrow> ('c, 'v) folded"
  assumes child_typed: "fe e node cur = Ret v cur' \<Longrightarrow> result_of e = Some t \<Longrightarrow> has_type v t"
begin

lemma dispatch_typed:
  "fold_dispatch fe c i es node cur = Ret v cur' \<Longrightarrow> es \<noteq> [] \<Longrightarrow> (\<And>e. e \<in> set es \<Longrightarrow> result_of e = Some t) \<Longrightarrow>
   has_type v t"
  by (induction es arbitrary: i rule: induct_list012)
     (auto simp: with_node_Ret child_typed split: if_splits)

lemma children_typed:
  "fold_children (fe e) cs cur out = Ret vs cur' \<Longrightarrow> result_of e = Some t \<Longrightarrow> list_all (\<lambda>v. has_type v t) out \<Longrightarrow>
   list_all (\<lambda>v. has_type v t) vs"
proof (induction cs arbitrary: cur out)
  case (Cons child rest)
  obtain v s where v: "fe e child 0 = Ret v s" and rest: "fold_children (fe e) rest (Suc cur) (out @ [v]) = Ret vs cur'"
    using Cons.prems(1) by (auto simp: bind_o_eq_Ret)
  have "has_type v t" by (rule child_typed [OF v Cons.prems(2)])
  then show ?case using Cons.IH [OF rest Cons.prems(2)] Cons.prems(3) by simp
qed simp

lemma rep_typed:
  assumes "fold_rep fe c e node cur = Ret v cur'" and "result_of e = Some t"
  shows "has_type v (rep_of t)"
  using assms children_typed [OF _ assms(2), of _ _ "[]"]
  by (auto simp: fold_rep_def with_node_Ret bind_o_eq_Ret is_void_def rep_of_other split: if_splits)

lemma optional_typed:
  assumes "fold_optional fe c e node cur = Ret v cur'" and "result_of e = Some t"
  shows "has_type v (opt_of t)"
  using assms child_typed [OF _ assms(2)]
  by (auto simp: fold_optional_def with_node_Ret bind_o_eq_Ret is_void_def opt_of_other split: if_splits)

lemma seq_step_typed:
  "seq_step fe c es node cur acc = Ret vs cur' \<Longrightarrow> list_all2 (\<lambda>e t. result_of e = Some t) es ts \<Longrightarrow>
   list_all2 has_type acc us \<Longrightarrow> list_all2 has_type vs (us @ filter_void ts)"
proof (induction es arbitrary: cur acc ts us)
  case (Cons e es)
  obtain t ts' where ts: "ts = t # ts'" "result_of e = Some t" "list_all2 (\<lambda>e t. result_of e = Some t) es ts'"
    using Cons.prems(2) by (auto simp: list_all2_Cons1)
  show ?case
  proof (cases "t = VoidT")
    case True
    then show ?thesis
      using Cons.prems(1,3) ts Cons.IH [OF _ ts(3)] by (auto simp: is_void_def)
  next
    case False
    then obtain child v s where v: "fe e child 0 = Ret v s"
      and rest: "seq_step fe c es node (Suc cur) (acc @ [v]) = Ret vs cur'"
      using Cons.prems(1) ts(2) by (auto simp: is_void_def with_node_Ret bind_o_eq_Ret split: if_splits)
    have "list_all2 has_type (acc @ [v]) (us @ [t])"
      using Cons.prems(3) child_typed [OF v ts(2)] by (intro list_all2_appendI) simp_all
    from Cons.IH [OF rest ts(3) this] show ?thesis
      using False ts(1) by simp
  qed
qed simp

lemma sequence_typed:
  assumes "fold_sequence fe c es node cur = Ret v cur'" and "result_of (SequenceExpr es) = Some t"
  shows "has_type v t"
proof -
  obtain ts where ts: "those (map result_of es) = Some ts" "t = collapse (filter_void ts)"
    using assms(2) by auto
  obtain vs s where "seq_step fe c es node cur [] = Ret vs s" "v = collapse_value vs"
    using assms(1) by (auto simp: fold_sequence_def bind_o_eq_Ret)
  then show ?thesis
    using seq_step_typed [of c es node cur "[]" vs s ts "[]"] ts has_type_collapse
    by (simp add: those_result_of)
qed

text \<open>The action gets what its signature asks for.\<close>

lemma invoke_typed:
  assumes "fold_and_invoke fe c e f node = Ret r cur"
  shows "\<exists>t sp args. result_of e = Some t \<and> list_all2 has_type args (flat_args t) \<and> r = f (m_input c) sp args"
proof -
  obtain i where i: "node = Some i" and r: "(let nd = m_node_arena c ! i; sp = Span (start_offset nd) (end_offset nd)
       in case result_of e of
            None \<Rightarrow> Fault
          | Some t \<Rightarrow>
              if t = VoidT then Ret (f (m_input c) sp []) 0
              else bind_o (fe e (case nd_children nd of [] \<Rightarrow> node | b # _ \<Rightarrow> b) 0)
                     (\<lambda>v cur. Ret (f (m_input c) sp (unpack t v)) cur)) = Ret r cur"
    using assms by (auto simp: fold_and_invoke_def with_node_Ret Let_def)
  obtain t where t: "result_of e = Some t"
    using r by (cases "result_of e") auto
  show ?thesis
  proof (cases "t = VoidT")
    case True
    then show ?thesis using r t by (auto simp: Let_def)
  next
    case False
    then obtain v b s where "fe e b 0 = Ret v s"
      and "r = f (m_input c) (Span (start_offset (m_node_arena c ! i)) (end_offset (m_node_arena c ! i))) (unpack t v)"
      using r t by (auto simp: Let_def bind_o_eq_Ret)
    then show ?thesis
      using unpack_typed [OF child_typed [OF _ t]] t by blast
  qed
qed

end

lemma fold_expr_typed:
  "fold_expr n G dflt c e node cur = Ret v cur' \<Longrightarrow> result_of e = Some t \<Longrightarrow> has_type v t"
proof (induction n arbitrary: e node cur v cur' t)
  case (Suc n)
  have kids: "typed_children (fold_expr n G dflt c)"
    by unfold_locales (rule Suc.IH)
  note run = Suc.prems(1)
  show ?case
  proof (cases e)
    case (AlternationExpr es)
    then show ?thesis
      using run typed_children.dispatch_typed [OF kids, of c 0 es node cur v cur' t] Suc.prems(2)
        result_of_alternation [of es t] by simp
  next
    case (SequenceExpr es)
    then show ?thesis
      using run typed_children.sequence_typed [OF kids, of c es node cur v cur' t] Suc.prems(2) by simp
  next
    case (LexemeExpr a)
    then show ?thesis using run typed_children.child_typed [OF kids] Suc.prems(2) by simp
  next
    case (TokenExpr a)
    then show ?thesis using run Suc.prems(2) by (auto simp: with_node_Ret split: option.splits)
  next
    case (RuleExpr a)
    then show ?thesis using run Suc.prems(2) by (auto simp: bind_o_eq_Ret)
  qed (use run Suc.prems(2) typed_children.rep_typed [OF kids] typed_children.optional_typed [OF kids] in auto)
qed simp

interpretation folds: typed_children "fold_expr n G dflt c" for n G dflt c
  by unfold_locales (rule fold_expr_typed)

text \<open>
  The fold keeps the promise its C++ types make: the value it returns for an expression
  has the expression's result type, and an action is called with exactly the arguments its
  signature was checked against.
\<close>

theorem fold_typed:
  assumes "fold_expr n G dflt c e node cur = Ret v cur'" and "result_of e = Some t"
  shows "has_type v t \<and>
    (\<forall>f r s. fold_and_invoke (fold_expr n G dflt c) c e f node = Ret r s \<longrightarrow>
       (\<exists>sp args. list_all2 has_type args (flat_args t) \<and> r = f (m_input c) sp args))"
  using folds.child_typed [OF assms] folds.invoke_typed assms(2) by fastforce

end
