(* ===== verification/Tree_Shape.thy ===== *)
theory Tree_Shape
  imports Typed_Fold
begin

text \<open>
  The trees the engine builds are finite trees. Nodes are shared, stamped again and, while a
  left-recursive rule grows, handed out before the rule has returned, so this is not obvious;
  but a node gets its children only while it is under construction, and then no result and
  no entry of the memo leads to it. It holds for every grammar, whatever its left
  recursion, cuts, recovery and skipper, and it is what the walks over the tree
  (\<open>fire_on_match\<close>, the fold) rely on to end: the source says that the fold runs on the final,
  acyclic tree.
\<close>

subsection \<open>Finite trees\<close>

text \<open>The node \<open>t\<close> is the root of a finite tree that avoids the nodes in \<open>X\<close>.\<close>

inductive fin_node :: "'c ctx \<Rightarrow> nat set \<Rightarrow> nat \<Rightarrow> bool" for c X where
  fin_nodeI: "t < length (m_node_arena c) \<Longrightarrow> t \<notin> X \<Longrightarrow>
    (\<And>s. Some s \<in> set (nd_children (node_at t c)) \<Longrightarrow> fin_node c X s) \<Longrightarrow> fin_node c X t"

text \<open>Nodes are added, and the children of an old one stay as they are, unless it is in \<open>Y\<close>.\<close>

definition shape_step :: "nat set \<Rightarrow> 'c ctx \<Rightarrow> 'c ctx \<Rightarrow> bool" where
  "shape_step Y c c' \<longleftrightarrow> length (m_node_arena c) \<le> length (m_node_arena c') \<and>
     (\<forall>i < length (m_node_arena c). i \<notin> Y \<longrightarrow> nd_children (node_at i c') = nd_children (node_at i c))"

lemma shape_step_refl [simp]: "shape_step Y c c"
  by (simp add: shape_step_def)

lemma shape_step_length: "shape_step Y c c' \<Longrightarrow> length (m_node_arena c) \<le> length (m_node_arena c')"
  by (simp add: shape_step_def)

lemma shape_step_trans: "shape_step Y a b \<Longrightarrow> shape_step Y b c \<Longrightarrow> shape_step Y a c"
  by (auto simp: shape_step_def)

lemma shape_step_mono: "shape_step Y a b \<Longrightarrow> Y \<subseteq> Z \<Longrightarrow> shape_step Z a b"
  by (auto simp: shape_step_def)

lemma shape_step_same: "m_node_arena c' = m_node_arena c \<Longrightarrow> shape_step Y c c'"
  by (simp add: shape_step_def node_at_def)

text \<open>A later step may change what is new since \<open>a\<close>.\<close>

lemma shape_step_fresh:
  "shape_step {} a b \<Longrightarrow> shape_step {n} b c \<Longrightarrow> length (m_node_arena a) \<le> n \<Longrightarrow> shape_step {} a c"
  by (auto simp: shape_step_def)

lemma fin_node_step: "fin_node c X t \<Longrightarrow> shape_step Y c c' \<Longrightarrow> Y \<subseteq> X \<Longrightarrow> fin_node c' X t"
proof (induction rule: fin_node.induct)
  case (fin_nodeI t)
  then have "nd_children (node_at t c') = nd_children (node_at t c)" "t < length (m_node_arena c')"
    by (auto simp: shape_step_def)
  with fin_nodeI show ?case by (auto intro: fin_node.fin_nodeI)
qed

lemma fin_node_anti: "fin_node c X t \<Longrightarrow> Z \<inter> {..<length (m_node_arena c)} \<subseteq> X \<Longrightarrow> fin_node c Z t"
  by (induction rule: fin_node.induct) (auto intro: fin_node.fin_nodeI)

lemma fin_node_less: "fin_node c X t \<Longrightarrow> Z \<subseteq> X \<Longrightarrow> fin_node c Z t"
  by (rule fin_node_anti) auto

subsection \<open>Contexts and results\<close>

text \<open>
  The nodes in \<open>X\<close> are under construction: no tree in the memo leads through them.
\<close>

definition closed :: "nat set \<Rightarrow> 'c ctx \<Rightarrow> bool" where
  "closed X c \<longleftrightarrow> X \<subseteq> {..<length (m_node_arena c)} \<and>
     (\<forall>r p st t. memo_lookup r p c = Some st \<longrightarrow> tree (m_cached_result st) = Some t \<longrightarrow> fin_node c X t)"

definition fin_ref :: "'c ctx \<Rightarrow> nat set \<Rightarrow> node_ref \<Rightarrow> bool" where
  "fin_ref c X node \<longleftrightarrow> (\<forall>t. node = Some t \<longrightarrow> fin_node c X t)"

lemma fin_ref_None [simp]: "fin_ref c X None"
  by (simp add: fin_ref_def)

lemma fin_ref_Some [simp]: "fin_ref c X (Some t) = fin_node c X t"
  by (simp add: fin_ref_def)

lemma fin_ref_step: "fin_ref c X r \<Longrightarrow> shape_step Y c c' \<Longrightarrow> Y \<subseteq> X \<Longrightarrow> fin_ref c' X r"
  by (auto simp: fin_ref_def intro: fin_node_step)

lemma closed_entry: "closed X c \<Longrightarrow> memo_lookup r p c = Some st \<Longrightarrow> fin_ref c X (tree (m_cached_result st))"
  by (auto simp: closed_def fin_ref_def)

lemma closed_step:
  assumes "closed X c" and "shape_step Y c c'" and "Y \<subseteq> X"
    and "\<And>r p st. memo_lookup r p c' = Some st \<Longrightarrow> memo_lookup r p c = Some st \<or> fin_ref c' X (tree (m_cached_result st))"
  shows "closed X c'"
  unfolding closed_def
proof (intro conjI allI impI)
  show "X \<subseteq> {..<length (m_node_arena c')}"
    using assms(1,2) by (auto simp: closed_def shape_step_def)
  fix r p st t assume "memo_lookup r p c' = Some st" "tree (m_cached_result st) = Some t"
  then show "fin_node c' X t"
    using assms(4) [of r p st] closed_entry [OF assms(1), of r p st] fin_ref_step [OF _ assms(2,3)] by fastforce
qed

lemma closed_same: "closed X c \<Longrightarrow> shape_step Y c c' \<Longrightarrow> Y \<subseteq> X \<Longrightarrow> m_mem c' = m_mem c \<Longrightarrow> closed X c'"
  by (rule closed_step) (auto simp: memo_lookup_def)

lemma closed_less: "closed X c \<Longrightarrow> Z \<subseteq> X \<Longrightarrow> closed Z c"
  unfolding closed_def by (blast intro: fin_node_less)

lemma closed_update:
  assumes "closed X c" and "fin_ref c X (tree (m_cached_result st))"
  shows "closed X (snd (update_rule_state r p st c))"
proof (rule closed_step [OF assms(1) shape_step_same empty_subsetI])
  show arena: "m_node_arena (snd (update_rule_state r p st c)) = m_node_arena c"
    by (simp add: update_rule_state_def split: option.split)
  show "memo_lookup r' p' c = Some st' \<or> fin_ref (snd (update_rule_state r p st c)) X (tree (m_cached_result st'))"
    if "memo_lookup r' p' (snd (update_rule_state r p st c)) = Some st'" for r' p' st'
    using that assms(2) fin_ref_step [OF _ shape_step_same [OF arena] empty_subsetI]
    by (auto simp: memo_lookup_update split: if_splits)
qed

text \<open>What a step that returns gives (partial correctness).\<close>

definition gives :: "('s, 'e, 'a) outcome \<Rightarrow> ('a \<Rightarrow> 's \<Rightarrow> bool) \<Rightarrow> bool" where
  "gives m Q \<longleftrightarrow> (\<forall>a s. m = Ret a s \<longrightarrow> Q a s)"

lemma gives_simps [simp]: "gives (Ret a s) Q = Q a s" "gives (Throw e s) Q" "gives Fault Q" "gives Diverge Q"
  by (simp_all add: gives_def)

lemma gives_bindI: "gives m Q \<Longrightarrow> (\<And>a s. Q a s \<Longrightarrow> gives (f a s) P) \<Longrightarrow> gives (bind_o m f) P"
  by (cases m) simp_all

lemma gives_mono: "gives m P \<Longrightarrow> (\<And>a s. P a s \<Longrightarrow> Q a s) \<Longrightarrow> gives m Q"
  by (cases m) simp_all

lemma gives_frame: "(\<And>fr. gives (k fr c) P) \<Longrightarrow> gives (with_frame k c) P"
  by (simp add: with_frame_def split: list.split)

lemma gives_guard: "gives m (\<lambda>a s. gives (g s) (\<lambda>_. P a)) \<Longrightarrow> gives (scope_guard g m) P"
  by (cases m) (auto intro: gives_bindI simp: bind_o_case split: outcome.splits)

definition moved :: "nat set \<Rightarrow> 'c ctx \<Rightarrow> 'c ctx \<Rightarrow> bool" where
  "moved X c c' \<longleftrightarrow> shape_step {} c c' \<and> closed X c'"

definition shaped :: "nat set \<Rightarrow> 'c ctx \<Rightarrow> parse_result \<Rightarrow> 'c ctx \<Rightarrow> bool" where
  "shaped X c r c' \<longleftrightarrow> moved X c c' \<and> fin_ref c' X (tree r)"

lemma moved_refl: "closed X c \<Longrightarrow> moved X c c"
  by (simp add: moved_def)

lemma moved_trans: "moved X a b \<Longrightarrow> moved X b c \<Longrightarrow> moved X a c"
  by (auto simp: moved_def intro: shape_step_trans)

lemma moved_closed: "moved X c c' \<Longrightarrow> closed X c'"
  by (simp add: moved_def)

lemma moved_same:
  "moved X c c1 \<Longrightarrow> m_node_arena c2 = m_node_arena c1 \<Longrightarrow> m_mem c2 = m_mem c1 \<Longrightarrow> moved X c c2"
  by (auto simp: moved_def intro: shape_step_trans shape_step_same closed_same [where Y = "{}"])

lemma fin_ref_arena: "fin_ref c X r \<Longrightarrow> m_node_arena c' = m_node_arena c \<Longrightarrow> fin_ref c' X r" for c c' :: "'c ctx"
  by (rule fin_ref_step [of c X r "{}" c']) (simp_all add: shape_step_same)

lemma shaped_same:
  "shaped X c r c1 \<Longrightarrow> m_node_arena c2 = m_node_arena c1 \<Longrightarrow> m_mem c2 = m_mem c1 \<Longrightarrow> shaped X c r c2"
  by (auto simp: shaped_def intro: moved_same fin_ref_arena)

lemma shaped_moved: "shaped X c r c' \<Longrightarrow> moved X c c'"
  by (simp add: shaped_def)

lemma shaped_after: "moved X a b \<Longrightarrow> shaped X b r c \<Longrightarrow> shaped X a r c"
  by (auto simp: shaped_def intro: moved_trans)

lemma moved_null: "moved X c c' \<Longrightarrow> tree r = None \<Longrightarrow> shaped X c r c'"
  by (simp add: shaped_def)

subsection \<open>The steps on nodes\<close>

lemma shape_step_upd:
  "(i \<in> Y \<or> nd_children (f (node_at i c)) = nd_children (node_at i c)) \<Longrightarrow> shape_step Y c (upd_node i f c)"
  by (cases "i < length (m_node_arena c)") (auto simp: shape_step_def node_at_def upd_node_def nth_list_update)

lemma upd_node_memo: "m_mem (upd_node i f c) = m_mem c" "length (m_node_arena (upd_node i f c)) = length (m_node_arena c)"
  by (simp_all add: upd_node_def)

text \<open>A change that is not one of the children: stamps, names, offsets.\<close>

lemma moved_upd:
  assumes "moved X c c1" and "\<And>nd. nd_children (f nd) = nd_children nd"
  shows "moved X c (upd_node i f c1)"
proof -
  have step: "shape_step {} c1 (upd_node i f c1)" by (rule shape_step_upd) (simp add: assms(2))
  then show ?thesis
    using assms(1) closed_same [OF moved_closed [OF assms(1)] step] shape_step_trans [of "{}" c c1]
    by (simp add: moved_def upd_node_memo)
qed

lemma shaped_upd:
  assumes "shaped X c r c1" and "\<And>nd. nd_children (f nd) = nd_children nd"
  shows "shaped X c r (upd_node i f c1)"
  using assms moved_upd [of X c c1 f i] fin_ref_step [of c1 X "tree r" "{}" "upd_node i f c1"] shape_step_upd [of i "{}" f c1]
  by (simp add: shaped_def)

text \<open>A node of one's own: it is open, and has no children yet.\<close>

definition building :: "nat set \<Rightarrow> 'c ctx \<Rightarrow> nat \<Rightarrow> 'c ctx \<Rightarrow> bool" where
  "building X c n c' \<longleftrightarrow> n = length (m_node_arena c) \<and> n < length (m_node_arena c') \<and> shape_step {n} c c' \<and>
     closed (insert n X) c' \<and> (\<forall>s. Some s \<in> set (nd_children (node_at n c')) \<longrightarrow> fin_node c' (insert n X) s)"

lemma building_closed: "building X c n c1 \<Longrightarrow> closed (insert n X) c1"
  unfolding building_def by blast

lemma building_new:
  assumes "closed X c" and "make_node c = (n, c1)"
  shows "building X c n c1"
proof -
  have n: "n = length (m_node_arena c)" "m_node_arena c1 = m_node_arena c @ [empty_node]" "m_mem c1 = m_mem c"
    using assms(2) by (auto simp: make_node_def)
  have step: "shape_step {} c c1" using n by (simp add: shape_step_def node_at_def nth_append)
  have "closed (insert n X) c"  if "n < length (m_node_arena c)"
    using that n by simp
  have "closed X c1" by (rule closed_same [OF assms(1) step empty_subsetI n(3)])
  moreover have "fin_node c1 (insert n X) t" if "memo_lookup r p c1 = Some st" "tree (m_cached_result st) = Some t" for r p st t
  proof -
    have "fin_node c X t"
      using closed_entry [OF assms(1), of r p st] that n(3) by (simp add: memo_lookup_def)
    then have "fin_node c (insert n X) t" by (rule fin_node_anti) (use n in auto)
    then show ?thesis by (rule fin_node_step [OF _ step]) simp
  qed
  moreover have "node_at n c1 = empty_node" using n by (simp add: node_at_def)
  ultimately show ?thesis
    using n shape_step_mono [OF step] by (auto simp: building_def closed_def empty_node_def)
qed

lemma building_start: "closed X c \<Longrightarrow> start_node c = (n, c1) \<Longrightarrow> building X c n c1"
proof -
  assume "closed X c" and s: "start_node c = (n, c1)"
  then obtain c0 where c0: "make_node c = (n, c0)" "c1 = upd_node n (\<lambda>nd. nd\<lparr>start_offset := mark c0\<rparr>) c0"
    by (auto simp: start_node_def Let_def split: prod.splits)
  have b: "building X c n c0" by (rule building_new [OF \<open>closed X c\<close> c0(1)])
  have step: "shape_step {} c0 c1" unfolding c0(2) by (rule shape_step_upd) simp
  have "nd_children (node_at n c1) = nd_children (node_at n c0)"
    using step b by (auto simp: shape_step_def building_def)
  then show ?thesis
    using b step shape_step_trans [OF _ shape_step_mono [OF step], of "{n}" c] closed_same [OF _ step]
      fin_node_step [OF _ step] c0(2)
    by (auto simp: building_def upd_node_memo)
qed

text \<open>What a child's parse, and the push of its tree, do to the node under construction.\<close>

lemma building_moved:
  assumes "building X c n c1" and "moved (insert n X) c1 c2"
  shows "building X c n c2"
proof -
  have "nd_children (node_at n c2) = nd_children (node_at n c1)" "n < length (m_node_arena c2)"
    using assms by (auto simp: moved_def shape_step_def building_def)
  then show ?thesis
    using assms fin_node_step [of c1 "insert n X" _ "{}" c2] shape_step_trans [OF _ shape_step_mono, of "{n}" c c1 "{}" c2]
    by (auto simp: building_def moved_def)
qed

lemma building_child:
  assumes "building X c n c1" and "fin_ref c1 (insert n X) node"
  shows "building X c n (push_child n node c1)"
proof (cases node)
  case None
  then show ?thesis using assms(1) by (simp add: push_child_def)
next
  case (Some t)
  let ?c = "push_child n node c1"
  have step: "shape_step {n} c1 ?c"
    using Some by (auto simp: push_child_def intro: shape_step_upd)
  have n: "n < length (m_node_arena c1)" using assms(1) by (simp add: building_def)
  have "nd_children (node_at n ?c) = nd_children (node_at n c1) @ [Some t]"
    using Some n by (simp add: push_child_def upd_node_def node_at_def)
  moreover have "m_mem ?c = m_mem c1" "length (m_node_arena ?c) = length (m_node_arena c1)"
    using Some by (simp_all add: push_child_def upd_node_memo)
  ultimately show ?thesis
    using assms Some n fin_node_step [OF _ step] closed_same [OF _ step] shape_step_trans [OF _ step]
    by (auto simp: building_def)
qed

text \<open>When the node is done it closes over its children.\<close>

lemma building_done:
  assumes "building X c n c1" and "X \<subseteq> {..<length (m_node_arena c)}"
  shows "shaped X c (ok_result (Some n)) c1" "moved X c c1"
proof -
  have n: "n = length (m_node_arena c)" "n < length (m_node_arena c1)" "n \<notin> X"
    using assms by (auto simp: building_def)
  have "fin_node c1 X n"
  proof (rule fin_nodeI [OF n(2,3)])
    show "fin_node c1 X s" if "Some s \<in> set (nd_children (node_at n c1))" for s
      by (rule fin_node_less [of c1 "insert n X"]) (use assms(1) that in \<open>auto simp: building_def\<close>)
  qed
  moreover show "moved X c c1"
  proof -
    have "closed X c1"
      using assms(1) closed_less [of "insert n X" c1 X] unfolding building_def by blast
    moreover have "shape_step {} c c1"
      using assms(1) by (auto simp: building_def shape_step_def)
    ultimately show ?thesis by (simp add: moved_def)
  qed
  ultimately show "shaped X c (ok_result (Some n)) c1"
    by (simp add: shaped_def ok_result_def)
qed

lemma closed_open: "closed X c \<Longrightarrow> X \<subseteq> {..<length (m_node_arena c)}"
  by (simp add: closed_def)

subsection \<open>The composite expressions\<close>

locale shaped_parsers =
  fixes run :: "'c expr \<Rightarrow> 'c parser"
    and skip :: "'c ctx \<Rightarrow> ('c, unit) parse_outcome"
  assumes run_shaped: "closed X c \<Longrightarrow> gives (run e c) (shaped X c)"
    and skip_shaped: "closed X c \<Longrightarrow> gives (skip c) (\<lambda>_. moved X c)"
begin

text \<open>A child of the node \<open>n\<close> under construction.\<close>

lemma child_building:
  assumes "building X c n c1"
  shows "gives (run e c1) (\<lambda>r c2. building X c n c2 \<and> building X c n (push_child n (tree r) c2))"
proof (rule gives_mono [OF run_shaped])
  show "closed (insert n X) c1" by (rule building_closed [OF assms])
  fix r c2 assume r: "shaped (insert n X) c1 r c2"
  have "building X c n c2" by (rule building_moved [OF assms shaped_moved [OF r]])
  then show "building X c n c2 \<and> building X c n (push_child n (tree r) c2)"
    using r building_child by (auto simp: shaped_def)
qed

lemma skip_building:
  assumes "building X c n c1"
  shows "gives (if b then skip c1 else Ret () c1) (\<lambda>_. building X c n)"
  using gives_mono [OF skip_shaped [OF building_closed [OF assms]]] building_moved [OF assms] assms by simp

lemma parse_seq_shaped:
  "building X c n c1 \<Longrightarrow> gives (parse_seq run skip n i es c1) (\<lambda>_. building X c n)"
proof (induction es arbitrary: i c1)
  case (Cons e es)
  show ?case
    unfolding parse_seq.simps
  proof (rule gives_bindI [OF skip_building [OF Cons.prems]])
    fix u c2 assume "building X c n c2"
    then show "gives (bind_o (run e c2) (\<lambda>r c2.
        if success r then parse_seq run skip n (Suc i) es (push_child n (tree r) c2) else Ret False c2))
        (\<lambda>_. building X c n)"
      by (rule gives_bindI [OF child_building]) (simp add: Cons.IH)
  qed
qed simp

lemma sequence_shaped:
  assumes "closed X c"
  shows "gives (sequence_parse run skip es c) (shaped X c)"
proof -
  obtain n c1 where start: "start_node c = (n, c1)" by (cases "start_node c")
  show ?thesis
    unfolding sequence_parse_def Let_def start prod.case
  proof (rule gives_bindI [OF parse_seq_shaped [OF building_start [OF assms start]]])
    fix ok c2 assume "building X c n c2"
    then have "shaped X c (ok_result (Some n)) c2" "moved X c c2"
      using building_done closed_open [OF assms] by blast+
    then show "gives (if ok then Ret (ok_result (Some n)) (upd_node n (\<lambda>n. n\<lparr>end_offset := mark c2\<rparr>) c2)
        else Ret null_result (set_state (m_position c) c2)) (shaped X c)"
      using shaped_upd [of X c "ok_result (Some n)" c2] moved_null [OF moved_same [of X c c2]]
      by (simp add: set_state_def null_result_def)
  qed
qed

lemma scope_shaped:
  assumes "closed X c" and "gives (m (init_cut c)) (shaped X (init_cut c))"
  shows "gives (scope_guard remove_cut (m (init_cut c))) (shaped X c)"
proof (rule gives_guard, rule gives_mono [OF assms(2)])
  fix r c1 assume r: "shaped X (init_cut c) r c1"
  have "moved X c (init_cut c)"
    by (rule moved_same [OF moved_refl [OF assms(1)]]) (simp_all add: init_cut_def)
  then have r: "shaped X c r c1" using r by (rule shaped_after)
  have drop: "shaped X c r c2" if c2: "m_node_arena c2 = m_node_arena c1"
      "\<And>q p st. memo_lookup q p c2 = Some st \<Longrightarrow> memo_lookup q p c1 = Some st" for c2
  proof -
    have "closed X c2"
      by (rule closed_step [OF moved_closed [OF shaped_moved [OF r]] shape_step_same [OF c2(1)] empty_subsetI])
         (simp add: c2(2))
    then show ?thesis
      using r fin_ref_arena [OF _ c2(1)] shape_step_trans [OF _ shape_step_same [OF c2(1)]]
      by (auto simp: shaped_def moved_def)
  qed
  show "gives (remove_cut c1) (\<lambda>_. shaped X c r)"
    by (auto simp: remove_cut_def Let_def intro!: drop split: list.split) (auto simp: memo_lookup_def split: if_splits)
qed

lemma parse_alt_shaped: "closed X c \<Longrightarrow> gives (parse_alt run i es c) (shaped X c)"
proof (induction es arbitrary: i c)
  case Nil
  then show ?case by (simp add: moved_null moved_refl null_result_def)
next
  case (Cons e es)
  show ?case
    unfolding parse_alt.simps
  proof (rule gives_bindI [OF run_shaped [OF Cons.prems]])
    fix r c1 assume r: "shaped X c r c1"
    have "gives (parse_alt run (Suc i) es c1) (shaped X c)"
      by (rule gives_mono [OF Cons.IH [OF moved_closed [OF shaped_moved [OF r]]]])
         (rule shaped_after [OF shaped_moved [OF r]])
    then show "gives (if success r
          then Ret r (case tree r of None \<Rightarrow> c1 | Some t \<Rightarrow> upd_node t (\<lambda>n. n\<lparr>alt_winner := Some i\<rparr>) c1)
          else if get_cut c1 then Throw (cut_error c1) c1 else parse_alt run (Suc i) es c1) (shaped X c)"
      using r shaped_upd [OF r] by (auto split: option.split)
  qed
qed

lemma alternation_shaped: "closed X c \<Longrightarrow> gives (alternation_parse run es c) (shaped X c)"
  unfolding alternation_parse_def
proof (rule scope_shaped)
  assume c: "closed X c"
  show "closed X c" by (rule c)
  have "closed X (init_cut c)"
    by (rule closed_same [OF c shape_step_same empty_subsetI]) (simp_all add: init_cut_def)
  then show "gives (parse_alt run 0 es (init_cut c)) (shaped X (init_cut c))" by (rule parse_alt_shaped)
qed

lemma building_cut: "building X c n c1 \<Longrightarrow> building X c n (set_cut b c1)"
  by (rule building_moved, assumption)
     (auto simp: building_def intro!: moved_same [OF moved_refl] split: list.split simp: set_cut_def)

lemma rep_loop_shaped:
  "building X c n c1 \<Longrightarrow> gives (rep_loop fuel (run e) skip max_rep n k lst c1) (\<lambda>_. building X c n)"
proof (induction fuel arbitrary: k lst c1)
  case (Suc fuel)
  show ?case
    unfolding rep_loop.simps
  proof (rule gives_bindI [OF skip_building [OF Suc.prems]])
    fix u c2 assume c2: "building X c n c2"
    show "gives (let start_state = m_position c2
       in bind_o (run e (set_cut False c2)) (\<lambda>r c3.
            if success r then
              let count = k + 1; last = m_position c3; c4 = push_child n (tree r) c3
              in if max_rep > 0 \<and> int count \<ge> max_rep then Ret (count, last, False) c4
                 else if m_position c4 = start_state then Ret (count, last, False) c4
                 else rep_loop fuel (run e) skip max_rep n count last c4
            else Ret (k, lst, True) c3)) (\<lambda>_. building X c n)"
      unfolding Let_def
      by (rule gives_bindI [OF child_building [OF building_cut [OF c2]]]) (simp add: Suc.IH)
  qed
qed simp

lemma set_resize: "Some s \<in> set (resize k xs) \<Longrightarrow> Some s \<in> set xs"
  by (auto simp: resize_def dest: in_set_takeD)

lemma building_resize:
  assumes "building X c n c1"
  shows "building X c n (upd_node n (\<lambda>nd. nd\<lparr>nd_children := resize k (nd_children nd)\<rparr>) (set_state p c1))" (is "building X c n ?c")
proof -
  have step: "shape_step {n} c1 ?c"
    by (rule shape_step_trans [OF shape_step_same shape_step_upd]) (simp_all add: set_state_def)
  have "nd_children (node_at n ?c) = resize k (nd_children (node_at n c1))"
    using assms by (simp add: upd_node_def node_at_def set_state_def building_def)
  moreover have "m_mem ?c = m_mem c1" "length (m_node_arena ?c) = length (m_node_arena c1)"
    by (simp_all add: upd_node_def set_state_def)
  ultimately show ?thesis
    using assms fin_node_step [OF _ step] closed_same [OF _ step] shape_step_trans [OF _ step]
    by (auto simp: building_def dest!: set_resize)
qed

lemma repeat_shaped:
  assumes "closed X c"
  shows "gives (repeat_parse_impl fuel (run e) skip min_rep max_rep c) (shaped X c)"
  unfolding repeat_parse_impl_def
proof (rule scope_shaped [OF assms])
  let ?c = "init_cut c"
  have c: "closed X ?c"
    by (rule closed_same [OF assms shape_step_same empty_subsetI]) (simp_all add: init_cut_def)
  obtain n c1 where start: "start_node ?c = (n, c1)" by (cases "start_node ?c")
  show "gives (repeat_body fuel (run e) skip min_rep max_rep ?c) (shaped X ?c)"
    unfolding repeat_body_def Let_def start prod.case
  proof (rule gives_bindI [OF rep_loop_shaped [OF building_start [OF c start]]])
    fix x :: "nat \<times> nat \<times> bool" and c2 assume b: "building X ?c n c2"
    obtain count last failed where x: "x = (count, last, failed)" by (cases x)
    have ended: "shaped X ?c (ok_result (Some n)) c3 \<and> moved X ?c c3" if "building X ?c n c3" for c3
      using building_done [OF that closed_open [OF c]] by blast
    have ok: "shaped X ?c (ok_result (Some n)) (upd_node n (\<lambda>nd. nd\<lparr>end_offset := p\<rparr>) c3)" if "building X ?c n c3" for c3 p
      by (rule shaped_upd) (use ended [OF that] in simp_all)
    have "shaped X ?c null_result (set_state p c2)" for p
      by (rule moved_null [OF moved_same]) (use ended [OF b] in \<open>simp_all add: set_state_def null_result_def\<close>)
    then show "gives (rep_finish min_rep max_rep n (m_position ?c) x c2) (shaped X ?c)"
      unfolding x rep_finish_def prod.case Let_def
      using ok [OF b] ok [OF building_resize [OF b]] by auto
  qed
qed

lemma predicate_shaped: "closed X c \<Longrightarrow> gives (predicate_parse_impl (run e) b c) (shaped X c)"
  unfolding predicate_parse_impl_def Let_def
proof (rule gives_bindI [OF run_shaped], assumption)
  fix r c1 assume r: "shaped X c r c1"
  have "moved X c (set_state p c1)" for p
    by (rule moved_same [OF shaped_moved [OF r]]) (simp_all add: set_state_def)
  then show "gives (Ret \<lparr>success = if b then \<not> success r else success r, tree = None\<rparr> (set_state (m_position c) c1)) (shaped X c)"
    by (simp add: moved_null)
qed

lemma lexeme_shaped:
  assumes "closed X c"
  shows "gives (lexeme_parse (run e) c) (shaped X c)"
proof -
  have m: "moved X c (set_skip_enabled False c)"
    by (rule moved_same [OF moved_refl [OF assms]]) (simp_all add: set_skip_enabled_def)
  show ?thesis
    unfolding lexeme_parse_def Let_def
    by (rule gives_guard, rule gives_mono [OF run_shaped [OF moved_closed [OF m]]])
       (auto intro!: shaped_same [OF shaped_after [OF m]] simp: set_skip_enabled_def)
qed

end

subsection \<open>Rules\<close>

text \<open>The steps that touch neither arena nor memo.\<close>

lemma frame_steps [simp]:
  "m_node_arena (set_frame_last_pos p c) = m_node_arena c" "m_mem (set_frame_last_pos p c) = m_mem c"
  "m_node_arena (lr_push f c) = m_node_arena c" "m_mem (lr_push f c) = m_mem c"
  "m_node_arena (clear_growing_head p c) = m_node_arena c" "m_mem (clear_growing_head p c) = m_mem c"
  "m_node_arena (mark_head q p c) = m_node_arena c" "m_mem (mark_head q p c) = m_mem c"
  "m_node_arena (record_rule_failure nt p c) = m_node_arena c" "m_mem (record_rule_failure nt p c) = m_mem c"
  "m_node_arena (record_diagnostic d c) = m_node_arena c" "m_mem (record_diagnostic d c) = m_mem c"
  by (auto simp: set_frame_last_pos_def lr_push_def clear_growing_head_def mark_head_def set_growing_head_def
      record_rule_failure_def record_failure_def record_diagnostic_def Let_def split: list.split prod.split)

lemma lr_pop_steps: "lr_pop d c = Some (f, c1) \<Longrightarrow> m_node_arena c1 = m_node_arena c \<and> m_mem c1 = m_mem c"
  by (auto simp: lr_pop_def split: list.splits if_splits)

lemma reset_gives: "gives (reset p c) (\<lambda>_ c1. m_node_arena c1 = m_node_arena c \<and> m_mem c1 = m_mem c)"
  by (simp add: reset_def)

lemma update_arena [simp]: "m_node_arena (snd (update_rule_state r p st c)) = m_node_arena c"
  by (simp add: update_rule_state_def split: option.split)

lemma moved_update:
  assumes "moved X c c1" and "fin_ref c1 X (tree (m_cached_result st))"
  shows "moved X c (snd (update_rule_state r p st c1))"
  using assms closed_update [OF moved_closed [OF assms(1)] assms(2)]
    shape_step_trans [OF _ shape_step_same [OF update_arena]]
  by (auto simp: moved_def)

lemma planted_step:
  assumes "moved X c c1" and "fin_ref c1 X (tree r)" and "tree (m_cached_result st) = tree r"
  shows "moved X c (snd (update_rule_state rule p st c1)) \<and> fin_ref (snd (update_rule_state rule p st c1)) X (tree r)"
  using moved_update [of X c c1 st rule p] fin_ref_arena [OF assms(2) update_arena] assms by simp

lemma moved_clear_siblings:
  assumes "moved X c c1"
  shows "moved X c (clear_siblings_at p keep c1)"
proof -
  have arena: "m_node_arena (clear_siblings_at p keep c1) = m_node_arena c1"
    by (simp add: clear_siblings_at_def split: option.split)
  have "closed X (clear_siblings_at p keep c1)"
    by (rule closed_step [OF moved_closed [OF assms] shape_step_same [OF arena] empty_subsetI])
       (simp add: memo_lookup_clear_siblings split: if_splits)
  then show ?thesis
    using assms shape_step_trans [OF _ shape_step_same [OF arena]] by (auto simp: moved_def)
qed

lemma moved_rule_state:
  assumes "closed X c"
  shows "moved X c (snd (rule_state rule p c))"
proof -
  have arena: "m_node_arena (snd (rule_state rule p c)) = m_node_arena c"
    by (simp add: rule_state_def Let_def split: option.split)
  have "closed X (snd (rule_state rule p c))"
    by (rule closed_step [OF assms shape_step_same [OF arena] empty_subsetI])
       (auto simp: memo_lookup_rule_state default_rule_state_def null_result_def split: if_splits)
  then show ?thesis
    using shape_step_same [OF arena] by (simp add: moved_def)
qed

lemma return_cached_shaped:
  assumes "moved X c c1" and "fin_ref c1 X (tree (m_cached_result st))"
  shows "gives (return_cached st c1) (shaped X c)"
  unfolding return_cached_def
  by (rule gives_bindI [OF reset_gives])
     (use assms in \<open>auto simp: shaped_def intro: moved_same fin_ref_arena\<close>)

lemma reenter_shaped:
  assumes "moved X c c1" and "memo_lookup rule p c1 = Some st"
  shows "gives (reenter rule p st c1) (shaped X c)"
proof -
  have m: "moved X c (mark_head rule p c1)" by (rule moved_same [OF assms(1)]) simp_all
  have entry: "fin_ref c2 X (tree (m_cached_result (memo_get r p c2)))" if "closed X c2" for r c2
    using closed_entry [OF that, of r p] by (simp add: memo_get_lookup default_rule_state_def null_result_def split: option.split)
  note cl = moved_closed [OF m] moved_closed [OF assms(1)]
  have "gives (return_cached (memo_get rule p (mark_head rule p c1)) (mark_head rule p c1)) (shaped X c)"
    "gives (return_cached (memo_get rule p c1) c1) (shaped X c)" "gives (return_cached st c1) (shaped X c)"
    using return_cached_shaped [OF m entry [OF cl(1)]] return_cached_shaped [OF assms(1) entry [OF cl(2)]]
      return_cached_shaped [OF assms(1) closed_entry [OF cl(2) assms(2)]] by simp_all
  then show ?thesis
    by (auto simp: reenter_def Let_def split: option.split)
qed

lemma rule_failed_shaped:
  assumes "moved X c c1"
  shows "gives (rule_failed nt rule p st c1) (shaped X c)"
proof -
  have fail: "moved X c (snd (update_rule_state rule p (st\<lparr>m_cached_result := null_result\<rparr>) (record_rule_failure nt p c1)))"
    by (rule moved_update [OF moved_same [OF assms]]) (simp_all add: null_result_def)
  have recover: "moved X c (snd (update_rule_state rule p \<lparr>m_last_pos = q, m_cached_result = ok_result None\<rparr> (record_diagnostic d c2)))"
    if "m_node_arena c2 = m_node_arena c1 \<and> m_mem c2 = m_mem c1" for q d and c2 :: "'a ctx"
    by (rule moved_update [OF moved_same [OF assms]]) (use that in \<open>simp_all add: ok_result_def\<close>)
  show ?thesis
    using fail recover
    by (auto simp: rule_failed_def Let_def reset_def moved_null null_result_def ok_result_def split: option.split)
qed

lemma rule_matched_shaped:
  assumes "moved X c c1" and "fin_ref c1 X (tree inner)"
  shows "gives (rule_matched nt rule p st inner c1) (shaped X c)"
proof -
  obtain n c2 where b: "build_rule_node nt rule p (tree inner) c1 = (n, c2)"
    by (cases "build_rule_node nt rule p (tree inner) c1")
  have "shaped X c (ok_result (Some n)) c2"
  proof (cases "m_typed_fold nt = None")
    case False
    then obtain c3 f where c3: "make_node c1 = (n, c3)" "c2 = push_child n (tree inner) (upd_node n f c3)"
        "\<And>nd. nd_children (f nd) = nd_children nd"
      using b by (auto simp: build_rule_node_def Let_def split: prod.splits)
    have "building X c1 n c3" by (rule building_new [OF moved_closed [OF assms(1)] c3(1)])
    then have bu: "building X c1 n (upd_node n f c3)"
      using moved_upd [OF moved_refl [OF building_closed]] c3(3) building_moved by blast
    have "fin_ref c1 (insert n X) (tree inner)"
      using assms(2) bu by (auto simp: fin_ref_def building_def intro: fin_node_anti)
    moreover have "shape_step {n} c1 (upd_node n f c3)"
      using bu unfolding building_def by blast
    ultimately have "fin_ref (upd_node n f c3) (insert n X) (tree inner)"
      by (rule fin_ref_step) simp
    then have "building X c1 n c2"
      unfolding c3(2) by (rule building_child [OF bu])
    then show ?thesis
      using building_done(1) closed_open [OF moved_closed [OF assms(1)]] shaped_after [OF assms(1)] by blast
  next
    case True
    show ?thesis
    proof (cases "tree inner")
      case None
      then obtain c3 f where c3: "make_node c1 = (n, c3)" "c2 = upd_node n f c3"
          "\<And>nd. nd_children (f nd) = nd_children nd"
        using b True by (auto simp: build_rule_node_def Let_def split: prod.splits)
      have "building X c1 n c3" by (rule building_new [OF moved_closed [OF assms(1)] c3(1)])
      then have "shaped X c1 (ok_result (Some n)) c3"
        using building_done(1) closed_open [OF moved_closed [OF assms(1)]] by blast
      then show ?thesis
        unfolding c3(2) by (rule shaped_upd [OF shaped_after [OF assms(1)] c3(3)])
    next
      case (Some t)
      then obtain f where f: "n = t" "c2 = upd_node t f c1" "\<And>nd. nd_children (f nd) = nd_children nd"
        using b True by (auto simp: build_rule_node_def Let_def)
      have "shaped X c (ok_result (Some n)) c1"
        using assms Some f(1) by (simp add: shaped_def ok_result_def)
      then show ?thesis
        unfolding f(2) by (rule shaped_upd) (rule f(3))
    qed
  qed
  then have "shaped X c (ok_result (Some n)) (snd (update_rule_state rule p (st\<lparr>m_cached_result := ok_result (Some n)\<rparr>) c2))"
    unfolding shaped_def by (intro planted_step) (auto simp: ok_result_def)
  then show ?thesis
    by (simp add: rule_matched_def b Let_def)
qed

context shaped_parsers
begin

lemma grow_loop_shaped:
  "moved X c c1 \<Longrightarrow> fin_ref c1 X (tree best) \<Longrightarrow>
   gives (grow_loop fuel (run e) rule p st best c1) (\<lambda>x c2. moved X c c2 \<and> fin_ref c2 X (tree (fst x)))"
proof (induction fuel arbitrary: st best c1)
  case (Suc fuel)
  show ?case
    unfolding grow_loop.simps
  proof (rule gives_bindI [OF reset_gives])
    fix u and c2 :: "'c ctx" assume "m_node_arena c2 = m_node_arena c1 \<and> m_mem c2 = m_mem c1"
    then have c2: "moved X c c2" "fin_ref c2 X (tree best)"
      using Suc.prems by (auto intro: moved_same fin_ref_arena)
    have body: "gives (run e (if b then clear_siblings_at p rule c2 else c2)) (shaped X c2)" for b
    proof (cases b)
      case True
      have m: "moved X c2 (clear_siblings_at p rule c2)"
        by (rule moved_clear_siblings [OF moved_refl [OF moved_closed [OF c2(1)]]])
      show ?thesis
        using True gives_mono [OF run_shaped [OF moved_closed [OF m], of e]] shaped_after [OF m] by simp
    qed (simp add: run_shaped [OF moved_closed [OF c2(1)]])
    have next_step: "gives (let end_pos = mark c3
           in if success result then
                if end_pos > fr_last_pos frame then
                  let c4 = set_frame_last_pos end_pos c3;
                      st' = \<lparr>m_last_pos = end_pos, m_cached_result = result\<rparr>;
                      (ok, c5) = update_rule_state rule p st' c4
                  in if \<not> ok then Ret (result, st') c5
                     else grow_loop fuel (run e) rule p st' result c5
                else
                  let best' = (if \<not> success best then result else best);
                      st' = \<lparr>m_last_pos = fr_last_pos frame, m_cached_result = best'\<rparr>
                  in Ret (best', st') (snd (update_rule_state rule p st' c3))
              else Ret (best, st) c3) (\<lambda>x c2. moved X c c2 \<and> fin_ref c2 X (tree (fst x)))"
      if r: "shaped X c2 result c3" for result c3 and frame :: lr_frame
    proof -
      have c3: "moved X c c3" "fin_ref c3 X (tree result)" "fin_ref c3 X (tree best)"
        using r moved_trans [OF c2(1)] fin_ref_step [OF c2(2), of "{}" c3] by (auto simp: shaped_def moved_def)
      have planted: "moved X c (snd (update_rule_state rule p st' (set_frame_last_pos q c3))) \<and>
          fin_ref (snd (update_rule_state rule p st' (set_frame_last_pos q c3))) X (tree result)"
        if "tree (m_cached_result st') = tree result" for st' q
        by (rule planted_step) (use that c3 in \<open>auto intro: moved_same fin_ref_arena\<close>)
      have best: "moved X c (snd (update_rule_state rule p st' c3)) \<and>
          fin_ref (snd (update_rule_state rule p st' c3)) X (tree b)"
        if "tree (m_cached_result st') = tree b" "b = result \<or> b = best" for st' b
        by (rule planted_step) (use that c3 in auto)
      show ?thesis
        using planted best c3 Suc.IH by (auto simp: Let_def split_beta)
    qed
    show "gives (with_frame (\<lambda>frame c1'.
       bind_o (run e (if fr_is_head frame \<and> success best then clear_siblings_at p rule c1' else c1'))
        (\<lambda>result c2.
         with_frame (\<lambda>frame c2'.
           let end_pos = mark c2'
           in if success result then
                if end_pos > fr_last_pos frame then
                  let c3 = set_frame_last_pos end_pos c2';
                      st' = \<lparr>m_last_pos = end_pos, m_cached_result = result\<rparr>;
                      (ok, c4) = update_rule_state rule p st' c3
                  in if \<not> ok then Ret (result, st') c4
                     else grow_loop fuel (run e) rule p st' result c4
                else
                  let best' = (if \<not> success best then result else best);
                      st' = \<lparr>m_last_pos = fr_last_pos frame, m_cached_result = best'\<rparr>
                  in Ret (best', st') (snd (update_rule_state rule p st' c2'))
              else Ret (best, st) c2') c2)) c2) (\<lambda>x c2. moved X c c2 \<and> fin_ref c2 X (tree (fst x)))"
      by (rule gives_frame, rule gives_bindI [OF body], rule gives_frame, rule next_step)
  qed
qed simp

lemma parse_impl_shaped:
  assumes "moved X c c1"
  shows "gives (parse_impl fuel (run e) rule p c1) (\<lambda>x c2. moved X c c2 \<and> fin_ref c2 X (tree (fst x)))"
proof -
  have start: "moved X c (snd (update_rule_state rule p \<lparr>m_last_pos = p, m_cached_result = null_result\<rparr> (set_frame_last_pos p c1)))"
    by (rule moved_update [OF moved_same [OF assms]]) (simp_all add: null_result_def)
  show ?thesis
    unfolding parse_impl_def Let_def
  proof (rule gives_bindI [OF grow_loop_shaped [OF start]])
    fix x :: "parse_result \<times> rule_state" and c2 :: "'c ctx" assume x: "moved X c c2 \<and> fin_ref c2 X (tree (fst x))"
    then show "gives ((case x of (best, st') \<Rightarrow> \<lambda>c3.
         with_frame (\<lambda>frame c4. bind_o (reset (fr_last_pos frame) c4) (\<lambda>_ c5. Ret (best, st') c5)) c3) c2)
        (\<lambda>x c2. moved X c c2 \<and> fin_ref c2 X (tree (fst x)))"
      by (cases x) (auto simp: with_frame_def reset_def intro: moved_same fin_ref_arena split: list.split)
  qed (simp add: null_result_def)
qed

lemma nonterminal_shaped:
  assumes "closed X c"
  shows "gives (nonterminal_parse fuel run G rule c) (shaped X c)"
proof (cases "lookup_rule G rule")
  case None
  then show ?thesis by (simp add: nonterminal_parse_def)
next
  case (Some nt)
  let ?p = "mark c"
  obtain fresh st c1 where rs: "rule_state rule ?p c = ((fresh, st), c1)"
    by (cases "rule_state rule ?p c") auto
  have c1: "moved X c c1"
    using moved_rule_state [OF assms, of rule ?p] rs by simp
  have old: "memo_lookup rule ?p c1 = Some st" if "\<not> fresh"
    using that rs rule_state_fst [of rule ?p c] memo_lookup_rule_state [of rule ?p rule ?p c]
    by (auto split: option.splits)
  have new: "gives (parse_fresh fuel run nt rule ?p c1) (shaped X c)"
  proof (cases "m_rule nt")
    case None
    then show ?thesis by (simp add: parse_fresh_def Let_def)
  next
    case (Some e)
    have push: "moved X c (lr_push f c1)" for f by (rule moved_same [OF c1]) simp_all
    show ?thesis
      unfolding parse_fresh_def Let_def Some option.case
    proof (rule gives_bindI [OF parse_impl_shaped [OF push]])
      fix x :: "parse_result \<times> rule_state" and c2 :: "'c ctx" assume x: "moved X c c2 \<and> fin_ref c2 X (tree (fst x))"
      obtain inner st' where [simp]: "x = (inner, st')" by (cases x)
      have "gives (if \<not> success inner
                   then rule_failed nt rule ?p st' (if fr_is_head f then clear_growing_head ?p c3 else c3)
                   else rule_matched nt rule ?p st' inner (if fr_is_head f then clear_growing_head ?p c3 else c3)) (shaped X c)"
        if pop: "lr_pop d c2 = Some (f, c3)" for d f c3
      proof -
        let ?c = "if fr_is_head f then clear_growing_head ?p c3 else c3"
        have same: "m_node_arena ?c = m_node_arena c2" "m_mem ?c = m_mem c2"
          using lr_pop_steps [OF pop] by simp_all
        have "moved X c c2" "fin_ref c2 X (tree inner)" using x by simp_all
        then have "moved X c ?c" "fin_ref ?c X (tree inner)"
          using moved_same [OF _ same] fin_ref_arena [OF _ same(1)] by blast+
        then show ?thesis
          by (cases "success inner")
             (simp_all only: if_False if_True not_True_eq_False not_False_eq_True rule_failed_shaped rule_matched_shaped)
      qed
      then show "gives ((case x of (inner, st) \<Rightarrow> \<lambda>c2.
               case lr_pop (length (m_lr_stack c1)) c2 of
                 None \<Rightarrow> Fault
               | Some (frame, c3) \<Rightarrow>
                   if \<not> success inner
                   then rule_failed nt rule ?p st (if fr_is_head frame then clear_growing_head ?p c3 else c3)
                   else rule_matched nt rule ?p st inner (if fr_is_head frame then clear_growing_head ?p c3 else c3)) c2)
          (shaped X c)"
        by (auto split: option.split)
    qed
  qed
  show ?thesis
    using Some rs new reenter_shaped [OF c1 old] by (simp add: nonterminal_parse_def Let_def)
qed

end

subsection \<open>The engine\<close>

lemma leaf_shaped:
  assumes "closed X c"
  shows "gives (terminal_parse ops v c) (shaped X c)" "gives (token_parse ops v c) (shaped X c)"
    "gives (terminal_seq_parse ops vs c) (shaped X c)" "gives (matcher_parse fn c) (shaped X c)"
    "gives (empty_parse c) (shaped X c)" "gives (cut_parse c) (shaped X c)"
proof -
  have quiet: "shaped X c r c'" if "m_node_arena c' = m_node_arena c" "m_mem c' = m_mem c" "tree r = None" for r c'
    by (rule moved_null [OF moved_same [OF moved_refl [OF assms]]]) (use that in simp_all)
  have node: "shaped X c (ok_result (Some n)) (upd_node n f c2)"
    if c1: "m_node_arena c1 = m_node_arena c" "m_mem c1 = m_mem c" and n: "make_node c1 = (n, c2)"
      and f: "\<And>nd. nd_children (f nd) = nd_children nd" for n f c1 c2
  proof -
    have m: "moved X c c1" by (rule moved_same [OF moved_refl [OF assms] c1])
    have "building X c1 n c2" by (rule building_new [OF moved_closed [OF m] n])
    then have "shaped X c1 (ok_result (Some n)) c2"
      using building_done(1) closed_open [OF moved_closed [OF m]] by blast
    then show ?thesis by (rule shaped_upd [OF shaped_after [OF m] f])
  qed
  note steps = next_pos_def record_terminal_expected_def record_failure_lazy_def set_state_def
  show "gives (terminal_parse ops v c) (shaped X c)"
    by (auto simp: terminal_parse_def null_result_def ok_result_def steps intro!: quiet split: option.split bool.split)
  have "m_node_arena (next_pos c) = m_node_arena c" "m_mem (next_pos c) = m_mem c" by (simp_all add: next_pos_def)
  then have "gives (let (node, c1) = make_node (next_pos c)
          in Ret (ok_result (Some node))
               (upd_node node (\<lambda>n. n\<lparr>start_offset := mark c1 - 1, end_offset := mark c1\<rparr>) c1)) (shaped X c)"
    using node by (auto split: prod.split)
  moreover have "shaped X c null_result (record_terminal_expected ops v ''<token>'' c)"
    by (rule quiet) (simp_all add: steps null_result_def)
  ultimately show "gives (token_parse ops v c) (shaped X c)"
    by (auto simp: token_parse_def split: option.split bool.split)
  have "gives (terminal_seq_loop ops all i vs c1) (shaped X c)"
    if "m_node_arena c1 = m_node_arena c" "m_mem c1 = m_mem c" for all i c1
    using that
  proof (induction vs arbitrary: c1)
    case (Cons v vs)
    then show ?case
      by (auto simp: null_result_def steps Let_def intro!: quiet Cons.IH split: option.split bool.split)
  qed (simp add: quiet ok_result_def)
  then show "gives (terminal_seq_parse ops vs c) (shaped X c)" by (simp add: terminal_seq_parse_def)
  show "gives (matcher_parse fn c) (shaped X c)"
  proof (cases "fn (m_input c) (Span (mark c) (mark c))")
    case None
    then show ?thesis by (simp add: matcher_parse_def Let_def quiet null_result_def)
  next
    case (Some sp)
    then show ?thesis
      using node [of "c\<lparr>m_position := sp_end sp\<rparr>"]
      by (auto simp: matcher_parse_def Let_def reset_def split: prod.split)
  qed
  show "gives (empty_parse c) (shaped X c)" "gives (cut_parse c) (shaped X c)"
    by (auto simp: empty_parse_def cut_parse_def ok_result_def set_cut_def intro!: quiet split: list.split)
qed

lemma run_skipper_shaped:
  assumes "\<And>r c. closed X c \<Longrightarrow> gives (parse_rule r c) (shaped X c)" and "closed X c"
  shows "gives (run_skipper parse_rule c) (\<lambda>_. moved X c)"
proof -
  have m: "moved X c (c\<lparr>m_skip_enabled := b\<rparr>)" for b
    by (rule moved_same [OF moved_refl [OF assms(2)]]) simp_all
  have "gives (bind_o (parse_rule s (c\<lparr>m_skip_enabled := False\<rparr>)) (\<lambda>_ c'. Ret () (c'\<lparr>m_skip_enabled := b\<rparr>)))
      (\<lambda>_. moved X c)" for s b
  proof (rule gives_bindI [OF assms(1) [OF moved_closed [OF m]]])
    fix r c' assume "shaped X (c\<lparr>m_skip_enabled := False\<rparr>) r c'"
    then have "moved X c c'" using shaped_moved [OF shaped_after [OF m]] by blast
    then show "gives (Ret () (c'\<lparr>m_skip_enabled := b\<rparr>)) (\<lambda>_. moved X c)"
      by (simp add: moved_same)
  qed
  then show ?thesis
    by (auto simp: run_skipper_def Let_def moved_refl [OF assms(2)] split: option.split)
qed

lemma engine_shaped: "closed X c \<Longrightarrow> gives (parse n G e c) (shaped X c)"
proof (induction n arbitrary: X e c)
  case (Suc n)
  have kids: "shaped_parsers (parse n G) (run_skipper (\<lambda>r. parse n G (RuleExpr r)))"
    by unfold_locales (auto intro: Suc.IH run_skipper_shaped)
  note comp = shaped_parsers.sequence_shaped [OF kids Suc.prems] shaped_parsers.alternation_shaped [OF kids Suc.prems]
    shaped_parsers.repeat_shaped [OF kids Suc.prems] shaped_parsers.predicate_shaped [OF kids Suc.prems]
    shaped_parsers.lexeme_shaped [OF kids Suc.prems] shaped_parsers.nonterminal_shaped [OF kids Suc.prems]
  show ?case
    by (cases e) (simp_all add: Let_def comp leaf_shaped [OF Suc.prems])
qed simp

interpretation shapes: shaped_parsers "parse n G" "run_skipper (\<lambda>r. parse n G (RuleExpr r))" for n G
  by unfold_locales (auto intro: engine_shaped run_skipper_shaped)

subsection \<open>Parses from the start\<close>

text \<open>\<open>(s, t)\<close>: the node \<open>s\<close> is a child of the node \<open>t\<close>.\<close>

definition child_rel :: "'c ctx \<Rightarrow> (nat \<times> nat) set" where
  "child_rel c = {(s, t). t < length (m_node_arena c) \<and> Some s \<in> set (nd_children (node_at t c))}"

lemma fin_node_child: "fin_node c X t \<Longrightarrow> (s, t) \<in> child_rel c \<Longrightarrow> fin_node c X s"
  by (auto simp: child_rel_def elim: fin_node.cases)

lemma fin_node_below: "(s, t) \<in> (child_rel c)\<^sup>* \<Longrightarrow> fin_node c X t \<Longrightarrow> fin_node c X s"
  by (induction rule: converse_rtrancl_induct) (auto dest: fin_node_child)

lemma fin_node_acyclic: "fin_node c X t \<Longrightarrow> (t, t) \<notin> (child_rel c)\<^sup>+"
proof (induction rule: fin_node.induct)
  case (fin_nodeI t)
  show ?case
  proof
    assume "(t, t) \<in> (child_rel c)\<^sup>+"
    then obtain s where s: "(t, s) \<in> (child_rel c)\<^sup>*" "(s, t) \<in> child_rel c"
      by (auto elim: tranclE intro: trancl_into_rtrancl)
    then have "(s, s) \<in> (child_rel c)\<^sup>+" by simp
    moreover have "Some s \<in> set (nd_children (node_at t c))"
      using s(2) by (simp add: child_rel_def)
    ultimately show False using fin_nodeI.IH by blast
  qed
qed

lemma fin_node_insert:
  "fin_node c X s \<Longrightarrow> (t, s) \<notin> (child_rel c)\<^sup>* \<Longrightarrow> fin_node c (insert t X) s"
proof (induction rule: fin_node.induct)
  case (fin_nodeI s)
  have "fin_node c (insert t X) u" if "Some u \<in> set (nd_children (node_at s c))" for u
  proof -
    have "(u, s) \<in> child_rel c" using that fin_nodeI.hyps by (simp add: child_rel_def)
    then show ?thesis
      using fin_nodeI.IH [OF that] fin_nodeI.prems by (meson rtrancl.rtrancl_into_rtrancl)
  qed
  moreover have "s \<noteq> t" using fin_nodeI.prems by auto
  ultimately show ?case using fin_nodeI.hyps by (auto intro: fin_node.fin_nodeI)
qed

text \<open>A node is not below its own children, so they avoid it.\<close>

lemma fin_node_children:
  assumes "fin_node c X t" and "Some s \<in> set (nd_children (node_at t c))"
  shows "fin_node c (insert t X) s" "t \<notin> X" "t < length (m_node_arena c)" "(s, t) \<in> child_rel c"
proof -
  show t: "t \<notin> X" "t < length (m_node_arena c)"
    using assms(1) by (auto elim: fin_node.cases)
  then show child: "(s, t) \<in> child_rel c" using assms(2) by (simp add: child_rel_def)
  have "(t, s) \<notin> (child_rel c)\<^sup>*"
    using fin_node_acyclic [OF assms(1)] child by (meson rtrancl_into_trancl1)
  then show "fin_node c (insert t X) s"
    using fin_node_insert fin_node_child [OF assms(1) child] by blast
qed

lemma start_closed: "closed {} (start_ctx s input)"
  by (simp add: closed_def memo_lookup_def)

lemma parse_fin_node:
  assumes "parse n G e (start_ctx s input) = Ret r c" and "tree r = Some t"
  shows "fin_node c {} t"
  using engine_shaped [OF start_closed [of s input], where n = n and G = G and e = e] assms
  by (simp add: gives_def shaped_def)

text \<open>
  C13: the tree of a parse is a finite tree inside the arena: every node below its root is a
  node of the arena, and no node is below itself, although nodes are shared and a
  left-recursive rule hands out the tree of an earlier iteration while the next one is
  being built. It holds whenever the parse of an expression from the start of an input
  returns, for every grammar, left recursion, cuts, recovery and skipper included.
\<close>

theorem parse_tree_finite:
  assumes "parse n G e (start_ctx s input) = Ret r c" and "tree r = Some t"
    and "(i, t) \<in> (child_rel c)\<^sup>*"
  shows "i < length (m_node_arena c) \<and> (i, i) \<notin> (child_rel c)\<^sup>+"
proof -
  have "fin_node c {} i" by (rule fin_node_below [OF assms(3) parse_fin_node [OF assms(1,2)]])
  then show ?thesis using fin_node_acyclic by (auto elim: fin_node.cases)
qed

subsection \<open>The walk that fires the hooks\<close>

text \<open>The calls made for a node itself, and those made below it.\<close>

definition own_hooks :: "('c, 'v) grammar \<Rightarrow> 'c ctx \<Rightarrow> rule_ref option \<Rightarrow> nat \<Rightarrow> (rule_ref \<times> nat) set" where
  "own_hooks G c start t =
     {(q, t) |q. has_hook G (Some q) \<and> (if has_hook G start then start = Some q else producer (node_at t c) = Some q)}"

definition below_hooks :: "('c, 'v) grammar \<Rightarrow> 'c ctx \<Rightarrow> nat \<Rightarrow> (rule_ref \<times> nat) set" where
  "below_hooks G c t = (\<Union>i \<in> {i. (i, t) \<in> (child_rel c)\<^sup>+}. own_hooks G c None i)"

lemma has_hook_None [simp]: "\<not> has_hook G None"
  by (simp add: has_hook_def)

lemma own_hooks_list:
  "own_hooks G c start t = set (if has_hook G start then [(the start, t)]
     else if has_hook G (producer (node_at t c)) then [(the (producer (node_at t c)), t)] else [])"
  by (cases start; cases "producer (node_at t c)") (auto simp: own_hooks_def)

lemma below_hooks_children:
  assumes "t < length (m_node_arena c)"
  shows "below_hooks G c t = (\<Union>s \<in> {s. Some s \<in> set (nd_children (node_at t c))}. own_hooks G c None s \<union> below_hooks G c s)"
proof -
  have eq: "(i, t) \<in> (child_rel c)\<^sup>+ \<longleftrightarrow>
      (\<exists>s. Some s \<in> set (nd_children (node_at t c)) \<and> (i = s \<or> (i, s) \<in> (child_rel c)\<^sup>+))" for i
  proof -
    have "(i, t) \<in> (child_rel c)\<^sup>+ \<longleftrightarrow> (\<exists>s. (i, s) \<in> (child_rel c)\<^sup>* \<and> (s, t) \<in> child_rel c)"
      by (meson rtrancl_into_trancl1 tranclD2)
    moreover have "(s, t) \<in> child_rel c \<longleftrightarrow> Some s \<in> set (nd_children (node_at t c))" for s
      using assms by (simp add: child_rel_def)
    ultimately show ?thesis by (metis rtrancl_eq_or_trancl)
  qed
  have "{i. (i, t) \<in> (child_rel c)\<^sup>+} =
      (\<Union>s \<in> {s. Some s \<in> set (nd_children (node_at t c))}. insert s {i. (i, s) \<in> (child_rel c)\<^sup>+})"
    unfolding eq by (rule set_eqI) simp
  then show ?thesis by (simp only: below_hooks_def UN_UN_flatten UN_insert)
qed

lemma fire_children_all:
  "(\<And>child. child \<in> set cs \<Longrightarrow> \<exists>hs. f child = Ret hs 0 \<and> set hs = H child) \<Longrightarrow>
   \<exists>hs. fire_children f cs = Ret hs 0 \<and> set hs = \<Union> (H ` set cs)"
proof (induction cs)
  case (Cons child cs)
  obtain hs where "f child = Ret hs 0" "set hs = H child" using Cons.prems by auto
  moreover obtain hs' where "fire_children f cs = Ret hs' 0" "set hs' = \<Union> (H ` set cs)"
    using Cons by auto
  ultimately show ?case by simp
qed simp

lemma fire_on_match_finite:
  "fin_node c X t \<Longrightarrow> card ({..<length (m_node_arena c)} - X) < m \<Longrightarrow>
   \<exists>hooks. fire_on_match m G c (Some t) start = Ret hooks 0 \<and> set hooks = own_hooks G c start t \<union> below_hooks G c t"
proof (induction m arbitrary: X t start)
  case (Suc m)
  let ?A = "{..<length (m_node_arena c)}"
  let ?H = "\<lambda>child. case child of None \<Rightarrow> {} | Some s \<Rightarrow> own_hooks G c None s \<union> below_hooks G c s"
  have t: "t \<notin> X" "t < length (m_node_arena c)"
    using Suc.prems(1) by (auto elim: fin_node.cases)
  have less: "card (?A - insert t X) < m"
    using psubset_card_mono [of "?A - X" "?A - insert t X"] t Suc.prems(2) by fastforce
  have kids: "\<exists>hs. fire_on_match m G c child None = Ret hs 0 \<and> set hs = ?H child"
    if "child \<in> set (nd_children (node_at t c))" for child
  proof (cases child)
    case None
    then show ?thesis using less by (cases m) simp_all
  next
    case (Some s)
    then show ?thesis
      using Suc.IH [OF fin_node_children(1) [OF Suc.prems(1)] less] that by simp
  qed
  obtain hs where hs: "fire_children (\<lambda>child. fire_on_match m G c child None) (nd_children (node_at t c)) = Ret hs 0"
      "set hs = \<Union> (?H ` set (nd_children (node_at t c)))"
    using fire_children_all [of "nd_children (node_at t c)" "\<lambda>child. fire_on_match m G c child None" ?H] kids by blast
  have "set hs = below_hooks G c t"
    unfolding hs(2) below_hooks_children [OF t(2)] by (force split: option.splits)
  moreover have "deref c (Some t) = Some (node_at t c)"
    using t(2) by (simp add: deref_def node_at_def)
  ultimately show ?case
    using hs(1) by (simp add: own_hooks_list Let_def)
qed simp

text \<open>
  C14: the walk that fires the \<open>on_match\<close> hooks of a tree ends, once the fuel exceeds the
  number of nodes, and it fires what it should: at the root the hook of the start rule, if
  it has one, and at every other node, or at the root otherwise, the hook of the rule that
  produced the node, if it has one; no other. It holds of the tree of every parse that
  returns from the start of an input, whatever the grammar.
\<close>

theorem hook_walk_correct:
  assumes "parse n G e (start_ctx s input) = Ret r c" and "tree r = Some t"
    and "length (m_node_arena c) < m"
  shows "\<exists>hooks. fire_on_match m G c (Some t) start = Ret hooks 0 \<and>
    (\<forall>q i. (q, i) \<in> set hooks \<longleftrightarrow> has_hook G (Some q) \<and>
       (if i = t \<and> has_hook G start then start = Some q
        else (i, t) \<in> (child_rel c)\<^sup>* \<and> producer (node_at i c) = Some q))"
proof -
  have t: "fin_node c {} t" by (rule parse_fin_node [OF assms(1,2)])
  obtain hooks where hooks: "fire_on_match m G c (Some t) start = Ret hooks 0"
      "set hooks = own_hooks G c start t \<union> below_hooks G c t"
    using fire_on_match_finite [OF t, of m G start] assms(3) by auto
  have "(q, i) \<in> below_hooks G c t \<longleftrightarrow>
      has_hook G (Some q) \<and> (i, t) \<in> (child_rel c)\<^sup>+ \<and> producer (node_at i c) = Some q" for q i
    by (auto simp: below_hooks_def own_hooks_def)
  then show ?thesis
    using hooks fin_node_acyclic [OF t] by (auto simp: own_hooks_def rtrancl_eq_or_trancl)
qed

text \<open>\<open>S = S 4 | D\<close> and \<open>D = 1\<close>, both with a hook, on \<open>1 4 4\<close>.\<close>

definition hooked_grammar :: "(nat, nat) grammar" where
  "hooked_grammar = \<lparr>m_rules =
     [(''S'', new_non_terminal\<lparr>m_rule := Some (AlternationExpr
         [SequenceExpr [RuleExpr ''S'', TerminalExpr (TValue 4)], RuleExpr ''D'']), m_name := ''S'', m_on_match := True\<rparr>),
      (''D'', new_non_terminal\<lparr>m_rule := Some (TokenExpr (TValue 1)), m_name := ''D'', m_on_match := True\<rparr>)],
     m_start = ''S'', g_skipper = None, g_ops = token_ops None (\<le>)\<rparr>"

lemma hooked_run:
  "case parse 9 hooked_grammar (RuleExpr ''S'') (start_ctx None [1, 4, 4]) of
     Ret r c \<Rightarrow> tree r = Some 4 \<and> length (m_node_arena c) = 8 \<and>
       map nd_children (m_node_arena c) = [[], [], [], [Some 1], [Some 3], [Some 4], [], []] \<and>
       map producer (m_node_arena c) = [None, Some ''D'', None, None, Some ''S'', None, Some ''D'', None]
   | _ \<Rightarrow> False"
  by code_simp

lemma hooked_parse:
  obtains r c where "parse 9 hooked_grammar (RuleExpr ''S'') (start_ctx None [1, 4, 4]) = Ret r c"
    "tree r = Some 4" "length (m_node_arena c) = 8" "(1, 4) \<in> (child_rel c)\<^sup>*" "producer (node_at 1 c) = Some ''D''"
proof -
  obtain r c where run: "parse 9 hooked_grammar (RuleExpr ''S'') (start_ctx None [1, 4, 4]) = Ret r c"
      "tree r = Some 4" "length (m_node_arena c) = 8"
      "map nd_children (m_node_arena c) = [[], [], [], [Some 1], [Some 3], [Some 4], [], []]"
      "map producer (m_node_arena c) = [None, Some ''D'', None, None, Some ''S'', None, Some ''D'', None]"
    using hooked_run by (simp split: outcome.splits)
  have "map nd_children (m_node_arena c) ! 3 = [Some 1]" "map nd_children (m_node_arena c) ! 4 = [Some 3]"
    "map producer (m_node_arena c) ! 1 = Some ''D''"
    by (simp_all add: run(4,5))
  then have "(1, 3) \<in> child_rel c" "(3, 4) \<in> child_rel c" "producer (node_at 1 c) = Some ''D''"
    using run(3) by (simp_all add: child_rel_def node_at_def)
  with run show ?thesis using that by (meson converse_rtrancl_into_rtrancl rtrancl.rtrancl_refl)
qed

theorem parse_tree_finite_witness:
  "\<exists>r c. parse 9 hooked_grammar (RuleExpr ''S'') (start_ctx None [1, 4, 4]) = Ret r c \<and> tree r = Some 4 \<and>
     (1, 4) \<in> (child_rel c)\<^sup>* \<and> (1, 1) \<notin> (child_rel c)\<^sup>+"
proof (rule hooked_parse)
  fix r c assume c: "parse 9 hooked_grammar (RuleExpr ''S'') (start_ctx None [1, 4, 4]) = Ret r c"
    "tree r = Some 4" "(1, 4) \<in> (child_rel c)\<^sup>*"
  then show ?thesis using parse_tree_finite [OF c] by blast
qed

theorem hook_walk_correct_witness:
  "\<exists>r c hooks. parse 9 hooked_grammar (RuleExpr ''S'') (start_ctx None [1, 4, 4]) = Ret r c \<and>
     fire_on_match 9 hooked_grammar c (Some 4) (Some ''S'') = Ret hooks 0 \<and>
     (''S'', 4) \<in> set hooks \<and> (''D'', 1) \<in> set hooks"
proof (rule hooked_parse)
  fix r c assume c: "parse 9 hooked_grammar (RuleExpr ''S'') (start_ctx None [1, 4, 4]) = Ret r c"
    "tree r = Some 4" "length (m_node_arena c) = 8" "(1, 4) \<in> (child_rel c)\<^sup>*" "producer (node_at 1 c) = Some ''D''"
  have "length (m_node_arena c) < 9" by (simp add: c(3))
  note hook_walk_correct [OF c(1,2) this, of "Some ''S''"]
  moreover have "has_hook hooked_grammar (Some ''S'')" "has_hook hooked_grammar (Some ''D'')" by code_simp+
  ultimately show ?thesis using c by fastforce
qed

end
