(* ===== verification/Values.thy ===== *)
theory Values
  imports Typed_Fold
begin

text \<open>
  A reference semantics with values: the recogniser of \<open>Recogniser\<close>, which also computes the
  typed value of what it matched and runs the actions on the way, as a recursive-descent
  interpreter would. No tree, no memo, no cursor. A rule with an action has the value its
  action gives for the value of the body; a rule without one passes on the value of the
  rule its body consists of, if it does, and otherwise has the default value. Rules with
  recovery have no meaning here.
\<close>

subsection \<open>Shapes of expressions\<close>

text \<open>A match gives the node of a rule, or a node of its own.\<close>

fun rule_like :: "'c expr \<Rightarrow> bool" where
  "rule_like (RuleExpr r) = True"
| "rule_like (LexemeExpr e) = rule_like e"
| "rule_like _ = False"

fun raw_maker :: "'c expr \<Rightarrow> bool" where
  "raw_maker (TokenExpr v) = True"
| "raw_maker (SequenceExpr es) = True"
| "raw_maker (ZeroOrMoreExpr e) = True"
| "raw_maker (OneOrMoreExpr e) = True"
| "raw_maker (NTimesExpr e n) = True"
| "raw_maker (OptionalExpr e) = True"
| "raw_maker (LexemeExpr e) = raw_maker e"
| "raw_maker _ = False"

text \<open>A match gives no node.\<close>

fun quiet_void :: "'c expr \<Rightarrow> bool" where
  "quiet_void (TerminalExpr v) = True"
| "quiet_void (TerminalSeqExpr vs) = True"
| "quiet_void EmptyExpr = True"
| "quiet_void CutExpr = True"
| "quiet_void (NotExpr e) = True"
| "quiet_void (AndExpr e) = True"
| "quiet_void (LexemeExpr e) = quiet_void e"
| "quiet_void (AlternationExpr es) = list_all quiet_void es"
| "quiet_void _ = False"

text \<open>
  The bodies the fold follows faithfully: in a sequence, a child without value leaves a
  node exactly when the fold expects one; the branches of a choice are all rules or all
  make their own node, so that a stamp tells the branches of one choice apart.
\<close>

fun foldable :: "'c expr \<Rightarrow> bool" where
  "foldable (LexemeExpr e) = foldable e"
| "foldable (AlternationExpr es) =
     (list_all foldable es \<and> (list_all rule_like es \<or> list_all raw_maker es))"
| "foldable (SequenceExpr es) =
     list_all (\<lambda>e. if is_void e then pushes_node e \<or> quiet_void e else foldable e) es"
| "foldable (ZeroOrMoreExpr e) = (is_void e \<or> foldable e)"
| "foldable (OneOrMoreExpr e) = (is_void e \<or> foldable e)"
| "foldable (NTimesExpr e n) = (is_void e \<or> foldable e)"
| "foldable (OptionalExpr e) = (is_void e \<or> foldable e)"
| "foldable _ = True"

definition typed_grammar :: "('c, 'v) grammar \<Rightarrow> bool" where
  "typed_grammar G \<longleftrightarrow>
     list_all (\<lambda>(r, nt). is_sync_token (m_recover nt) = None \<and>
       (case m_typed_fold nt of
          None \<Rightarrow> True
        | Some (e, f) \<Rightarrow> result_of e \<noteq> None \<and> foldable e)) (m_rules G) \<and>
     (\<forall>(r, nt) \<in> set (m_rules G). \<forall>e f. m_typed_fold nt = Some (e, f) \<longrightarrow> m_rule nt = Some e)"

lemma typed_grammarD:
  assumes "typed_grammar G" and "lookup_rule G r = Some nt"
  shows "is_sync_token (m_recover nt) = None"
    and "m_typed_fold nt = Some (e, f) \<Longrightarrow> m_rule nt = Some e \<and> foldable e \<and> result_of e \<noteq> None"
  using assms map_of_SomeD [of "m_rules G" r nt]
  by (auto simp: typed_grammar_def lookup_rule_def list_all_iff)

subsection \<open>The semantics\<close>

text \<open>The end of the match, the value, and whether the node of the match is a rule's.\<close>

type_synonym ('c, 'v) sem_result = "(nat \<times> ('c, 'v) tval \<times> bool) option option"

fun sem_seq ::
  "('c expr \<Rightarrow> nat \<Rightarrow> ('c, 'v) sem_result) \<Rightarrow> 'c expr list \<Rightarrow> nat \<Rightarrow> (nat \<times> ('c, 'v) tval list) option option" where
  "sem_seq run [] p = Some (Some (p, []))"
| "sem_seq run (e # es) p =
     (case run e p of
        None \<Rightarrow> None
      | Some None \<Rightarrow> Some None
      | Some (Some (q, v, own)) \<Rightarrow>
          map_option (map_option (\<lambda>(q', vs). (q', if is_void e then vs else v # vs))) (sem_seq run es q))"

fun sem_alt ::
  "('c expr \<Rightarrow> nat \<Rightarrow> ('c, 'v) sem_result) \<Rightarrow> 'c expr list \<Rightarrow> nat \<Rightarrow> ('c, 'v) sem_result" where
  "sem_alt run [] p = Some None"
| "sem_alt run (e # es) p =
     (case run e p of
        None \<Rightarrow> None
      | Some None \<Rightarrow> sem_alt run es p
      | Some (Some res) \<Rightarrow> Some (Some res))"

fun sem_loop ::
  "nat \<Rightarrow> (nat \<Rightarrow> ('c, 'v) sem_result) \<Rightarrow> int \<Rightarrow> nat \<Rightarrow> nat \<Rightarrow> (nat \<times> nat \<times> ('c, 'v) tval list) option" where
  "sem_loop 0 run max_rep k p = None"
| "sem_loop (Suc n) run max_rep k p =
     (case run p of
        None \<Rightarrow> None
      | Some None \<Rightarrow> Some (k, p, [])
      | Some (Some (q, v, own)) \<Rightarrow>
          if max_rep > 0 \<and> int (k + 1) \<ge> max_rep then Some (k + 1, q, [v])
          else if q = p then Some (k + 1, q, [v])
          else map_option (\<lambda>(k', q', vs). (k', q', v # vs)) (sem_loop n run max_rep (k + 1) q))"

definition sem_rep ::
  "nat \<Rightarrow> (nat \<Rightarrow> ('c, 'v) sem_result) \<Rightarrow> (('c, 'v) tval list \<Rightarrow> ('c, 'v) tval) \<Rightarrow> nat \<Rightarrow> int \<Rightarrow> nat
     \<Rightarrow> ('c, 'v) sem_result" where
  "sem_rep n run wrap min_rep max_rep p =
     map_option (\<lambda>(k, q, vs). if k < min_rep then None else Some (q, wrap vs, False))
       (sem_loop n run max_rep 0 p)"

definition vec_value :: "'c expr \<Rightarrow> ('c, 'v) tval list \<Rightarrow> ('c, 'v) tval" where
  "vec_value e vs = (if is_void e then VoidV else VecV vs)"

definition opt_value :: "'c expr \<Rightarrow> ('c, 'v) tval list \<Rightarrow> ('c, 'v) tval" where
  "opt_value e vs = (if is_void e then VoidV else OptV (case vs of [] \<Rightarrow> None | v # _ \<Rightarrow> Some v))"

text \<open>The value of a rule from that of its body.\<close>

definition rule_value ::
  "('c, 'v) non_terminal \<Rightarrow> 'v \<Rightarrow> 'c list \<Rightarrow> nat \<Rightarrow> nat \<Rightarrow> ('c, 'v) tval \<Rightarrow> bool \<Rightarrow> ('c, 'v) tval" where
  "rule_value nt dflt input p q v own =
     (case m_typed_fold nt of
        Some (e, f) \<Rightarrow> NodeV (f input (Span p q) (unpack (the (result_of e)) v))
      | None \<Rightarrow> if own then v else NodeV dflt)"

definition void_match :: "nat option \<Rightarrow> ('c, 'v) sem_result" where
  "void_match r = Some (map_option (\<lambda>q. (q, VoidV, False)) r)"

primrec sem :: "nat \<Rightarrow> ('c, 'v) grammar \<Rightarrow> 'v \<Rightarrow> 'c list \<Rightarrow> 'c expr \<Rightarrow> nat \<Rightarrow> ('c, 'v) sem_result" where
  "sem 0 G dflt input e p = None"
| "sem (Suc n) G dflt input e p =
     (case e of
        TerminalExpr v \<Rightarrow> void_match (ev_symbol (g_ops G) input v p)
      | TokenExpr v \<Rightarrow>
          Some (map_option (\<lambda>q. (q, ElemV (input ! p), False)) (ev_symbol (g_ops G) input v p))
      | TerminalSeqExpr vs \<Rightarrow>
          void_match (if take (length vs) (drop p input) = vs then Some (p + length vs) else None)
      | MatcherExpr fn \<Rightarrow> void_match (map_option sp_end (fn input (Span p p)))
      | EmptyExpr \<Rightarrow> void_match (Some p)
      | SequenceExpr es \<Rightarrow>
          map_option (map_option (\<lambda>(q, vs). (q, collapse_value vs, False))) (sem_seq (sem n G dflt input) es p)
      | AlternationExpr es \<Rightarrow> sem_alt (sem n G dflt input) es p
      | ZeroOrMoreExpr a \<Rightarrow> sem_rep n (sem n G dflt input a) (vec_value a) 0 (-1) p
      | OneOrMoreExpr a \<Rightarrow> sem_rep n (sem n G dflt input a) (vec_value a) 1 (-1) p
      | NTimesExpr a k \<Rightarrow> sem_rep n (sem n G dflt input a) (vec_value a) k (to_int64 k) p
      | OptionalExpr a \<Rightarrow> sem_rep n (sem n G dflt input a) (opt_value a) 0 1 p
      | NotExpr a \<Rightarrow>
          (case sem n G dflt input a p of
             None \<Rightarrow> None | Some r \<Rightarrow> void_match (if r = None then Some p else None))
      | AndExpr a \<Rightarrow>
          (case sem n G dflt input a p of
             None \<Rightarrow> None | Some r \<Rightarrow> void_match (if r = None then None else Some p))
      | CutExpr \<Rightarrow> None
      | LexemeExpr a \<Rightarrow> sem n G dflt input a p
      | RuleExpr r \<Rightarrow>
          (case lookup_rule G r of
             None \<Rightarrow> None
           | Some nt \<Rightarrow>
               (case m_rule nt of
                  None \<Rightarrow> None
                | Some body \<Rightarrow>
                    if is_sync_token (m_recover nt) \<noteq> None then None
                    else map_option (map_option (\<lambda>(q, v, own).
                           (q, rule_value nt dflt input p q v own, True))) (sem n G dflt input body p))))"

subsection \<open>What it recognises\<close>

definition ends :: "(nat \<times> 'a) option \<Rightarrow> nat option" where
  "ends r = map_option fst r"

lemma ends_simps [simp]: "ends None = None" "ends (Some x) = Some (fst x)"
  by (simp_all add: ends_def)

lemma ev_recover_none: "is_sync_token (m_recover nt) = None \<Longrightarrow> ev_recover nt input p res = res"
  by (simp add: ev_recover_def split: option.split)

lemma sem_seq_ev:
  assumes "\<And>e p r. run e p = Some r \<Longrightarrow> run' e p = Some (ends r)"
  shows "sem_seq run es p = Some r \<Longrightarrow> ev_seq run' es p = Some (ends r)"
proof (induction es arbitrary: p r)
  case (Cons e es)
  obtain re where re: "run e p = Some re" using Cons.prems by (cases "run e p") auto
  show ?case
  proof (cases re)
    case None
    then show ?thesis using Cons.prems re assms [OF re] by simp
  next
    case (Some x)
    obtain q v own where x: "x = (q, v, own)" by (cases x)
    obtain r' where "sem_seq run es q = Some r'"
      using Cons.prems re Some x by (cases "sem_seq run es q") auto
    then show ?thesis
      using Cons.prems re assms [OF re] Some x Cons.IH [of q r'] by (cases r') (auto simp: ends_def)
  qed
qed auto

lemma sem_alt_ev:
  assumes "\<And>e p r. run e p = Some r \<Longrightarrow> run' e p = Some (ends r)"
  shows "sem_alt run es p = Some r \<Longrightarrow> ev_alt run' es p = Some (ends r)"
proof (induction es)
  case (Cons e es)
  then obtain re where re: "run e p = Some re" by (cases "run e p") auto
  show ?case using Cons re assms [OF re] by (cases re) auto
qed simp

lemma sem_loop_ev:
  assumes "\<And>p r. run p = Some r \<Longrightarrow> run' p = Some (ends r)"
  shows "sem_loop n run max_rep k p = Some (k', q, vs) \<Longrightarrow> ev_loop n run' max_rep k p = Some (k', q)"
proof (induction n arbitrary: k p vs)
  case (Suc n)
  then obtain re where re: "run p = Some re" by (cases "run p") auto
  show ?case
  proof (cases re)
    case None
    then show ?thesis using Suc.prems re assms [OF re] by simp
  next
    case (Some x)
    obtain q1 v own where x: "x = (q1, v, own)" by (cases x)
    show ?thesis using Suc re assms [OF re] Some x by (auto split: if_splits)
  qed
qed simp

lemma sem_rep_ev:
  assumes "\<And>p r. run p = Some r \<Longrightarrow> run' p = Some (ends r)"
  shows "sem_rep n run wrap min_rep max_rep p = Some r \<Longrightarrow> ev_rep n run' min_rep max_rep p = Some (ends r)"
  using sem_loop_ev [OF assms] by (fastforce simp: sem_rep_def ev_rep_def)

lemma sem_ev: "sem n G dflt input e p = Some r \<Longrightarrow> ev n G input e p = Some (ends r)"
proof (induction n arbitrary: e p r)
  case (Suc n)
  note kid = Suc.IH
  show ?case
  proof (cases e)
    case (SequenceExpr es)
    then show ?thesis
      using Suc.prems sem_seq_ev [of "sem n G dflt input" "ev n G input", OF kid]
      by (auto simp: ends_def option.map_comp comp_def case_prod_beta)
  next
    case (AlternationExpr es)
    then show ?thesis
      using Suc.prems sem_alt_ev [of "sem n G dflt input" "ev n G input", OF kid] by auto
  next
    case (NotExpr a)
    then show ?thesis using Suc.prems kid [of a p] by (auto simp: void_match_def ends_def split: option.splits)
  next
    case (AndExpr a)
    then show ?thesis using Suc.prems kid [of a p] by (auto simp: void_match_def ends_def split: option.splits)
  next
    case (RuleExpr r')
    then show ?thesis
      using Suc.prems kid
      by (auto simp: ends_def ev_recover_none option.map_comp comp_def case_prod_beta
          split: option.splits if_splits)
  next
    case (LexemeExpr a)
    then show ?thesis using Suc.prems kid by simp
  qed (use Suc.prems sem_rep_ev [of "sem n G dflt input _" "ev n G input _", OF kid] in
      \<open>auto simp: void_match_def ends_def option.map_comp comp_def option.map_ident\<close>)
qed simp

subsection \<open>More fuel, same result\<close>

lemma sem_seq_le:
  assumes "\<And>e p. le_opt (run e p) (run' e p)"
  shows "le_opt (sem_seq run es p) (sem_seq run' es p)"
proof (induction es arbitrary: p)
  case (Cons e es)
  then show ?case
    using le_opt_cases [OF assms, of e p] by (auto intro!: le_opt_map split: option.split)
qed simp

lemma sem_alt_le:
  assumes "\<And>e p. le_opt (run e p) (run' e p)"
  shows "le_opt (sem_alt run es p) (sem_alt run' es p)"
proof (induction es)
  case (Cons e es)
  then show ?case
    using le_opt_cases [OF assms, of e p] by (auto split: option.split)
qed simp

lemma sem_loop_le:
  assumes "\<And>p. le_opt (run p) (run' p)"
  shows "n \<le> m \<Longrightarrow> le_opt (sem_loop n run max_rep k p) (sem_loop m run' max_rep k p)"
proof (induction n arbitrary: m k p)
  case (Suc n)
  then obtain m' where m: "m = Suc m'" "n \<le> m'" by (cases m) auto
  show ?case
    using le_opt_cases [OF assms, of p] Suc.IH [OF m(2)] m(1)
    by (auto intro!: le_opt_map split: option.split)
qed simp

lemma sem_rep_le:
  assumes "\<And>p. le_opt (run p) (run' p)" and "n \<le> m"
  shows "le_opt (sem_rep n run wrap min_rep max_rep p) (sem_rep m run' wrap min_rep max_rep p)"
  unfolding sem_rep_def by (rule le_opt_map [OF sem_loop_le [OF assms]])

lemma sem_le: "n \<le> m \<Longrightarrow> le_opt (sem n G dflt input e p) (sem m G dflt input e p)"
proof (induction n arbitrary: m e p)
  case (Suc n)
  then obtain m' where m: "m = Suc m'" "n \<le> m'" by (cases m) auto
  note kid = Suc.IH [OF m(2)]
  show ?case
  proof (cases e)
    case (RuleExpr r)
    then show ?thesis
      using kid by (auto simp: m intro!: le_opt_map split: option.split)
  next
    case (NotExpr a)
    then show ?thesis using kid [of a p] by (auto simp: m le_opt_def split: option.splits)
  next
    case (AndExpr a)
    then show ?thesis using kid [of a p] by (auto simp: m le_opt_def split: option.splits)
  next
    case (SequenceExpr es)
    then show ?thesis
      using sem_seq_le [of "sem n G dflt input" "sem m' G dflt input", OF kid] by (auto simp: m intro!: le_opt_map)
  qed (use kid m sem_alt_le [of "sem n G dflt input" "sem m' G dflt input", OF kid]
        sem_rep_le [of "sem n G dflt input _" "sem m' G dflt input _" n m', OF kid m(2)] in auto)
qed simp

lemma sem_more: "sem n G dflt input e p = Some r \<Longrightarrow> n \<le> m \<Longrightarrow> sem m G dflt input e p = Some r"
  by (rule le_opt_Some [OF sem_le])

lemma sem_det:
  assumes "sem n G dflt input e p = Some r" and "sem m G dflt input e p = Some r'"
  shows "r = r'"
  using sem_more [OF assms(1), of "max n m"] sem_more [OF assms(2), of "max n m"] by simp

subsection \<open>Less fuel\<close>

text \<open>The fuel the recogniser needs is enough for the value.\<close>

lemma sem_seq_less:
  assumes "\<And>e p r. ev_run e p \<noteq> None \<Longrightarrow> run' e p = Some r \<Longrightarrow> run e p = Some r"
    and "\<And>e p r. run' e p = Some r \<Longrightarrow> ev_run e p \<noteq> None \<Longrightarrow> ev_run e p = Some (ends r)"
  shows "ev_seq ev_run es p \<noteq> None \<Longrightarrow> sem_seq run' es p = Some r \<Longrightarrow> sem_seq run es p = Some r"
proof (induction es arbitrary: p r)
  case (Cons e es)
  obtain re where re: "run' e p = Some re" using Cons.prems(2) by (cases "run' e p") auto
  have ev: "ev_run e p \<noteq> None" using Cons.prems(1) by (cases "ev_run e p") simp_all
  have run: "run e p = Some re" "ev_run e p = Some (ends re)"
    using assms re ev by blast+
  show ?case
  proof (cases re)
    case None
    then show ?thesis using Cons.prems(2) re run by simp
  next
    case (Some x)
    obtain q v own where x: "x = (q, v, own)" by (cases x)
    obtain r' where r': "sem_seq run' es q = Some r'"
      using Cons.prems(2) re Some x by (cases "sem_seq run' es q") auto
    have "ev_seq ev_run es q \<noteq> None" using Cons.prems(1) run(2) Some x by simp
    then show ?thesis using Cons.IH [OF _ r'] Cons.prems(2) re run(1) Some x r' by simp
  qed
qed simp

lemma sem_alt_less:
  assumes "\<And>e p r. ev_run e p \<noteq> None \<Longrightarrow> run' e p = Some r \<Longrightarrow> run e p = Some r"
    and "\<And>e p r. run' e p = Some r \<Longrightarrow> ev_run e p \<noteq> None \<Longrightarrow> ev_run e p = Some (ends r)"
  shows "ev_alt ev_run es p \<noteq> None \<Longrightarrow> sem_alt run' es p = Some r \<Longrightarrow> sem_alt run es p = Some r"
proof (induction es)
  case (Cons e es)
  obtain re where re: "run' e p = Some re" using Cons.prems(2) by (cases "run' e p") auto
  have "ev_run e p \<noteq> None" using Cons.prems(1) by (cases "ev_run e p") simp_all
  then have run: "run e p = Some re" "ev_run e p = Some (ends re)"
    using assms re by blast+
  show ?case
    using Cons re run by (cases re) auto
qed simp

lemma sem_loop_less:
  assumes "\<And>p r. ev_run p \<noteq> None \<Longrightarrow> run' p = Some r \<Longrightarrow> run p = Some r"
    and "\<And>p r. run' p = Some r \<Longrightarrow> ev_run p \<noteq> None \<Longrightarrow> ev_run p = Some (ends r)" and "n \<le> m"
  shows "ev_loop n ev_run max_rep k p \<noteq> None \<Longrightarrow> sem_loop m run' max_rep k p = Some r \<Longrightarrow>
    sem_loop n run max_rep k p = Some r"
  using assms(3)
proof (induction n arbitrary: m k p r)
  case (Suc n)
  then obtain m' where m: "m = Suc m'" "n \<le> m'" by (cases m) auto
  obtain re where re: "run' p = Some re" using Suc.prems(2) m by (cases "run' p") auto
  have "ev_run p \<noteq> None" using Suc.prems(1) by (cases "ev_run p") simp_all
  then have run: "run p = Some re" "ev_run p = Some (ends re)"
    using assms re by blast+
  show ?case
  proof (cases re)
    case None
    then show ?thesis using Suc.prems(2) m re run by simp
  next
    case (Some x)
    obtain q v own where x: "x = (q, v, own)" by (cases x)
    show ?thesis
      using Suc.prems(1,2) Suc.IH [OF _ _ m(2), of "k + 1" q] m(1) re run Some x by (auto split: if_splits)
  qed
qed simp

lemma sem_rep_less:
  assumes "\<And>p r. ev_run p \<noteq> None \<Longrightarrow> run' p = Some r \<Longrightarrow> run p = Some r"
    and "\<And>p r. run' p = Some r \<Longrightarrow> ev_run p \<noteq> None \<Longrightarrow> ev_run p = Some (ends r)" and "n \<le> m"
  shows "ev_rep n ev_run min_rep max_rep p \<noteq> None \<Longrightarrow> sem_rep m run' wrap min_rep max_rep p = Some r \<Longrightarrow>
    sem_rep n run wrap min_rep max_rep p = Some r"
  using sem_loop_less [where ev_run = ev_run and run' = run' and run = run, OF assms]
  by (fastforce simp: sem_rep_def ev_rep_def split: option.splits)

lemma sem_less:
  "ev n G input e p \<noteq> None \<Longrightarrow> sem m G dflt input e p = Some r \<Longrightarrow> n \<le> m \<Longrightarrow> sem n G dflt input e p = Some r"
proof (induction n arbitrary: m e p r)
  case (Suc n)
  then obtain m' where m: "m = Suc m'" "n \<le> m'" by (cases m) auto
  have kid: "ev n G input e p \<noteq> None \<Longrightarrow> sem m' G dflt input e p = Some r \<Longrightarrow> sem n G dflt input e p = Some r" for e p r
    by (rule Suc.IH [OF _ _ m(2)])
  have det: "sem m' G dflt input e p = Some r \<Longrightarrow> ev n G input e p \<noteq> None \<Longrightarrow> ev n G input e p = Some (ends r)" for e p r
    using sem_ev ev_more [OF _ m(2)] by fastforce
  note prems = Suc.prems(1,2) [unfolded m(1)]
  have rep: "sem (Suc n) G dflt input e p = Some r"
    if "\<And>n. ev (Suc n) G input e p = ev_rep n (ev n G input a) lo hi p"
      "\<And>n. sem (Suc n) G dflt input e p = sem_rep n (sem n G dflt input a) wrap lo hi p" for a lo hi wrap
    unfolding that by (rule sem_rep_less [OF kid det m(2)]) (use prems in \<open>simp_all only: that not_False_eq_True\<close>)
  show ?case
  proof (cases e)
    case (RuleExpr r')
    then show ?thesis
      using prems kid by (auto split: option.splits if_splits)
  next
    case (SequenceExpr es)
    then obtain x where x: "sem_seq (sem m' G dflt input) es p = Some x"
        "r = map_option (\<lambda>(q, vs). (q, collapse_value vs, False)) x"
      using prems(2) by auto
    have "sem_seq (sem n G dflt input) es p = Some x"
      by (rule sem_seq_less [OF kid det]) (use prems x SequenceExpr in auto)
    then show ?thesis using x SequenceExpr by simp
  next
    case (AlternationExpr es)
    have "sem_alt (sem n G dflt input) es p = Some r"
      by (rule sem_alt_less [OF kid det]) (use prems AlternationExpr in auto)
    then show ?thesis using AlternationExpr by simp
  next
    case (NotExpr a)
    then show ?thesis using prems kid [of a p] by (auto split: option.splits)
  next
    case (AndExpr a)
    then show ?thesis using prems kid [of a p] by (auto split: option.splits)
  next
    case (LexemeExpr a)
    then show ?thesis using prems kid [of a p] by simp
  next
    case (ZeroOrMoreExpr a)
    then show ?thesis by (intro rep) simp_all
  next
    case (OneOrMoreExpr a)
    then show ?thesis by (intro rep) simp_all
  next
    case (NTimesExpr a k)
    then show ?thesis by (intro rep) simp_all
  next
    case (OptionalExpr a)
    then show ?thesis by (intro rep) simp_all
  qed (use prems in simp_all)
qed simp

end
