(* ===== verification/Denotation.thy ===== *)
theory Denotation
  imports Values
begin

text \<open>
  What a node of the arena denotes: the typed value an expression has there. The relation
  follows the tree the way the fold does, but only over trees whose shape fits the
  expression, and it keeps clear of the nodes in a set \<open>X\<close>: those still under construction,
  and those the path from the root went through. It is stable under all the engine does to
  an arena, and the fold computes it.
\<close>

subsection \<open>The relation\<close>

text \<open>The expressions whose node has a child per iteration, with the value of those.\<close>

fun rep_child :: "'c expr \<Rightarrow> ('c expr \<times> (('c, 'v) tval list \<Rightarrow> ('c, 'v) tval)) option" where
  "rep_child (ZeroOrMoreExpr e) = Some (e, VecV)"
| "rep_child (OneOrMoreExpr e) = Some (e, VecV)"
| "rep_child (NTimesExpr e n) = Some (e, VecV)"
| "rep_child (OptionalExpr e) = Some (e, \<lambda>vs. OptV (case vs of [] \<Rightarrow> None | v # _ \<Rightarrow> Some v))"
| "rep_child _ = None"

text \<open>A node no rule owns, outside of \<open>X\<close>; a node of the rule \<open>r\<close>.\<close>

definition raw_node :: "'c ctx \<Rightarrow> nat set \<Rightarrow> nat \<Rightarrow> bool" where
  "raw_node c X t \<longleftrightarrow> t < length (m_node_arena c) \<and> t \<notin> X \<and> producer (node_at t c) = None"

definition rule_node :: "'c ctx \<Rightarrow> nat set \<Rightarrow> nat \<Rightarrow> rule_ref \<Rightarrow> bool" where
  "rule_node c X t r \<longleftrightarrow> t < length (m_node_arena c) \<and> t \<notin> X \<and> producer (node_at t c) = Some r"

definition node_span :: "'c ctx \<Rightarrow> nat \<Rightarrow> span" where
  "node_span c t = Span (start_offset (node_at t c)) (end_offset (node_at t c))"

inductive den :: "('c, 'v) grammar \<Rightarrow> 'v \<Rightarrow> 'c ctx \<Rightarrow> nat set \<Rightarrow> 'c expr \<Rightarrow> nat \<Rightarrow> ('c, 'v) tval \<Rightarrow> bool"
  and den_seq :: "('c, 'v) grammar \<Rightarrow> 'v \<Rightarrow> 'c ctx \<Rightarrow> nat set \<Rightarrow> 'c expr list \<Rightarrow> node_ref list
      \<Rightarrow> ('c, 'v) tval list \<Rightarrow> bool"
  and den_list :: "('c, 'v) grammar \<Rightarrow> 'v \<Rightarrow> 'c ctx \<Rightarrow> nat set \<Rightarrow> 'c expr \<Rightarrow> node_ref list
      \<Rightarrow> ('c, 'v) tval list \<Rightarrow> bool"
  and den_rule :: "('c, 'v) grammar \<Rightarrow> 'v \<Rightarrow> 'c ctx \<Rightarrow> nat set \<Rightarrow> nat \<Rightarrow> 'v \<Rightarrow> bool"
  for G dflt c where
  token: "raw_node c X t \<Longrightarrow> start_offset (node_at t c) < length (m_input c) \<Longrightarrow>
    den G dflt c X (TokenExpr a) t (ElemV (m_input c ! start_offset (node_at t c)))"
| lexeme: "den G dflt c X e t v \<Longrightarrow> den G dflt c X (LexemeExpr e) t v"
| choice_raw: "alt_winner (node_at t c) = Some i \<Longrightarrow> i < length es \<Longrightarrow> raw_node c X t \<Longrightarrow>
    den G dflt c X (es ! i) t v \<Longrightarrow> den G dflt c X (AlternationExpr es) t v"
| choice_rule: "es \<noteq> [] \<Longrightarrow> list_all rule_like es \<Longrightarrow> den_rule G dflt c X t v \<Longrightarrow>
    den G dflt c X (AlternationExpr es) t (NodeV v)"
| rule: "den_rule G dflt c X t v \<Longrightarrow>
    (typed_fold G r \<noteq> None \<longrightarrow> producer (node_at t c) = Some r) \<Longrightarrow> den G dflt c X (RuleExpr r) t (NodeV v)"
| seq: "raw_node c X t \<Longrightarrow> den_seq G dflt c (insert t X) es (nd_children (node_at t c)) vs \<Longrightarrow>
    den G dflt c X (SequenceExpr es) t (collapse_value vs)"
| rep: "rep_child e = Some (a, wrap) \<Longrightarrow> raw_node c X t \<Longrightarrow> \<not> is_void a \<Longrightarrow>
    den_list G dflt c (insert t X) a (nd_children (node_at t c)) vs \<Longrightarrow> den G dflt c X e t (wrap vs)"
| seq_nil: "den_seq G dflt c X [] [] []"
| seq_quiet: "is_void e \<Longrightarrow> \<not> pushes_node e \<Longrightarrow> den_seq G dflt c X es ts vs \<Longrightarrow>
    den_seq G dflt c X (e # es) ts vs"
| seq_matcher: "is_void e \<Longrightarrow> pushes_node e \<Longrightarrow> den_seq G dflt c X es ts vs \<Longrightarrow>
    den_seq G dflt c X (e # es) (t # ts) vs"
| seq_value: "\<not> is_void e \<Longrightarrow> den G dflt c X e i v \<Longrightarrow> den_seq G dflt c X es ts vs \<Longrightarrow>
    den_seq G dflt c X (e # es) (Some i # ts) (v # vs)"
| list_nil: "den_list G dflt c X e [] []"
| list_cons: "den G dflt c X e i v \<Longrightarrow> den_list G dflt c X e ts vs \<Longrightarrow>
    den_list G dflt c X e (Some i # ts) (v # vs)"
| untyped: "rule_node c X t r \<Longrightarrow> typed_fold G r = None \<Longrightarrow> den_rule G dflt c X t dflt"
| typed_void: "rule_node c X t r \<Longrightarrow> typed_fold G r = Some (e, f) \<Longrightarrow> is_void e \<Longrightarrow>
    den_rule G dflt c X t (f (m_input c) (node_span c t) [])"
| typed: "rule_node c X t r \<Longrightarrow> typed_fold G r = Some (e, f) \<Longrightarrow> result_of e = Some T \<Longrightarrow> T \<noteq> VoidT \<Longrightarrow>
    nd_children (node_at t c) = [Some b] \<Longrightarrow> den G dflt c (insert t X) e b v \<Longrightarrow>
    den_rule G dflt c X t (f (m_input c) (node_span c t) (unpack T v))"

inductive_cases den_tokenE: "den G dflt c X (TokenExpr a) t v"
inductive_cases den_lexemeE: "den G dflt c X (LexemeExpr e) t v"
inductive_cases den_seqE: "den G dflt c X (SequenceExpr es) t v"
inductive_cases den_ruleE: "den G dflt c X (RuleExpr r) t v"
inductive_cases den_ownerE: "den_rule G dflt c X t w"

lemma den_repE:
  assumes "den G dflt c X e t v" and "rep_child e = Some (a, wrap)"
  obtains vs where "v = wrap vs" "raw_node c X t" "\<not> is_void a"
    "den_list G dflt c (insert t X) a (nd_children (node_at t c)) vs"
  using assms by (cases rule: den.cases) auto

lemmas den_intros = den_den_seq_den_list_den_rule.intros
lemmas den_induct = den_den_seq_den_list_den_rule.inducts

lemma den_node:
  "den G dflt c X e t v \<Longrightarrow> t < length (m_node_arena c) \<and> t \<notin> X"
  "den_seq G dflt c X es ts vs \<Longrightarrow> True"
  "den_list G dflt c X e ts vs \<Longrightarrow> True"
  "den_rule G dflt c X t w \<Longrightarrow> t < length (m_node_arena c) \<and> t \<notin> X \<and> producer (node_at t c) \<noteq> None"
  by (induction rule: den_induct) (auto simp: raw_node_def rule_node_def)

lemma den_rule_like: "rule_like e \<Longrightarrow> den G dflt c X e t v \<Longrightarrow> \<exists>w. v = NodeV w \<and> den_rule G dflt c X t w"
  by (induction e rule: rule_like.induct) (auto elim: den_ruleE den_lexemeE)

subsection \<open>What the engine does to an arena\<close>

text \<open>
  Nodes are added; a node no rule owns yet stays as it is; a node of a rule may get another
  name and another stamp. The nodes in \<open>Y\<close> are exempt.
\<close>

definition same_node :: "tree_node \<Rightarrow> tree_node \<Rightarrow> bool" where
  "same_node a b \<longleftrightarrow> start_offset b = start_offset a \<and> end_offset b = end_offset a \<and>
     nd_children b = nd_children a \<and> producer b = producer a \<and>
     (producer a = None \<longrightarrow> alt_winner b = alt_winner a)"

definition arena_ext :: "nat set \<Rightarrow> 'c ctx \<Rightarrow> 'c ctx \<Rightarrow> bool" where
  "arena_ext Y c c' \<longleftrightarrow>
     m_input c' = m_input c \<and> length (m_node_arena c) \<le> length (m_node_arena c') \<and>
     (\<forall>i < length (m_node_arena c). i \<notin> Y \<longrightarrow> same_node (node_at i c) (node_at i c'))"

lemma same_node_refl [simp]: "same_node a a"
  by (simp add: same_node_def)

lemma same_node_trans: "same_node a b \<Longrightarrow> same_node b c \<Longrightarrow> same_node a c"
  by (simp add: same_node_def)

lemma arena_ext_node: "arena_ext Y c c' \<Longrightarrow> i < length (m_node_arena c) \<Longrightarrow> i \<notin> Y \<Longrightarrow> same_node (node_at i c) (node_at i c')"
  by (simp add: arena_ext_def)

lemma arena_ext_input: "arena_ext Y c c' \<Longrightarrow> m_input c' = m_input c"
  by (simp add: arena_ext_def)

lemma arena_ext_length: "arena_ext Y c c' \<Longrightarrow> length (m_node_arena c) \<le> length (m_node_arena c')"
  by (simp add: arena_ext_def)

lemma arena_ext_refl [simp]: "arena_ext Y c c"
  by (simp add: arena_ext_def)

lemma arena_ext_mono: "arena_ext Y c c' \<Longrightarrow> Y \<subseteq> Z \<Longrightarrow> arena_ext Z c c'"
  unfolding arena_ext_def by blast

lemma arena_ext_trans: "arena_ext Y a b \<Longrightarrow> arena_ext Y b c \<Longrightarrow> arena_ext Y a c"
  unfolding arena_ext_def by (auto elim!: allE intro: same_node_trans)

text \<open>A later step may touch what is new since \<open>a\<close>.\<close>

lemma arena_ext_fresh:
  "arena_ext Y a b \<Longrightarrow> arena_ext Z b c \<Longrightarrow> (\<And>i. i \<in> Z \<Longrightarrow> i \<in> Y \<or> length (m_node_arena a) \<le> i) \<Longrightarrow> arena_ext Y a c"
  unfolding arena_ext_def by (auto elim!: allE intro: same_node_trans) fastforce

lemma arena_ext_same: "m_node_arena c' = m_node_arena c \<Longrightarrow> m_input c' = m_input c \<Longrightarrow> arena_ext Y c c'"
  by (simp add: arena_ext_def node_at_def)

lemma node_at_upd_node:
  "node_at j (upd_node i f c) = (if j = i \<and> i < length (m_node_arena c) then f (node_at j c) else node_at j c)"
  by (auto simp: node_at_def upd_node_def nth_list_update list_update_beyond)

lemma length_upd_node [simp]: "length (m_node_arena (upd_node i f c)) = length (m_node_arena c)"
  by (simp add: upd_node_def)

lemma arena_ext_upd: "i \<in> Y \<or> same_node (node_at i c) (f (node_at i c)) \<Longrightarrow> arena_ext Y c (upd_node i f c)"
  by (auto simp: arena_ext_def node_at_upd_node)

lemma node_at_make_node:
  "make_node c = (n, c1) \<Longrightarrow> n = length (m_node_arena c) \<and> length (m_node_arena c1) = Suc n \<and> node_at n c1 = empty_node"
  by (auto simp: make_node_def node_at_def)

lemma arena_ext_make_node: "make_node c = (n, c1) \<Longrightarrow> arena_ext Y c c1"
  by (auto simp: arena_ext_def make_node_def node_at_def nth_append)

lemma arena_ext_push_child: "i \<in> Y \<Longrightarrow> arena_ext Y c (push_child i t c)"
  by (auto simp: push_child_def intro: arena_ext_upd split: option.split)

subsection \<open>Stability\<close>

lemma raw_node_ext: "raw_node c X t \<Longrightarrow> arena_ext Y c c' \<Longrightarrow> Y \<subseteq> X \<Longrightarrow> raw_node c' X t"
  using arena_ext_node [of Y c c' t] arena_ext_length [of Y c c']
  by (auto simp: raw_node_def same_node_def)

lemma rule_node_ext: "rule_node c X t r \<Longrightarrow> arena_ext Y c c' \<Longrightarrow> Y \<subseteq> X \<Longrightarrow> rule_node c' X t r"
  using arena_ext_node [of Y c c' t] arena_ext_length [of Y c c']
  by (auto simp: rule_node_def same_node_def)

lemma raw_node_same:
  "raw_node c X t \<Longrightarrow> arena_ext Y c c' \<Longrightarrow> Y \<subseteq> X \<Longrightarrow> start_offset (node_at t c') = start_offset (node_at t c) \<and>
   nd_children (node_at t c') = nd_children (node_at t c) \<and> alt_winner (node_at t c') = alt_winner (node_at t c)"
  using arena_ext_node [of Y c c' t] by (auto simp: raw_node_def same_node_def)

lemma rule_node_same:
  "rule_node c X t r \<Longrightarrow> arena_ext Y c c' \<Longrightarrow> Y \<subseteq> X \<Longrightarrow>
   nd_children (node_at t c') = nd_children (node_at t c) \<and> node_span c' t = node_span c t"
  using arena_ext_node [of Y c c' t] by (auto simp: rule_node_def same_node_def node_span_def)

lemma den_ext_all:
  "den G dflt c X e t v \<Longrightarrow> arena_ext Y c c' \<Longrightarrow> Y \<subseteq> X \<Longrightarrow> den G dflt c' X e t v"
  "den_seq G dflt c X es ts vs \<Longrightarrow> arena_ext Y c c' \<Longrightarrow> Y \<subseteq> X \<Longrightarrow> den_seq G dflt c' X es ts vs"
  "den_list G dflt c X e ts vs \<Longrightarrow> arena_ext Y c c' \<Longrightarrow> Y \<subseteq> X \<Longrightarrow> den_list G dflt c' X e ts vs"
  "den_rule G dflt c X t w \<Longrightarrow> arena_ext Y c c' \<Longrightarrow> Y \<subseteq> X \<Longrightarrow> den_rule G dflt c' X t w"
proof (induction rule: den_induct)
  case (token X t a)
  then show ?case
    using den_intros(1) [of c' X t G dflt a] raw_node_ext [of c X t Y c'] raw_node_same [of c X t Y c']
      arena_ext_input [of Y c c'] by simp
next
  case (choice_raw t i es X v)
  then show ?case
    using den_intros(3) [of t c' i es X G dflt v] raw_node_ext [of c X t Y c'] raw_node_same [of c X t Y c'] by simp
next
  case (rule X t v r)
  then have "producer (node_at t c') = producer (node_at t c)"
    using den_node(4) [of G dflt c X t v] arena_ext_node [of Y c c' t] by (auto simp: same_node_def)
  with rule show ?case by (auto intro!: den_intros(5))
next
  case (seq X t es vs)
  then have "den_seq G dflt c' (insert t X) es (nd_children (node_at t c)) vs" by blast
  with seq show ?case
    using den_intros(6) [of c' X t G dflt es vs] raw_node_ext [of c X t Y c'] raw_node_same [of c X t Y c'] by simp
next
  case (rep e a wrap X t vs)
  then have "den_list G dflt c' (insert t X) a (nd_children (node_at t c)) vs" by blast
  with rep show ?case
    using den_intros(7) [of e a wrap c' X t G dflt vs] raw_node_ext [of c X t Y c'] raw_node_same [of c X t Y c'] by simp
next
  case (typed_void X t r e f)
  then show ?case
    using den_intros(15) [of c' X t r G e f dflt] rule_node_ext [of c X t r Y c'] rule_node_same [of c X t r Y c']
      arena_ext_input [of Y c c'] by simp
next
  case (typed X t r e f T b v)
  then have "den G dflt c' (insert t X) e b v" by blast
  with typed show ?case
    using den_intros(16) [of c' X t r G e f T b dflt v] rule_node_ext [of c X t r Y c'] rule_node_same [of c X t r Y c']
      arena_ext_input [of Y c c'] by simp
qed (auto intro: den_intros rule_node_ext)

lemmas den_ext = den_ext_all(1) and den_seq_ext = den_ext_all(2) and den_list_ext = den_ext_all(3)
  and den_rule_ext = den_ext_all(4)

text \<open>The set of nodes to avoid may shrink, and may grow by nodes that do not exist.\<close>

lemma den_anti_all:
  "den G dflt c X e t v \<Longrightarrow> Y \<inter> {..<length (m_node_arena c)} \<subseteq> X \<Longrightarrow> den G dflt c Y e t v"
  "den_seq G dflt c X es ts vs \<Longrightarrow> Y \<inter> {..<length (m_node_arena c)} \<subseteq> X \<Longrightarrow> den_seq G dflt c Y es ts vs"
  "den_list G dflt c X e ts vs \<Longrightarrow> Y \<inter> {..<length (m_node_arena c)} \<subseteq> X \<Longrightarrow> den_list G dflt c Y e ts vs"
  "den_rule G dflt c X t w \<Longrightarrow> Y \<inter> {..<length (m_node_arena c)} \<subseteq> X \<Longrightarrow> den_rule G dflt c Y t w"
proof (induction arbitrary: Y and Y and Y and Y rule: den_induct)
  case (seq X t es vs)
  then have "den_seq G dflt c (insert t Y) es (nd_children (node_at t c)) vs" by blast
  with seq show ?case by (intro den_intros(6)) (auto simp: raw_node_def)
next
  case (rep e a wrap X t vs)
  then have "den_list G dflt c (insert t Y) a (nd_children (node_at t c)) vs" by blast
  with rep show ?case by (intro den_intros(7) [of e a wrap]) (auto simp: raw_node_def)
next
  case (typed X t r e f T b v)
  then have "den G dflt c (insert t Y) e b v" by blast
  with typed show ?case by (intro den_intros(16) [of c Y t r G e f T b]) (auto simp: rule_node_def)
next
  case (token X t a)
  then show ?case by (intro den_intros(1)) (auto simp: raw_node_def)
next
  case (choice_raw t i es X v)
  then show ?case by (intro den_intros(3)) (auto simp: raw_node_def)
next
  case (typed_void X t r e f)
  then show ?case by (intro den_intros(15) [of c Y t r]) (auto simp: rule_node_def)
next
  case (untyped X t r)
  then show ?case by (intro den_intros(14) [of c Y t r]) (auto simp: rule_node_def)
qed (blast intro: den_intros)+

lemmas den_anti = den_anti_all(1) and den_rule_anti = den_anti_all(4)

text \<open>The stamp of a choice on a node no rule owns.\<close>

lemma den_stamp:
  fixes G :: "('c, 'v) grammar"
  assumes "raw_maker e" and "den G dflt c X e t v" and "raw_node c X t"
  shows "den G dflt (upd_node t (\<lambda>n. n\<lparr>alt_winner := w\<rparr>) c) X e t v" (is "den G dflt ?c X e t v")
proof -
  have ext: "arena_ext {t} c ?c" by (rule arena_ext_upd) simp
  have raw: "raw_node ?c X t" and same: "nd_children (node_at t ?c) = nd_children (node_at t c)"
      "start_offset (node_at t ?c) = start_offset (node_at t c)" "m_input ?c = m_input c"
    using assms(3) by (auto simp: raw_node_def node_at_upd_node)
  have rep: "den G dflt ?c X e t v" if d: "den G dflt c X e t v" and r: "rep_child e = Some (a, wrap)" for e v a and wrap :: "('c, 'v) tval list \<Rightarrow> ('c, 'v) tval"
  proof -
    obtain vs where v: "v = wrap vs" "\<not> is_void a" "den_list G dflt c (insert t X) a (nd_children (node_at t c)) vs"
      by (rule den_repE [OF d r])
    show ?thesis
      unfolding v(1)
      by (rule den_intros(7) [OF r raw v(2)], unfold same) (rule den_list_ext [OF v(3) ext], simp)
  qed
  show ?thesis
    using assms(1,2)
  proof (induction e arbitrary: v rule: raw_maker.induct)
    case (1 a)
    then show ?case
      using den_intros(1) [OF raw, of G dflt a] same by (auto elim!: den_tokenE)
  next
    case (2 es)
    then obtain vs where vs: "v = collapse_value vs" "den_seq G dflt c (insert t X) es (nd_children (node_at t c)) vs"
      by (auto elim: den_seqE)
    show ?case
      unfolding vs(1) by (rule den_intros(6) [OF raw], unfold same) (rule den_seq_ext [OF vs(2) ext], simp)
  next
    case (7 e)
    then show ?case by (auto elim!: den_lexemeE intro: den_intros(2))
  qed (use rep in auto)
qed

subsection \<open>The fold computes the denotation\<close>

definition folds_to :: "('c, 'v) grammar \<Rightarrow> 'v \<Rightarrow> 'c ctx \<Rightarrow> 'c expr \<Rightarrow> nat \<Rightarrow> ('c, 'v) tval \<Rightarrow> nat \<Rightarrow> bool" where
  "folds_to G dflt c e t v N \<longleftrightarrow> (\<forall>n\<ge>N. \<exists>cur. fold_expr n G dflt c e (Some t) 0 = Ret v cur)"

lemma folds_to_mono: "folds_to G dflt c e t v N \<Longrightarrow> N \<le> M \<Longrightarrow> folds_to G dflt c e t v M"
  by (simp add: folds_to_def)

text \<open>One level of the fold, over the children's.\<close>

lemma folds_to_step:
  assumes "\<And>n. N \<le> n \<Longrightarrow> \<exists>cur. fold_expr (Suc n) G dflt c e (Some t) 0 = Ret v cur"
  shows "folds_to G dflt c e t v (Suc N)"
  unfolding folds_to_def
proof (intro allI impI)
  fix n assume "Suc N \<le> n"
  then obtain m where "n = Suc m" "N \<le> m" by (cases n) auto
  with assms show "\<exists>cur. fold_expr n G dflt c e (Some t) 0 = Ret v cur" by simp
qed

lemma deref_node: "t < length (m_node_arena c) \<Longrightarrow> deref c (Some t) = Some (node_at t c)"
  by (simp add: deref_def node_at_def)

lemma fold_dispatch_winner:
  "deref c node = Some nd \<Longrightarrow> alt_winner nd = Some (k + i) \<Longrightarrow> i < length es \<Longrightarrow>
   fold_dispatch fe c k es node cur = fe (es ! i) node cur"
proof (induction es arbitrary: k i rule: induct_list012)
  case (3 e e' es)
  show ?case
  proof (cases i)
    case (Suc j)
    then show ?thesis using 3(2)[of "Suc k" j] 3 by simp
  qed (use 3 in simp)
qed simp_all

lemma fold_dispatch_uniform:
  "deref c node = Some nd \<Longrightarrow> es \<noteq> [] \<Longrightarrow> (\<And>e. e \<in> set es \<Longrightarrow> \<exists>cur'. fe e node cur = Ret v cur') \<Longrightarrow>
   \<exists>cur'. fold_dispatch fe c k es node cur = Ret v cur'"
  by (induction es arbitrary: k rule: induct_list012) auto

text \<open>What the fold of the rest of a sequence, of a list of children and of a rule's node give.\<close>

definition seq_folds ::
  "('c, 'v) grammar \<Rightarrow> 'v \<Rightarrow> 'c ctx \<Rightarrow> 'c expr list \<Rightarrow> node_ref list \<Rightarrow> ('c, 'v) tval list \<Rightarrow> nat \<Rightarrow> bool" where
  "seq_folds G dflt c es ts vs N \<longleftrightarrow>
     (\<forall>n\<ge>N. \<forall>node nd pre acc. deref c node = Some nd \<longrightarrow> nd_children nd = pre @ ts \<longrightarrow>
        (\<exists>cur. seq_step (fold_expr n G dflt c) c es node (length pre) acc = Ret (acc @ vs) cur))"

definition list_folds ::
  "('c, 'v) grammar \<Rightarrow> 'v \<Rightarrow> 'c ctx \<Rightarrow> 'c expr \<Rightarrow> node_ref list \<Rightarrow> ('c, 'v) tval list \<Rightarrow> nat \<Rightarrow> bool" where
  "list_folds G dflt c e ts vs N \<longleftrightarrow> list_all2 (\<lambda>t v. \<exists>i. t = Some i \<and> folds_to G dflt c e i v N) ts vs"

definition rule_folds :: "('c, 'v) grammar \<Rightarrow> 'v \<Rightarrow> 'c ctx \<Rightarrow> nat \<Rightarrow> 'v \<Rightarrow> nat \<Rightarrow> bool" where
  "rule_folds G dflt c t w N \<longleftrightarrow> (\<forall>n\<ge>N. \<exists>s. fold_rule (fold_expr n G dflt c) G dflt c (Some t) = Ret w s)"

lemma list_folds_mono: "list_folds G dflt c e ts vs N \<Longrightarrow> N \<le> M \<Longrightarrow> list_folds G dflt c e ts vs M"
  unfolding list_folds_def by (erule list_all2_mono) (blast intro: folds_to_mono)

lemma list_folds_children:
  "list_folds G dflt c e ts vs N \<Longrightarrow> N \<le> n \<Longrightarrow>
   \<exists>cur'. fold_children (fold_expr n G dflt c e) ts cur out = Ret (out @ vs) cur'"
  unfolding list_folds_def
proof (induction ts arbitrary: vs cur out)
  case (Cons t ts)
  obtain i v vs' where v: "t = Some i" "folds_to G dflt c e i v N" "vs = v # vs'"
      "list_all2 (\<lambda>t v. \<exists>i. t = Some i \<and> folds_to G dflt c e i v N) ts vs'"
    using Cons.prems(1) by (auto simp: list_all2_Cons1)
  obtain s where "fold_expr n G dflt c e (Some i) 0 = Ret v s"
    using v(2) Cons.prems(2) by (auto simp: folds_to_def)
  then show ?case
    using Cons.IH [OF v(4) Cons.prems(2), of "Suc cur" "out @ [v]"] v(1,3) by simp
qed simp

lemma seq_folds_value:
  assumes "folds_to G dflt c e i v N" and "seq_folds G dflt c es ts vs M" and "\<not> is_void e"
  shows "seq_folds G dflt c (e # es) (Some i # ts) (v # vs) (max N M)"
  unfolding seq_folds_def
proof (intro allI impI)
  fix n node nd pre acc
  assume n: "max N M \<le> n" and nd: "deref c node = Some nd" "nd_children nd = pre @ Some i # ts"
  obtain s where v: "fold_expr n G dflt c e (Some i) 0 = Ret v s"
    using assms(1) n by (auto simp: folds_to_def)
  have "\<exists>cur. seq_step (fold_expr n G dflt c) c es node (length (pre @ [Some i])) (acc @ [v]) = Ret ((acc @ [v]) @ vs) cur"
    using assms(2) n nd unfolding seq_folds_def by (metis append.assoc append_Cons append_Nil max.bounded_iff)
  then show "\<exists>cur. seq_step (fold_expr n G dflt c) c (e # es) node (length pre) acc = Ret (acc @ v # vs) cur"
    using nd v assms(3) by simp
qed

lemma fold_rule_owner:
  assumes "rule_node c X t r"
  shows "fold_rule fe G dflt c (Some t) =
    (case typed_fold G r of None \<Rightarrow> Ret dflt 0 | Some (e, f) \<Rightarrow> fold_and_invoke fe c e f (Some t))"
  using assms by (simp add: fold_rule_def deref_node rule_node_def)

lemma rep_folds:
  assumes "rep_child e = Some (a, wrap)" and "t < length (m_node_arena c)" and "\<not> is_void a"
    and "list_folds G dflt c a (nd_children (node_at t c)) vs N"
  shows "folds_to G dflt c e t (wrap vs) (Suc N)"
proof (rule folds_to_step)
  fix n assume n: "N \<le> n"
  have vec: "\<exists>cur. fold_rep (fold_expr n G dflt c) c a (Some t) 0 = Ret (VecV vs) cur"
    using list_folds_children [OF assms(4) n, of 0 "[]"] assms(2,3)
    by (auto simp: fold_rep_def deref_node)
  have opt: "\<exists>cur. fold_optional (fold_expr n G dflt c) c a (Some t) 0 =
      Ret (OptV (case vs of [] \<Rightarrow> None | v # _ \<Rightarrow> Some v)) cur"
  proof (cases "nd_children (node_at t c)")
    case Nil
    then show ?thesis
      using assms by (simp add: fold_optional_def deref_node list_folds_def)
  next
    case (Cons x xs)
    then obtain i v vs' where "x = Some i" "folds_to G dflt c a i v N" "vs = v # vs'"
      using assms(4) by (auto simp: list_folds_def list_all2_Cons1)
    moreover from this n obtain s where "fold_expr n G dflt c a (Some i) 0 = Ret v s"
      by (auto simp: folds_to_def)
    ultimately show ?thesis
      using Cons assms(2,3) by (simp add: fold_optional_def deref_node)
  qed
  show "\<exists>cur. fold_expr (Suc n) G dflt c e (Some t) 0 = Ret (wrap vs) cur"
    using assms(1) vec opt by (cases e) auto
qed

lemma rule_like_folds:
  "rule_like e \<Longrightarrow> rule_folds G dflt c t w N \<Longrightarrow> folds_to G dflt c e t (NodeV w) (N + size e)"
proof (induction e rule: rule_like.induct)
  case (1 r)
  have "folds_to G dflt c (RuleExpr r) t (NodeV w) (Suc N)"
  proof (rule folds_to_step)
    fix n assume "N \<le> n"
    then obtain s where "fold_rule (fold_expr n G dflt c) G dflt c (Some t) = Ret w s"
      using 1(2) by (auto simp: rule_folds_def)
    then show "\<exists>cur. fold_expr (Suc n) G dflt c (RuleExpr r) (Some t) 0 = Ret (NodeV w) cur" by simp
  qed
  then show ?case by simp
next
  case (2 e)
  then show ?case
    using folds_to_step [of "N + size e" G dflt c "LexemeExpr e" t "NodeV w"] by (auto simp: folds_to_def)
qed simp_all

lemma den_folds_all:
  "den G dflt c X e t v \<Longrightarrow> \<exists>N. folds_to G dflt c e t v N"
  "den_seq G dflt c X es ts vs \<Longrightarrow> \<exists>N. seq_folds G dflt c es ts vs N"
  "den_list G dflt c X e ts vs \<Longrightarrow> \<exists>N. list_folds G dflt c e ts vs N"
  "den_rule G dflt c X t w \<Longrightarrow> \<exists>N. rule_folds G dflt c t w N"
proof (induction rule: den_induct)
  case (token X t a)
  then have "folds_to G dflt c (TokenExpr a) t (ElemV (m_input c ! start_offset (node_at t c))) (Suc 0)"
    by (intro folds_to_step) (simp add: raw_node_def deref_node ctx_at_def input_size_def)
  then show ?case by blast
next
  case (lexeme X e t v)
  then obtain N where "folds_to G dflt c e t v N" by blast
  then have "folds_to G dflt c (LexemeExpr e) t v (Suc N)"
    by (intro folds_to_step) (auto simp: folds_to_def)
  then show ?case by blast
next
  case (choice_raw t i es X v)
  then obtain N where N: "folds_to G dflt c (es ! i) t v N" by blast
  have d: "deref c (Some t) = Some (node_at t c)"
    using choice_raw by (simp add: raw_node_def deref_node)
  have "folds_to G dflt c (AlternationExpr es) t v (Suc N)"
  proof (rule folds_to_step)
    fix n assume "N \<le> n"
    then obtain cur where "fold_expr n G dflt c (es ! i) (Some t) 0 = Ret v cur"
      using N by (auto simp: folds_to_def)
    moreover have "fold_dispatch (fold_expr n G dflt c) c 0 es (Some t) 0 = fold_expr n G dflt c (es ! i) (Some t) 0"
      by (rule fold_dispatch_winner [OF d]) (use choice_raw in simp_all)
    ultimately show "\<exists>cur. fold_expr (Suc n) G dflt c (AlternationExpr es) (Some t) 0 = Ret v cur" by simp
  qed
  then show ?case by blast
next
  case (choice_rule es X t v)
  then obtain N where N: "rule_folds G dflt c t v N" by blast
  define M where "M = N + sum_list (map size es)"
  have all: "folds_to G dflt c e t (NodeV v) M" if "e \<in> set es" for e
  proof (rule folds_to_mono [OF rule_like_folds [OF _ N]])
    show "rule_like e" using that choice_rule by (simp add: list_all_iff)
    show "N + size e \<le> M" using that by (simp add: M_def member_le_sum_list)
  qed
  have d: "deref c (Some t) = Some (node_at t c)"
    using den_node(4) [of G dflt c X t v] choice_rule by (simp add: deref_node)
  have "folds_to G dflt c (AlternationExpr es) t (NodeV v) (Suc M)"
    using all choice_rule by (intro folds_to_step) (simp add: fold_dispatch_uniform [OF d] folds_to_def)
  then show ?case by blast
next
  case (rule X t v r)
  then obtain N where "rule_folds G dflt c t v N" by blast
  then show ?case using rule_like_folds [of "RuleExpr r"] by fastforce
next
  case (seq X t es vs)
  then obtain N where N: "seq_folds G dflt c es (nd_children (node_at t c)) vs N" by blast
  have d: "deref c (Some t) = Some (node_at t c)"
    using seq by (simp add: raw_node_def deref_node)
  have "folds_to G dflt c (SequenceExpr es) t (collapse_value vs) (Suc N)"
  proof (rule folds_to_step)
    fix n assume n: "N \<le> n"
    obtain cur where "seq_step (fold_expr n G dflt c) c es (Some t) 0 [] = Ret vs cur"
      using N [unfolded seq_folds_def, rule_format, OF n d, of "[]" "[]"] by auto
    then show "\<exists>cur. fold_expr (Suc n) G dflt c (SequenceExpr es) (Some t) 0 = Ret (collapse_value vs) cur"
      by (simp add: fold_sequence_def)
  qed
  then show ?case by blast
next
  case (rep e a wrap X t vs)
  then show ?case by (auto simp: raw_node_def intro: rep_folds)
next
  case (seq_nil X)
  then show ?case by (auto simp: seq_folds_def)
next
  case (seq_quiet e X es ts vs)
  then obtain N where N: "seq_folds G dflt c es ts vs N" by blast
  have "seq_folds G dflt c (e # es) ts vs N"
    using N seq_quiet by (auto simp: seq_folds_def)
  then show ?case by blast
next
  case (seq_matcher e X es ts vs t)
  then obtain N where N: "seq_folds G dflt c es ts vs N" by blast
  have "seq_folds G dflt c (e # es) (t # ts) vs N"
    unfolding seq_folds_def
  proof (intro allI impI)
    fix n node nd pre acc
    assume n: "N \<le> n" and nd: "deref c node = Some nd" "nd_children nd = pre @ t # ts"
    have "\<exists>cur. seq_step (fold_expr n G dflt c) c es node (length (pre @ [t])) acc = Ret (acc @ vs) cur"
      by (rule N [unfolded seq_folds_def, rule_format, OF n nd(1)]) (simp add: nd(2))
    then show "\<exists>cur. seq_step (fold_expr n G dflt c) c (e # es) node (length pre) acc = Ret (acc @ vs) cur"
      using seq_matcher by simp
  qed
  then show ?case by blast
next
  case (seq_value e X i v es ts vs)
  then show ?case by (blast intro: seq_folds_value)
next
  case (list_nil X e)
  then show ?case by (auto simp: list_folds_def)
next
  case (list_cons X e i v ts vs)
  then obtain N M where "folds_to G dflt c e i v N" "list_folds G dflt c e ts vs M" by blast
  then have "folds_to G dflt c e i v (max N M)" "list_folds G dflt c e ts vs (max N M)"
    by (auto intro: folds_to_mono list_folds_mono)
  then show ?case by (auto simp: list_folds_def)
next
  case (untyped X t r)
  then show ?case by (auto simp: rule_folds_def fold_rule_owner)
next
  case (typed_void X t r e f)
  then have own: "rule_node c X t r" by simp
  with typed_void have "rule_folds G dflt c t (f (m_input c) (node_span c t) []) 0"
    by (simp add: rule_folds_def fold_rule_owner [OF own])
       (simp add: fold_and_invoke_def is_void_def deref_node rule_node_def Let_def node_span_def)
  then show ?case by blast
next
  case (typed X t r e f T b v)
  then obtain N where N: "folds_to G dflt c e b v N" by blast
  have own: "rule_node c X t r" using typed by simp
  have "rule_folds G dflt c t (f (m_input c) (node_span c t) (unpack T v)) N"
    unfolding rule_folds_def
  proof (intro allI impI)
    fix n assume "N \<le> n"
    then obtain cur where "fold_expr n G dflt c e (Some b) 0 = Ret v cur"
      using N by (auto simp: folds_to_def)
    then show "\<exists>s. fold_rule (fold_expr n G dflt c) G dflt c (Some t) = Ret (f (m_input c) (node_span c t) (unpack T v)) s"
      using typed unfolding fold_rule_owner [OF own]
      by (simp add: fold_and_invoke_def deref_node rule_node_def Let_def node_span_def)
  qed
  then show ?case by blast
qed

lemmas den_folds = den_folds_all(1) and den_rule_folds = den_folds_all(4)

end
