(* ===== verification/Tree_State.thy ===== *)
theory Tree_State
  imports Denotation Grammar_Parse
begin

text \<open>
  The trees the engine builds denote the values of the reference semantics: the proof of
  \<open>Packrat\<close>, extended by what the nodes of the arena denote. A parse runs while some nodes
  are still under construction (\<open>X\<close>); no entry of the memo leads through them.
\<close>

subsection \<open>Expressions with a value\<close>

definition valued :: "'c expr \<Rightarrow> bool" where
  "valued e \<longleftrightarrow> foldable e \<and> result_of e \<noteq> None \<and> \<not> is_void e"

lemma valued_alternation:
  assumes "valued (AlternationExpr es)" and "e \<in> set es"
  shows "valued e"
proof -
  obtain T where T: "result_of (AlternationExpr es) = Some T"
    using assms(1) by (auto simp: valued_def simp del: result_of.simps)
  then have "result_of e = Some T"
    using assms(2) by (simp add: result_of_alternation del: result_of.simps)
  then show ?thesis
    using assms T by (auto simp: valued_def is_void_def list_all_iff simp del: result_of.simps)
qed

text \<open>The children of a sequence with a value: one without a value leaves the nodes the fold expects.\<close>

definition seq_valued :: "'c expr list \<Rightarrow> bool" where
  "seq_valued es \<longleftrightarrow> list_all (\<lambda>e. valued e \<or> is_void e \<and> (pushes_node e \<or> quiet_void e)) es"

lemma valued_sequence:
  assumes "valued (SequenceExpr es)"
  shows "seq_valued es"
proof -
  obtain ts where "those (map result_of es) = Some ts"
    using assms by (auto simp: valued_def)
  then have "\<forall>e \<in> set es. result_of e \<noteq> None"
    by (force simp: those_result_of list_all2_conv_all_nth in_set_conv_nth)
  then show ?thesis
    using assms by (force simp: seq_valued_def valued_def list_all_iff split: if_splits)
qed

lemma valued_rep: "valued e \<Longrightarrow> rep_child e = Some (a, wrap) \<Longrightarrow> valued a"
  by (cases e) (auto simp: valued_def is_void_def)

lemma valued_lexeme: "valued (LexemeExpr e) \<Longrightarrow> valued e"
  by (simp add: valued_def is_void_def)

subsection \<open>Contexts\<close>

text \<open>What a successful entry of the memo says of its tree.\<close>

definition entry_den ::
  "('c, 'v) grammar \<Rightarrow> 'v \<Rightarrow> 'c ctx \<Rightarrow> nat set \<Rightarrow> rule_ref \<Rightarrow> nat \<Rightarrow> rule_state \<Rightarrow> bool" where
  "entry_den G dflt c X r p st \<longleftrightarrow>
     (\<exists>t v n. tree (m_cached_result st) = Some t \<and> node_span c t = Span p (m_last_pos st) \<and>
        den G dflt c X (RuleExpr r) t (NodeV v) \<and>
        sem n G dflt (m_input c) (RuleExpr r) p = Some (Some (m_last_pos st, NodeV v, True)))"

definition tree_state ::
  "(rule_ref \<times> nat) set \<Rightarrow> nat set \<Rightarrow> ('c, 'v) grammar \<Rightarrow> 'v \<Rightarrow> 'c ctx \<Rightarrow> bool" where
  "tree_state P X G dflt c \<longleftrightarrow>
     typed_grammar G \<and> X \<subseteq> {..<length (m_node_arena c)} \<and>
     (\<forall>r p st. memo_lookup r p c = Some st \<longrightarrow> (r, p) \<notin> P \<longrightarrow> success (m_cached_result st) \<longrightarrow>
        entry_den G dflt c X r p st)"

lemma tree_state_open: "tree_state P X G dflt c \<Longrightarrow> i \<in> X \<Longrightarrow> i < length (m_node_arena c)"
  by (auto simp: tree_state_def)

lemma tree_state_typed: "tree_state P X G dflt c \<Longrightarrow> typed_grammar G"
  by (simp add: tree_state_def)

lemma den_rule_owned: "den G dflt c X (RuleExpr r) t v \<Longrightarrow> \<exists>w. v = NodeV w \<and> den_rule G dflt c X t w"
  by (auto elim: den_ruleE)

lemma entry_den_step:
  assumes "entry_den G dflt c X r p st" and "arena_ext Y c c'" and "Y \<subseteq> X"
    and "Z \<inter> {..<length (m_node_arena c)} \<subseteq> X"
  shows "entry_den G dflt c' Z r p st"
proof -
  obtain t v n where t: "tree (m_cached_result st) = Some t" "node_span c t = Span p (m_last_pos st)"
      "den G dflt c X (RuleExpr r) t (NodeV v)"
      "sem n G dflt (m_input c) (RuleExpr r) p = Some (Some (m_last_pos st, NodeV v, True))"
    using assms(1) by (auto simp: entry_den_def)
  have "t < length (m_node_arena c)" "t \<notin> Y"
    using den_node(1) [OF t(3)] assms(3) by auto
  then have "node_span c' t = node_span c t"
    using arena_ext_node [OF assms(2)] by (auto simp: same_node_def node_span_def)
  moreover have "den G dflt c (X \<union> Z) (RuleExpr r) t (NodeV v)"
    by (rule den_anti [OF t(3)]) (use assms(4) in auto)
  then have "den G dflt c' (X \<union> Z) (RuleExpr r) t (NodeV v)"
    by (rule den_ext [OF _ assms(2)]) (use assms(3) in auto)
  then have "den G dflt c' Z (RuleExpr r) t (NodeV v)"
    by (rule den_anti) auto
  ultimately show ?thesis
    using t arena_ext_input [OF assms(2)] by (auto simp: entry_den_def)
qed

lemma tree_state_step:
  assumes "tree_state P X G dflt c" and "arena_ext Y c c'" and "Y \<subseteq> X"
    and "Z \<inter> {..<length (m_node_arena c)} \<subseteq> X" and "Z \<subseteq> {..<length (m_node_arena c')}"
    and "\<And>r p st. memo_lookup r p c' = Some st \<Longrightarrow> (r, p) \<notin> Q \<Longrightarrow> memo_lookup r p c = Some st \<and> (r, p) \<notin> P"
  shows "tree_state Q Z G dflt c'"
  using assms(1,5,6) entry_den_step [OF _ assms(2-4)] by (fastforce simp: tree_state_def)

text \<open>The steps that leave the memo alone.\<close>

lemma tree_state_keep:
  assumes "tree_state P X G dflt c" and "arena_ext Y c c'" and "Y \<subseteq> X" and "m_mem c' = m_mem c"
  shows "tree_state P X G dflt c'"
  using assms arena_ext_length [OF assms(2)]
  by (intro tree_state_step [OF assms(1-3)]) (auto simp: tree_state_def memo_lookup_def)

lemma tree_state_less:
  assumes "tree_state P X G dflt c" and "Z \<subseteq> X"
  shows "tree_state P Z G dflt c"
  using assms by (intro tree_state_step [OF assms(1) arena_ext_refl, of "{}"]) (auto simp: tree_state_def)

subsection \<open>Results\<close>

text \<open>The tree of a successful result that ends at \<open>q\<close>; \<open>own\<close> tells that a rule owns it.\<close>

definition node_rel ::
  "nat set \<Rightarrow> ('c, 'v) grammar \<Rightarrow> 'v \<Rightarrow> 'c ctx \<Rightarrow> 'c expr \<Rightarrow> nat \<Rightarrow> ('c, 'v) tval \<Rightarrow> bool \<Rightarrow> node_ref \<Rightarrow> 'c ctx
     \<Rightarrow> bool" where
  "node_rel X G dflt c e q v own node c' \<longleftrightarrow>
     (own \<longrightarrow> (\<exists>t w. node = Some t \<and> v = NodeV w \<and> node_span c' t = Span (m_position c) q \<and>
        den_rule G dflt c' X t w)) \<and>
     (\<not> own \<longrightarrow> (\<forall>t. node = Some t \<longrightarrow>
        length (m_node_arena c) \<le> t \<and> t < length (m_node_arena c') \<and> producer (node_at t c') = None)) \<and>
     (valued e \<longrightarrow> (\<exists>t. node = Some t \<and> den G dflt c' X e t v)) \<and>
     (quiet_void e \<longrightarrow> node = None) \<and> (pushes_node e \<longrightarrow> node \<noteq> None)"

text \<open>A tree no rule owns yet is still open.\<close>

definition busy :: "nat set \<Rightarrow> bool \<Rightarrow> node_ref \<Rightarrow> nat set" where
  "busy X own node = (if own then X else case node of None \<Rightarrow> X | Some t \<Rightarrow> insert t X)"

definition tree_rel ::
  "nat set \<Rightarrow> ('c, 'v) grammar \<Rightarrow> 'v \<Rightarrow> 'c ctx \<Rightarrow> 'c expr \<Rightarrow> (nat \<times> ('c, 'v) tval \<times> bool) option
     \<Rightarrow> parse_result \<Rightarrow> 'c ctx \<Rightarrow> bool" where
  "tree_rel X G dflt c e res r c' \<longleftrightarrow>
     arena_ext {} c c' \<and>
     (case res of
        None \<Rightarrow> tree_state (set (frame_ids c')) X G dflt c'
      | Some (q, v, own) \<Rightarrow> tree_state (set (frame_ids c')) (busy X own (tree r)) G dflt c' \<and>
          node_rel X G dflt c e q v own (tree r) c')"

lemma busy_cases: "busy X own node = X \<or> (\<exists>t. \<not> own \<and> node = Some t \<and> busy X own node = insert t X)"
  by (auto simp: busy_def split: option.split)

lemma busy_mono: "X \<subseteq> busy X own node"
  by (auto simp: busy_def split: option.split)

lemma tree_rel_state: "tree_rel X G dflt c e res r c' \<Longrightarrow> tree_state (set (frame_ids c')) X G dflt c'"
  by (cases res) (auto simp: tree_rel_def intro: tree_state_less [OF _ busy_mono] split: prod.splits)

lemma tree_rel_ext: "tree_rel X G dflt c e res r c' \<Longrightarrow> arena_ext {} c c'"
  by (simp add: tree_rel_def)

text \<open>A result stays what it is while other nodes are built.\<close>

lemma node_rel_later:
  assumes "node_rel X G dflt c e q v own node c1" and "arena_ext Y c1 c2" and "Y \<subseteq> X"
    and open_node: "\<And>t. node = Some t \<Longrightarrow> t \<notin> Y"
  shows "node_rel X G dflt c e q v own node c2"
proof -
  have owned: "node_span c2 t = node_span c1 t \<and> den_rule G dflt c2 X t w" if "den_rule G dflt c1 X t w" for t w
    using den_node(4) [OF that] den_rule_ext [OF that assms(2,3)] arena_ext_node [OF assms(2), of t] assms(3)
    by (auto simp: node_span_def same_node_def)
  have raw: "producer (node_at t c2) = None" if "node = Some t" "t < length (m_node_arena c1)" "producer (node_at t c1) = None" for t
    using arena_ext_node [OF assms(2) that(2)] open_node [OF that(1)] that by (simp add: same_node_def)
  show ?thesis
    using assms(1) owned raw arena_ext_length [OF assms(2)] den_ext [OF _ assms(2,3)]
    unfolding node_rel_def by (metis order_less_le_trans)
qed

lemma node_rel_start:
  "node_rel X G dflt c1 e q v own node c' \<Longrightarrow> length (m_node_arena c) \<le> length (m_node_arena c1) \<Longrightarrow>
   m_position c = m_position c1 \<Longrightarrow> node_rel X G dflt c e q v own node c'"
  by (auto simp: node_rel_def)

lemma tree_rel_start:
  assumes "tree_rel X G dflt c1 e res r c'" and "arena_ext {} c c1" and "m_position c = m_position c1"
  shows "tree_rel X G dflt c e res r c'"
  using assms arena_ext_trans [OF assms(2) tree_rel_ext [OF assms(1)]] arena_ext_length [OF assms(2)]
  by (auto simp: tree_rel_def intro: node_rel_start split: option.splits)

text \<open>The steps after a result that touch neither arena nor stack, and at most drop entries.\<close>

lemma tree_rel_end:
  assumes "tree_rel X G dflt c e res r c1" and "m_node_arena c2 = m_node_arena c1" "m_input c2 = m_input c1"
    and "frame_ids c2 = frame_ids c1"
    and "\<And>r p st. memo_lookup r p c2 = Some st \<Longrightarrow> memo_lookup r p c1 = Some st"
  shows "tree_rel X G dflt c e res r c2"
proof -
  have ext: "arena_ext {} c1 c2" by (rule arena_ext_same [OF assms(2,3)])
  have state: "tree_state P Y G dflt c2" if st: "tree_state P Y G dflt c1" for P Y
    by (rule tree_state_step [OF st ext]) (use assms st in \<open>auto simp: tree_state_def\<close>)
  show ?thesis
    using assms(1,4) arena_ext_trans [OF _ ext] state
    by (auto simp: tree_rel_def intro: node_rel_later [OF _ ext] split: option.splits)
qed

subsection \<open>Leaves\<close>

lemma tree_rel_quiet:
  assumes "tree_state (set (frame_ids c)) X G dflt c"
    and "m_node_arena c' = m_node_arena c" "m_input c' = m_input c" "frame_ids c' = frame_ids c" "m_mem c' = m_mem c"
    and "is_void e" and "\<not> pushes_node e" and "res \<noteq> None \<longrightarrow> tree r = None"
  shows "tree_rel X G dflt c e (map_option (\<lambda>q. (q, VoidV, False)) res) r c'"
proof -
  have ext: "arena_ext {} c c'" by (rule arena_ext_same [OF assms(2,3)])
  then have "tree_state (set (frame_ids c')) X G dflt c'"
    using tree_state_keep [OF assms(1) ext] assms(4,5) by simp
  then show ?thesis
    using ext assms(6-8) by (cases res) (auto simp: tree_rel_def node_rel_def busy_def valued_def)
qed

text \<open>A failure.\<close>

lemma tree_rel_fail:
  assumes "tree_state (set (frame_ids c')) X G dflt c'" and "arena_ext {} c c'"
  shows "tree_rel X G dflt c e None r c'"
  using assms by (simp add: tree_rel_def)

text \<open>A success with a new node.\<close>

lemma tree_rel_fresh:
  assumes "tree_state (set (frame_ids c)) X G dflt c" and "arena_ext {} c c'" and "frame_ids c' = frame_ids c"
    and "m_mem c' = m_mem c" and "length (m_node_arena c') = Suc (length (m_node_arena c))"
    and "producer (node_at (length (m_node_arena c)) c') = None" and "\<not> quiet_void e"
    and "valued e \<Longrightarrow> den G dflt c' X e (length (m_node_arena c)) v"
  shows "tree_rel X G dflt c e (Some (q, v, False)) (ok_result (Some (length (m_node_arena c)))) c'"
proof -
  have "tree_state (set (frame_ids c')) (insert (length (m_node_arena c)) X) G dflt c'"
    unfolding assms(3)
    by (rule tree_state_step [OF assms(1,2)]) (use assms in \<open>auto simp: tree_state_def memo_lookup_def\<close>)
  then show ?thesis
    using assms by (auto simp: tree_rel_def node_rel_def busy_def ok_result_def)
qed

end
