(* ===== verification/Tree_Combinators.thy ===== *)
theory Tree_Combinators
  imports Tree_State
begin

text \<open>
  The trees the composite expressions build denote the values of the reference semantics,
  when those of their children do: the proof of \<open>Packrat\<close>, extended by what the nodes of
  the arena denote.
\<close>

subsection \<open>Nodes\<close>

lemma frame_ids_fields [simp]:
  "frame_ids (c\<lparr>m_node_arena := a\<rparr>) = frame_ids c" "frame_ids (c\<lparr>m_position := p\<rparr>) = frame_ids c"
  "frame_ids (c\<lparr>m_cut := k\<rparr>) = frame_ids c" "frame_ids (c\<lparr>m_skip_enabled := b\<rparr>) = frame_ids c"
  by (simp_all add: frame_ids_def)

lemma start_node_raw:
  assumes "start_node c = (n, c1)"
  shows "n = length (m_node_arena c)" "length (m_node_arena c1) = Suc n"
    "node_at n c1 = empty_node\<lparr>start_offset := m_position c\<rparr>" "arena_ext Y c c1" "m_mem c1 = m_mem c"
    "frame_ids c1 = frame_ids c"
proof -
  obtain c0 where c0: "make_node c = (n, c0)" "c1 = upd_node n (\<lambda>n. n\<lparr>start_offset := mark c0\<rparr>) c0"
    using assms by (auto simp: start_node_def Let_def split: prod.splits)
  note n = node_at_make_node [OF c0(1)]
  show "n = length (m_node_arena c)" "length (m_node_arena c1) = Suc n" "m_mem c1 = m_mem c"
      "frame_ids c1 = frame_ids c"
    using n c0 by (auto simp: make_node_def upd_node_def)
  show "node_at n c1 = empty_node\<lparr>start_offset := m_position c\<rparr>"
    using n c0 by (auto simp: node_at_upd_node mark_def make_node_def)
  have "arena_ext {n} c0 c1" unfolding c0(2) by (rule arena_ext_upd) simp
  then show "arena_ext Y c c1"
    using n by (intro arena_ext_fresh [OF arena_ext_make_node [OF c0(1)]]) auto
qed

lemma push_child_node:
  assumes "i < length (m_node_arena c)"
  shows "nd_children (node_at i (push_child i t c)) =
      nd_children (node_at i c) @ (case t of None \<Rightarrow> [] | Some j \<Rightarrow> [Some j])"
    "producer (node_at i (push_child i t c)) = producer (node_at i c)"
  using assms by (auto simp: push_child_def node_at_upd_node split: option.split)

lemma push_child_mem [simp]:
  "m_mem (push_child i t c) = m_mem c" "frame_ids (push_child i t c) = frame_ids c"
  by (auto simp: push_child_def upd_node_def split: option.split)

lemma upd_node_mem [simp]: "m_mem (upd_node i f c) = m_mem c" "frame_ids (upd_node i f c) = frame_ids c"
  by (simp_all add: upd_node_def)

lemma raw_unchanged:
  assumes "arena_ext {} c c'" and "i < length (m_node_arena c)"
  shows "nd_children (node_at i c') = nd_children (node_at i c)" "producer (node_at i c') = producer (node_at i c)"
  using arena_ext_node [OF assms] by (auto simp: same_node_def)

subsection \<open>The children\<close>

locale tree_parsers = packrat_parsers G run skip h
  for G :: "('c, 'v) grammar"
    and run :: "'c expr \<Rightarrow> 'c parser"
    and skip :: "'c ctx \<Rightarrow> ('c, unit) parse_outcome"
    and h :: nat +
  fixes dflt :: 'v
  assumes run_tree: "wf_expr G e \<Longrightarrow> sound G c \<Longrightarrow> pending h G c \<Longrightarrow>
      tree_state (set (frame_ids c)) X G dflt c \<Longrightarrow>
      sem h G dflt (m_input c) e (m_position c) = Some res \<Longrightarrow>
      post (run e c) (tree_rel X G dflt c e res) no_throw"
begin

lemma run_both:
  assumes "wf_expr G e" "sound G c" "pending h G c" "tree_state (set (frame_ids c)) X G dflt c"
    and "sem h G dflt (m_input c) e (m_position c) = Some res"
  shows "post (run e c) (\<lambda>r c'. good G c (ends res) r c' \<and> tree_rel X G dflt c e res r c') no_throw"
  by (intro post_conj [OF run_good run_tree] assms sem_ev [OF assms(5)])

text \<open>What a child adds to the node \<open>i\<close> under construction.\<close>

lemma child_pushed:
  assumes "good G c (ends (Some (q, v, own))) r c2" and "tree_rel X G dflt c e (Some (q, v, own)) r c2"
    and "pending h G c" and "i \<in> X" "i < length (m_node_arena c)" "producer (node_at i c) = None"
  defines "c3 \<equiv> push_child i (tree r) c2"
  shows "sound G c3" "pending h G c3" "m_input c3 = m_input c" "m_position c3 = q"
    "tree_state (set (frame_ids c3)) X G dflt c3" "arena_ext {i} c c3" "producer (node_at i c3) = None"
    "nd_children (node_at i c3) = nd_children (node_at i c) @ (case tree r of None \<Rightarrow> [] | Some t \<Rightarrow> [Some t])"
    "valued e \<Longrightarrow> \<exists>t. tree r = Some t \<and> den G dflt c3 X e t v"
proof -
  have s: "step_rel G c c2" "step_rel G c2 c3"
    using assms(1) by (auto simp: c3_def ret_rel_def step_push_child sound_wf)
  show "sound G c3" "pending h G c3" "m_input c3 = m_input c" "m_position c3 = q"
    using assms(1,3) step_input [OF s(1)] step_input [OF s(2)] pending_step [OF pending_step [OF assms(3) s(1)] s(2)]
    by (auto simp: c3_def sound_inv.keeps_push_child agrees_def)
  have ext: "arena_ext {} c c2" by (rule tree_rel_ext [OF assms(2)])
  have ext3: "arena_ext {i} c2 c3" unfolding c3_def by (rule arena_ext_push_child) simp
  show "arena_ext {i} c c3"
    by (rule arena_ext_trans [OF arena_ext_mono [OF ext] ext3]) simp
  show "tree_state (set (frame_ids c3)) X G dflt c3"
    using tree_state_keep [OF tree_rel_state [OF assms(2)] ext3] assms(4) by (simp add: c3_def)
  have i: "i < length (m_node_arena c2)"
    using assms(5) arena_ext_length [OF ext] by simp
  show "producer (node_at i c3) = None"
    "nd_children (node_at i c3) = nd_children (node_at i c) @ (case tree r of None \<Rightarrow> [] | Some t \<Rightarrow> [Some t])"
    using push_child_node [OF i] raw_unchanged [OF ext assms(5)] assms(6) by (simp_all add: c3_def)
  show "\<exists>t. tree r = Some t \<and> den G dflt c3 X e t v" if val: "valued e"
  proof -
    obtain t where "tree r = Some t" "den G dflt c2 X e t v"
      using assms(2) val by (auto simp: tree_rel_def node_rel_def)
    then show ?thesis
      using den_ext [OF _ ext3, of G dflt X e t v] assms(4) by simp
  qed
qed

end

subsection \<open>Sequence\<close>

definition seq_rel ::
  "nat set \<Rightarrow> ('c, 'v) grammar \<Rightarrow> 'v \<Rightarrow> nat \<Rightarrow> 'c ctx \<Rightarrow> 'c expr list \<Rightarrow> (nat \<times> ('c, 'v) tval list) option \<Rightarrow> 'c ctx \<Rightarrow> bool" where
  "seq_rel X G dflt i c es res c' \<longleftrightarrow>
     arena_ext {i} c c' \<and> tree_state (set (frame_ids c')) X G dflt c' \<and> producer (node_at i c') = None \<and>
     (\<forall>q vs. res = Some (q, vs) \<longrightarrow> seq_valued es \<longrightarrow>
        (\<exists>ts. nd_children (node_at i c') = nd_children (node_at i c) @ ts \<and> den_seq G dflt c' X es ts vs))"

lemma seq_rel_Cons:
  assumes "seq_rel X G dflt i c3 es res c'" and "arena_ext {i} c c3" and "i \<in> X"
    and "nd_children (node_at i c3) = nd_children (node_at i c) @ (case node of None \<Rightarrow> [] | Some t \<Rightarrow> [Some t])"
    and "valued e \<Longrightarrow> \<exists>t. node = Some t \<and> den G dflt c3 X e t v"
    and "pushes_node e \<Longrightarrow> node \<noteq> None" "quiet_void e \<Longrightarrow> node = None"
  shows "seq_rel X G dflt i c (e # es) (map_option (\<lambda>(q, vs). (q, if is_void e then vs else v # vs)) res) c'"
proof -
  have "\<exists>ts. nd_children (node_at i c') = nd_children (node_at i c) @ ts \<and>
      den_seq G dflt c' X (e # es) ts (if is_void e then vs else v # vs)"
    if r: "res = Some (q, vs)" and all: "seq_valued (e # es)" for q vs
  proof -
    obtain ts where ts: "nd_children (node_at i c') = nd_children (node_at i c3) @ ts" "den_seq G dflt c' X es ts vs"
      using assms(1) r all by (auto simp: seq_rel_def seq_valued_def)
    show ?thesis
    proof (cases "valued e")
      case True
      then obtain t where t: "node = Some t" "den G dflt c3 X e t v" using assms(5) by blast
      have "den G dflt c' X e t v"
        using assms(1,3) by (intro den_ext [OF t(2), of "{i}"]) (auto simp: seq_rel_def)
      then show ?thesis
        using True ts t(1) assms(4) by (auto simp: valued_def intro: den_intros)
    next
      case False
      then show ?thesis
        using all ts assms(4,6,7)
        by (cases "pushes_node e") (auto simp: seq_valued_def intro: den_intros split: option.splits)
    qed
  qed
  then show ?thesis
    using assms(1) arena_ext_trans [OF assms(2)] by (auto simp: seq_rel_def)
qed

context tree_parsers
begin

lemma parse_seq_tree:
  assumes "list_all (wf_expr G) es" "sound G c" "pending h G c" "tree_state (set (frame_ids c)) X G dflt c"
    and "i \<in> X" "producer (node_at i c) = None"
    and "sem_seq (sem h G dflt (m_input c)) es (m_position c) = Some res"
  shows "post (parse_seq run skip i k es c) (\<lambda>_. seq_rel X G dflt i c es res) no_throw"
  using assms
proof (induction es arbitrary: c k res)
  case Nil
  then show ?case by (auto simp: seq_rel_def intro: den_intros)
next
  case (Cons e es)
  have idle: "(if k > 0 then skip c else Ret () c) = Ret () c"
    using skip_idle [OF sound_skipper [OF Cons.prems(2)]] by simp
  obtain re where re: "sem h G dflt (m_input c) e (m_position c) = Some re"
    using Cons.prems(7) by (auto split: option.splits)
  have run: "post (run e c) (\<lambda>r c'. good G c (ends re) r c' \<and> tree_rel X G dflt c e re r c') no_throw"
    using Cons.prems by (intro run_both re) auto
  have i: "i < length (m_node_arena c)"
    by (rule tree_state_open [OF Cons.prems(4,5)])
  show ?case
    unfolding parse_seq.simps idle bind_o.simps
  proof (rule post_bindI [OF run])
    fix r c2 assume c2: "good G c (ends re) r c2 \<and> tree_rel X G dflt c e re r c2"
    show "post (if success r then parse_seq run skip i (Suc k) es (push_child i (tree r) c2) else Ret False c2)
      (\<lambda>_. seq_rel X G dflt i c (e # es) res) no_throw"
    proof (cases re)
      case None
      have ext: "arena_ext {} c c2" by (rule tree_rel_ext [OF conjunct2 [OF c2]])
      then show ?thesis
        using None c2 re Cons.prems(6,7) arena_ext_mono [OF ext, of "{i}"] raw_unchanged [OF ext i]
          tree_rel_state [OF conjunct2 [OF c2]]
        by (auto simp: agrees_def seq_rel_def)
    next
      case (Some x)
      obtain q v own where x: "x = (q, v, own)" by (cases x)
      let ?c3 = "push_child i (tree r) c2"
      note p = child_pushed [OF _ _ Cons.prems(3,5) i Cons.prems(6), of q v own r c2 e]
      obtain res' where res': "sem_seq (sem h G dflt (m_input c)) es q = Some res'"
          "res = map_option (\<lambda>(q', vs). (q', if is_void e then vs else v # vs)) res'"
        using Cons.prems(7) re Some x by auto
      have "post (parse_seq run skip i (Suc k) es ?c3) (\<lambda>_. seq_rel X G dflt i ?c3 es res') no_throw"
        using Cons.prems(1,5) p c2 Some x res'(1) by (intro Cons.IH) simp_all
      moreover have "seq_rel X G dflt i c (e # es) res c'" if "seq_rel X G dflt i ?c3 es res' c'" for c'
        unfolding res'(2)
      proof (rule seq_rel_Cons [OF that _ Cons.prems(5)])
        show "pushes_node e \<Longrightarrow> tree r \<noteq> None" "quiet_void e \<Longrightarrow> tree r = None"
          using c2 Some x by (simp_all add: tree_rel_def node_rel_def)
      qed (use p c2 Some x in simp_all)
      moreover have "success r" using c2 Some by (simp add: agrees_def)
      ultimately show ?thesis by (auto elim: post_mono)
    qed
  qed
qed

lemma sequence_tree:
  assumes "list_all (wf_expr G) es" "sound G c" "pending h G c" "tree_state (set (frame_ids c)) X G dflt c"
    and "sem_seq (sem h G dflt (m_input c)) es (m_position c) = Some res"
  shows "post (sequence_parse run skip es c)
    (tree_rel X G dflt c (SequenceExpr es) (map_option (\<lambda>(q, vs). (q, collapse_value vs, False)) res)) no_throw"
proof -
  obtain n c1 where sn: "start_node c = (n, c1)" by (cases "start_node c")
  note raw = start_node_raw [OF sn]
  have s: "step_rel G c c1" and same: "m_position c1 = m_position c" and c1: "sound G c1"
    using start_node_step [OF sound_wf [OF assms(2)] sn] sound_inv.keeps_start_node [OF assms(2) sn] by auto
  have n: "n \<notin> X" using assms(4) raw(1) by (auto simp: tree_state_def)
  have st: "tree_state (set (frame_ids c1)) (insert n X) G dflt c1"
    unfolding raw(6)
    by (rule tree_state_step [OF assms(4) raw(4), of "{}"])
       (use raw assms(4) in \<open>auto simp: memo_lookup_def tree_state_def\<close>)
  have seq: "post (parse_seq run skip n 0 es c1) (\<lambda>ok c'. seq_rel (insert n X) G dflt n c1 es res c' \<and>
      ((sound G c' \<and> pending h G c') \<and> ok = (ends res \<noteq> None) \<and> (\<forall>q. ends res = Some q \<longrightarrow> m_position c' = q))) no_throw"
    using assms(5) same step_input [OF s] raw(3) sem_seq_ev [of "sem h G dflt (m_input c)" "ev h G (m_input c)" es _ res]
    by (intro post_conj [OF parse_seq_tree agr.parse_seq_agrees] conjI [OF c1 pending_step [OF assms(3) s]] assms(1) c1
          pending_step [OF assms(3) s] st) (simp_all add: empty_node_def sem_ev)
  show ?thesis
    unfolding sequence_parse_def Let_def sn prod.case
  proof (rule post_bindI [OF seq])
    fix ok c2
    assume c2: "seq_rel (insert n X) G dflt n c1 es res c2 \<and>
      ((sound G c2 \<and> pending h G c2) \<and> ok = (ends res \<noteq> None) \<and> (\<forall>q. ends res = Some q \<longrightarrow> m_position c2 = q))"
    have ext: "arena_ext {} c c2"
      using c2 raw(1) by (intro arena_ext_fresh [OF raw(4), of "{n}"]) (auto simp: seq_rel_def)
    have state: "tree_state (set (frame_ids c2)) (insert n X) G dflt c2"
      using c2 by (simp add: seq_rel_def)
    show "post (if ok then Ret (ok_result (Some n)) (upd_node n (\<lambda>n. n\<lparr>end_offset := mark c2\<rparr>) c2)
        else Ret null_result (set_state (m_position c) c2))
      (tree_rel X G dflt c (SequenceExpr es) (map_option (\<lambda>(q, vs). (q, collapse_value vs, False)) res)) no_throw"
    proof (cases res)
      case None
      have "tree_state (set (frame_ids (set_state p c2))) X G dflt (set_state p c2)" for p
        using tree_state_keep [OF tree_state_less [OF state, of X] arena_ext_same [of "set_state p c2"], of "{}"]
        by (auto simp: set_state_def)
      moreover have "arena_ext {} c (set_state p c2)" for p
        by (rule arena_ext_trans [OF ext arena_ext_same]) (simp_all add: set_state_def)
      ultimately show ?thesis
        using None c2 by (auto intro: tree_rel_fail)
    next
      case (Some x)
      obtain q vs where x: "x = (q, vs)" by (cases x)
      let ?c3 = "upd_node n (\<lambda>n. n\<lparr>end_offset := mark c2\<rparr>) c2"
      have n2: "n < length (m_node_arena c2)" by (rule tree_state_open [OF state]) simp
      have ext3: "arena_ext {n} c2 ?c3" by (rule arena_ext_upd) simp
      have raw3: "raw_node ?c3 X n"
        using c2 n n2 by (auto simp: raw_node_def node_at_upd_node seq_rel_def)
      have "den G dflt ?c3 X (SequenceExpr es) n (collapse_value vs)" if v: "valued (SequenceExpr es)"
      proof -
        have "den_seq G dflt c2 (insert n X) es (nd_children (node_at n c2)) vs"
          using c2 valued_sequence [OF v] Some x raw(3) by (auto simp: seq_rel_def empty_node_def)
        then have "den_seq G dflt ?c3 (insert n X) es (nd_children (node_at n c2)) vs"
          by (rule den_seq_ext [OF _ ext3]) simp
        then show ?thesis
          using n2 by (intro den_intros(6) raw3) (simp add: node_at_upd_node)
      qed
      moreover have "arena_ext {} c ?c3"
        using raw(1) by (intro arena_ext_fresh [OF ext ext3]) auto
      moreover have "tree_state (set (frame_ids ?c3)) (insert n X) G dflt ?c3"
        using tree_state_keep [OF state ext3] by simp
      ultimately show ?thesis
        using Some x c2 raw3 raw(1) by (auto simp: tree_rel_def node_rel_def busy_def ok_result_def raw_node_def)
    qed
  qed
qed

end

subsection \<open>Alternation\<close>

lemma sem_own:
  "sem n G dflt input e p = Some (Some (q, v, own)) \<Longrightarrow> rule_like e \<Longrightarrow> own"
proof (induction e arbitrary: n rule: rule_like.induct)
  case (1 r)
  then show ?case by (cases n) (auto split: option.splits if_splits)
next
  case (2 e)
  then show ?case by (cases n) auto
qed simp_all

lemma sem_raw:
  "sem n G dflt input e p = Some (Some (q, v, own)) \<Longrightarrow> raw_maker e \<Longrightarrow> \<not> own"
proof -
  have rep: "sem_rep m run wrap lo hi p = Some (Some (q, v, own)) \<Longrightarrow> \<not> own" for m run wrap lo and hi :: int
    by (auto simp: sem_rep_def split: if_splits)
  show "sem n G dflt input e p = Some (Some (q, v, own)) \<Longrightarrow> raw_maker e \<Longrightarrow> \<not> own"
  proof (induction e arbitrary: n rule: raw_maker.induct)
    case (1 a)
    then show ?case by (cases n) auto
  next
    case (2 es)
    then show ?case by (cases n) auto
  next
    case (3 e)
    then show ?case by (cases n) (auto dest: rep)
  next
    case (4 e)
    then show ?case by (cases n) (auto dest: rep)
  next
    case (5 e k)
    then show ?case by (cases n) (auto dest: rep)
  next
    case (6 e)
    then show ?case by (cases n) (auto dest: rep)
  next
    case (7 e)
    then show ?case by (cases n) auto
  qed simp_all
qed

text \<open>The stamp of the branch that matched.\<close>

definition stamp :: "nat \<Rightarrow> node_ref \<Rightarrow> 'c ctx \<Rightarrow> 'c ctx" where
  "stamp i node c = (case node of None \<Rightarrow> c | Some t \<Rightarrow> upd_node t (\<lambda>n. n\<lparr>alt_winner := Some i\<rparr>) c)"

lemma stamp_fields [simp]: "m_mem (stamp i t c) = m_mem c" "frame_ids (stamp i t c) = frame_ids c"
  by (auto simp: stamp_def split: option.split)

lemma stamp_tree:
  assumes "tree_rel X G dflt c e (Some (q, v, own)) r c1" and "i < length es" "es ! i = e"
    and "rule_like e \<Longrightarrow> own" "raw_maker e \<Longrightarrow> \<not> own"
  shows "tree_rel X G dflt c (AlternationExpr es) (Some (q, v, own)) r (stamp i (tree r) c1)"
proof -
  let ?c = "stamp i (tree r) c1"
  have ext: "arena_ext {} c c1" and state: "tree_state (set (frame_ids c1)) (busy X own (tree r)) G dflt c1"
    and node: "node_rel X G dflt c e q v own (tree r) c1"
    using assms(1) by (auto simp: tree_rel_def)
  have e: "e \<in> set es" using assms(2,3) nth_mem by blast
  show ?thesis
  proof (cases own)
    case True
    then obtain t w where t: "tree r = Some t" "v = NodeV w" "den_rule G dflt c1 X t w"
      using node by (auto simp: node_rel_def)
    have ext1: "arena_ext {} c1 ?c"
      using den_node(4) [OF t(3)] by (auto simp: stamp_def t(1) same_node_def intro: arena_ext_upd)
    have "node_rel X G dflt c e q v own (tree r) ?c"
      by (rule node_rel_later [OF node ext1]) auto
    moreover have "den G dflt ?c X (AlternationExpr es) t v" if "valued (AlternationExpr es)"
    proof -
      have "list_all rule_like es"
        using that e True assms(5) by (auto simp: valued_def list_all_iff)
      then show ?thesis
        using e den_rule_ext [OF t(3) ext1] unfolding t(2) by (intro den_intros(4)) auto
    qed
    moreover have "tree_state (set (frame_ids ?c)) (busy X own (tree r)) G dflt ?c"
      using tree_state_keep [OF state ext1] by simp
    ultimately show ?thesis
      using arena_ext_trans [OF ext ext1] t(1) e
      by (auto simp: tree_rel_def node_rel_def list_all_iff)
  next
    case False
    show ?thesis
    proof (cases "tree r")
      case None
      then show ?thesis
        using assms(1) False e valued_alternation [OF _ e]
        by (auto simp: tree_rel_def node_rel_def stamp_def)
    next
      case (Some t)
      have fresh: "length (m_node_arena c) \<le> t" "t < length (m_node_arena c1)" "producer (node_at t c1) = None"
        using node False Some by (auto simp: node_rel_def)
      have c: "?c = upd_node t (\<lambda>n. n\<lparr>alt_winner := Some i\<rparr>) c1"
        by (simp add: stamp_def Some)
      have fresh1: "t < length (m_node_arena ?c)" "producer (node_at t ?c) = None"
        using fresh unfolding c by (simp_all add: node_at_upd_node)
      have ext1: "arena_ext {t} c1 ?c" unfolding c by (rule arena_ext_upd) simp
      have ext2: "arena_ext {} c ?c"
        by (rule arena_ext_fresh [OF ext ext1]) (use fresh in auto)
      have "tree_state (set (frame_ids ?c)) (busy X own (tree r)) G dflt ?c"
        using tree_state_keep [OF state ext1] False Some by (simp add: busy_def)
      moreover have "den G dflt ?c X (AlternationExpr es) t v" if val: "valued (AlternationExpr es)"
      proof -
        have d: "den G dflt c1 X e t v"
          using node valued_alternation [OF val e] Some by (simp add: node_rel_def)
        have "raw_maker e"
          using val e False assms(4) by (auto simp: valued_def list_all_iff)
        moreover have raw: "raw_node c1 X t"
          using den_node(1) [OF d] fresh by (simp add: raw_node_def)
        ultimately have "den G dflt ?c X e t v"
          unfolding c by (intro den_stamp d)
        moreover have "alt_winner (node_at t ?c) = Some i" "raw_node ?c X t"
          using raw by (auto simp: c node_at_upd_node raw_node_def)
        ultimately show ?thesis
          by (intro den_intros(3) [OF _ assms(2)]) (simp_all only: assms(3))
      qed
      ultimately show ?thesis
        using ext2 fresh fresh1 False Some e node
        by (auto simp: tree_rel_def node_rel_def list_all_iff)
    qed
  qed
qed

context tree_parsers
begin

lemma parse_alt_tree:
  assumes "list_all (wf_expr G) es" "sound G c" "pending h G c" "tree_state (set (frame_ids c)) X G dflt c"
    and "sem_alt (sem h G dflt (m_input c)) es (m_position c) = Some res" and "all = pre @ es" "i = length pre"
  shows "post (parse_alt run i es c) (tree_rel X G dflt c (AlternationExpr all) res) no_throw"
  using assms
proof (induction es arbitrary: i c pre)
  case Nil
  then show ?case by (auto intro: tree_rel_fail)
next
  case (Cons e es)
  obtain re where re: "sem h G dflt (m_input c) e (m_position c) = Some re"
    using Cons.prems(5) by (auto split: option.splits)
  have run: "post (run e c) (\<lambda>r c'. good G c (ends re) r c' \<and> tree_rel X G dflt c e re r c') no_throw"
    using Cons.prems by (intro run_both re) auto
  show ?case
    unfolding parse_alt.simps
  proof (rule post_bindI [OF run])
    fix r c1 assume c1: "good G c (ends re) r c1 \<and> tree_rel X G dflt c e re r c1"
    have "\<not> get_cut c1"
      using c1 no_cuts_get_cut sound_uncut by blast
    moreover have "post (parse_alt run (Suc i) es c1) (tree_rel X G dflt c (AlternationExpr all) res) no_throw"
      if "re = None"
    proof -
      have s: "step_rel G c c1" "m_position c1 = m_position c"
        using c1 that by (auto simp: ret_rel_def agrees_def)
      have "post (parse_alt run (Suc i) es c1) (tree_rel X G dflt c1 (AlternationExpr all) res) no_throw"
        using Cons.prems c1 re that s step_input [OF s(1)] pending_step [OF Cons.prems(3) s(1)]
          tree_rel_state [OF conjunct2 [OF c1]]
        by (intro Cons.IH [of c1 "pre @ [e]"]) auto
      then show ?thesis
        by (rule post_mono) (use tree_rel_start [OF _ tree_rel_ext [OF conjunct2 [OF c1]]] s(2) in auto)
    qed
    moreover have "tree_rel X G dflt c (AlternationExpr all) re r (stamp i (tree r) c1)" if "re \<noteq> None"
    proof -
      obtain q v own where x: "re = Some (q, v, own)" using \<open>re \<noteq> None\<close> by auto
      show ?thesis
        using c1 re Cons.prems(6,7) unfolding x
        by (intro stamp_tree [where e = e]) (auto intro: sem_own dest: sem_raw)
    qed
    ultimately show "post (if success r then Ret r (case tree r of None \<Rightarrow> c1
         | Some t \<Rightarrow> upd_node t (\<lambda>n. n\<lparr>alt_winner := Some i\<rparr>) c1)
         else if get_cut c1 then Throw (cut_error c1) c1 else parse_alt run (Suc i) es c1)
        (tree_rel X G dflt c (AlternationExpr all) res) no_throw"
      using c1 re Cons.prems(5) by (cases re) (auto simp: agrees_def stamp_def)
  qed
qed

lemma cut_scope_tree:
  assumes "post (m (init_cut c)) (\<lambda>r s. sound G s \<and> ret_rel G (init_cut c) r s \<and> tree_rel X G dflt (init_cut c) e res r s)
      no_throw"
  shows "post (scope_guard remove_cut (m (init_cut c))) (tree_rel X G dflt c e res) no_throw"
proof (rule post_guard, rule post_mono [OF assms])
  fix r s assume s: "sound G s \<and> ret_rel G (init_cut c) r s \<and> tree_rel X G dflt (init_cut c) e res r s"
  then have "length (m_cut s) = length (m_cut (init_cut c))"
    by (auto simp: ret_rel_def step_rel_def same_env_def)
  then obtain k rest where cut: "m_cut s = k # rest"
    by (cases "m_cut s") (auto simp: init_cut_def)
  have "tree_rel X G dflt c e res r s"
    by (rule tree_rel_start [of X G dflt "init_cut c"])
       (use s in \<open>simp_all add: arena_ext_same init_cut_def\<close>)
  then have "tree_rel X G dflt c e res r (s\<lparr>m_cut := rest\<rparr>)"
    by (rule tree_rel_end) simp_all
  then show "post (remove_cut s) (\<lambda>_. tree_rel X G dflt c e res r) (\<lambda>_ _. False)"
    using s no_cuts_get_cut sound_uncut by (auto simp: remove_cut_def cut Let_def)
qed simp

lemma init_cut_tree: "tree_state P X G dflt c \<Longrightarrow> tree_state P X G dflt (init_cut c)"
  by (rule tree_state_keep [of _ _ _ _ _ "{}"]) (auto simp: init_cut_def intro: arena_ext_same)

lemma alternation_tree:
  assumes "list_all (wf_expr G) es" "sound G c" "pending h G c" "tree_state (set (frame_ids c)) X G dflt c"
    and "sem_alt (sem h G dflt (m_input c)) es (m_position c) = Some res"
  shows "post (alternation_parse run es c) (tree_rel X G dflt c (AlternationExpr es) res) no_throw"
proof -
  have ev: "ev_alt (ev h G (m_input c)) es (m_position c) = Some (ends res)"
    using assms(5) by (rule sem_alt_ev [rotated]) (rule sem_ev)
  have ic: "sound G (init_cut c)" by (rule sound_inv.keeps_init_cut [OF assms(2)])
  have good: "post (parse_alt run 0 es (init_cut c)) (\<lambda>r s. agrees (ends res) r s \<and> sound G s \<and> pending h G s) no_throw"
    using assms ev engine_inv.keeps_init_cut [of G c h] by (intro agr.parse_alt_agrees) simp_all
  have tree: "post (parse_alt run 0 es (init_cut c)) (tree_rel X G dflt (init_cut c) (AlternationExpr es) res) no_throw"
    using assms ic init_cut_tree [OF assms(4)]
    by (intro parse_alt_tree [of es _ _ _ _ "[]"]) (simp_all add: init_cut_def frame_ids_def pending_def)
  have contract: "post (parse_alt run 0 es (init_cut c)) (ret_rel G (init_cut c)) (throw_rel G (init_cut c))"
    by (intro parse_alt_contract assms(1) sound_wf ic)
  show ?thesis
    unfolding alternation_parse_def
    by (rule cut_scope_tree, rule post_mono [OF post_conj [OF good post_conj [OF tree contract]]]) auto
qed

end

subsection \<open>Repetition\<close>

definition rep_rel ::
  "nat set \<Rightarrow> ('c, 'v) grammar \<Rightarrow> 'v \<Rightarrow> nat \<Rightarrow> 'c ctx \<Rightarrow> 'c expr \<Rightarrow> nat \<Rightarrow> ('c, 'v) tval list \<Rightarrow> nat \<Rightarrow> 'c ctx \<Rightarrow> bool" where
  "rep_rel X G dflt i c a k vs count c' \<longleftrightarrow>
     arena_ext {i} c c' \<and> tree_state (set (frame_ids c')) X G dflt c' \<and> producer (node_at i c') = None \<and>
     (valued a \<longrightarrow> (\<exists>ts. nd_children (node_at i c') = nd_children (node_at i c) @ ts \<and>
        den_list G dflt c' X a ts vs \<and> count = k + length ts))"

lemma rep_rel_Nil:
  "arena_ext {} c c' \<Longrightarrow> tree_state (set (frame_ids c')) X G dflt c' \<Longrightarrow> i < length (m_node_arena c) \<Longrightarrow>
   producer (node_at i c) = None \<Longrightarrow> rep_rel X G dflt i c a k [] k c'"
  using raw_unchanged [of c c' i] by (auto simp: rep_rel_def intro: den_intros arena_ext_mono)

lemma rep_rel_Cons:
  assumes "rep_rel X G dflt i c3 a (Suc k) vs count c'" and "arena_ext {i} c c3" and "i \<in> X"
    and "nd_children (node_at i c3) = nd_children (node_at i c) @ (case node of None \<Rightarrow> [] | Some t \<Rightarrow> [Some t])"
    and "valued a \<Longrightarrow> \<exists>t. node = Some t \<and> den G dflt c3 X a t v"
  shows "rep_rel X G dflt i c a k (v # vs) count c'"
proof -
  have "\<exists>ts. nd_children (node_at i c') = nd_children (node_at i c) @ ts \<and>
      den_list G dflt c' X a ts (v # vs) \<and> count = k + length ts" if val: "valued a"
  proof -
    obtain ts where ts: "nd_children (node_at i c') = nd_children (node_at i c3) @ ts" "den_list G dflt c' X a ts vs"
        "count = Suc k + length ts"
      using assms(1) val by (auto simp: rep_rel_def)
    obtain t where t: "node = Some t" "den G dflt c3 X a t v" using assms(5) val by blast
    have "den G dflt c' X a t v"
      using assms(1,3) by (intro den_ext [OF t(2), of "{i}"]) (auto simp: rep_rel_def)
    then show ?thesis
      using ts t(1) assms(4) by (intro exI [of _ "Some t # ts"]) (auto intro: den_intros)
  qed
  then show ?thesis
    using assms(1) arena_ext_trans [OF assms(2)] by (auto simp: rep_rel_def)
qed

lemma resize_length: "length xs = n \<Longrightarrow> resize n xs = xs"
  by (simp add: resize_def)

context tree_parsers
begin

lemma rep_loop_tree:
  assumes e: "wf_expr G e"
    and "sound G c" "pending h G c" "tree_state (set (frame_ids c)) X G dflt c"
    and "i \<in> X" "producer (node_at i c) = None"
    and "sem_loop m (sem h G dflt (m_input c) e) max_rep k (m_position c) = Some (k', q, vs)"
  shows "post (rep_loop n (run e) skip max_rep i k lpos c) (\<lambda>x. rep_rel X G dflt i c e k vs (fst x)) no_throw"
  using assms(2-)
proof (induction n arbitrary: c k lpos m vs)
  case 0
  then show ?case by simp
next
  case (Suc n)
  obtain m' where m: "m = Suc m'" using Suc.prems(6) by (cases m) auto
  have idle: "(if k > 0 then skip c else Ret () c) = Ret () c"
    using skip_idle [OF sound_skipper [OF Suc.prems(1)]] by simp
  obtain re where re: "sem h G dflt (m_input c) e (m_position c) = Some re"
    using Suc.prems(6) m by (auto split: option.splits)
  let ?c1 = "set_cut False c"
  have same: "m_node_arena ?c1 = m_node_arena c" "m_input ?c1 = m_input c" "frame_ids ?c1 = frame_ids c"
      "m_mem ?c1 = m_mem c" "m_position ?c1 = m_position c" "node_at i ?c1 = node_at i c"
    by (simp_all add: set_cut_def frame_ids_def node_at_def split: list.split)
  have ext1: "arena_ext Y c ?c1" for Y by (rule arena_ext_same [OF same(1,2)])
  have s1: "step_rel G c ?c1" "sound G ?c1"
    using Suc.prems(1) step_set_cut [OF sound_wf] sound_inv.keeps_set_cut by blast+
  have st1: "tree_state (set (frame_ids ?c1)) X G dflt ?c1"
    using tree_state_keep [OF Suc.prems(3) ext1 [of "{}"]] same by simp
  have pend1: "pending h G ?c1" by (rule pending_step [OF Suc.prems(2) s1(1)])
  have run: "post (run e ?c1) (\<lambda>r c'. good G ?c1 (ends re) r c' \<and> tree_rel X G dflt ?c1 e re r c') no_throw"
    using re same by (intro run_both e s1 pend1 st1) simp
  have i: "i < length (m_node_arena c)"
    by (rule tree_state_open [OF Suc.prems(3,4)])
  show ?case
    unfolding rep_loop.simps idle bind_o.simps Let_def
  proof (rule post_bindI [OF run])
    fix r c2 assume c2: "good G ?c1 (ends re) r c2 \<and> tree_rel X G dflt ?c1 e re r c2"
    let ?c3 = "push_child i (tree r) c2"
    show "post (if success r then
            if max_rep > 0 \<and> int (k + 1) \<ge> max_rep then Ret (k + 1, m_position c2, False) ?c3
            else if m_position ?c3 = m_position c then Ret (k + 1, m_position c2, False) ?c3
            else rep_loop n (run e) skip max_rep i (k + 1) (m_position c2) ?c3
          else Ret (k, lpos, True) c2) (\<lambda>x. rep_rel X G dflt i c e k vs (fst x)) no_throw"
    proof (cases re)
      case None
      have ext: "arena_ext {} c c2"
        by (rule arena_ext_trans [OF ext1 tree_rel_ext [OF conjunct2 [OF c2]]])
      then show ?thesis
        using None c2 re m Suc.prems(5,6) tree_rel_state [OF conjunct2 [OF c2]] i
        by (auto simp: agrees_def intro: rep_rel_Nil)
    next
      case (Some x)
      obtain q1 v own where x: "x = (q1, v, own)" by (cases x)
      note p = child_pushed [OF _ _ pend1 Suc.prems(4), of q1 v own r c2 e]
      have c3: "sound G ?c3" "pending h G ?c3" "m_input ?c3 = m_input c" "m_position ?c3 = q1"
          "tree_state (set (frame_ids ?c3)) X G dflt ?c3" "producer (node_at i ?c3) = None"
          "nd_children (node_at i ?c3) = nd_children (node_at i c) @ (case tree r of None \<Rightarrow> [] | Some t \<Rightarrow> [Some t])"
        and ext3: "arena_ext {i} ?c1 ?c3"
        and val: "valued e \<Longrightarrow> \<exists>t. tree r = Some t \<and> den G dflt ?c3 X e t v"
        using p c2 Some x i Suc.prems(5) same by simp_all
      have ext: "arena_ext {i} c ?c3" by (rule arena_ext_trans [OF ext1 ext3])
      have r: "success r" "m_position c2 = q1" using c2 Some x by (simp_all add: agrees_def)
      have last: "rep_rel X G dflt i c e k [v] (Suc k) ?c3"
        using c3(5,6) tree_state_open [OF c3(5) Suc.prems(4)]
        by (intro rep_rel_Cons [OF rep_rel_Nil ext Suc.prems(4) c3(7) val]) simp_all
      have more: "post (rep_loop n (run e) skip max_rep i (k + 1) q1 ?c3) (\<lambda>x. rep_rel X G dflt i c e k vs (fst x)) no_throw"
        if loop: "sem_loop m' (sem h G dflt (m_input c) e) max_rep (k + 1) q1 = Some (k', q, vs')" "vs = v # vs'" for vs'
      proof -
        have "post (rep_loop n (run e) skip max_rep i (k + 1) q1 ?c3) (\<lambda>x. rep_rel X G dflt i ?c3 e (k + 1) vs' (fst x)) no_throw"
          using loop(1) c3 Suc.prems(4) by (intro Suc.IH) simp_all
        then show ?thesis
          unfolding loop(2)
          by (rule post_mono) (simp_all add: rep_rel_Cons [OF _ ext Suc.prems(4) c3(7) val])
      qed
      show ?thesis
        using Suc.prems(6) r re Some x m last more c3(4) by (auto split: if_splits)
    qed
  qed
qed

lemma rep_finish_tree:
  assumes "sound G c2" and rel: "rep_rel (insert n X) G dflt n c1 a 0 vs count c2" and n: "n \<notin> X" "n < length (m_node_arena c2)"
    and "arena_ext {} c c2" "length (m_node_arena c) \<le> n" "nd_children (node_at n c1) = []"
    and wrap: "valued e \<Longrightarrow> rep_child e = Some (a, wrap') \<and> wv = wrap' vs" and "\<not> quiet_void e" "\<not> pushes_node e"
    and "init \<le> input_size c2" "q \<le> input_size c2"
  shows "post (rep_finish min_rep max_rep n init (count, q, failed) c2)
    (tree_rel X G dflt c e (if count < min_rep then None else Some (q, wv, False))) no_throw"
proof -
  have state: "tree_state (set (frame_ids c2)) (insert n X) G dflt c2"
    using rel by (simp add: rep_rel_def)
  have pos: "arena_ext Y c2 (set_state p c2)" "tree_state (set (frame_ids (set_state p c2))) (insert n X) G dflt (set_state p c2)"
    for Y p
    using tree_state_keep [OF state arena_ext_same [of "set_state p c2"], of "{}"]
    by (auto simp: set_state_def intro: arena_ext_same)
  have fail: "tree_rel X G dflt c e None null_result (set_state init c2)"
    by (intro tree_rel_fail tree_state_less [OF pos(2)] arena_ext_trans [OF assms(5) pos(1)]) auto
  define c3 where "c3 = (if failed then upd_node n (\<lambda>n. n\<lparr>nd_children := resize count (nd_children n)\<rparr>) (set_state q c2) else c2)"
  define c4 where "c4 = upd_node n (\<lambda>n. n\<lparr>end_offset := mark c3\<rparr>) c3"
  have ext3: "arena_ext {n} c2 c3"
    using arena_ext_trans [OF pos(1) arena_ext_upd, of n "{n}"] by (simp add: c3_def)
  have ext4: "arena_ext {n} c2 c4"
    unfolding c4_def by (rule arena_ext_trans [OF ext3 arena_ext_upd]) simp
  have state4: "tree_state (set (frame_ids c4)) (insert n X) G dflt c4"
  proof -
    have "m_mem c4 = m_mem c2" "frame_ids c4 = frame_ids c2"
      by (simp_all add: c4_def c3_def set_state_def)
    then show ?thesis using tree_state_keep [OF state ext4] by simp
  qed
  have len: "n < length (m_node_arena c3)" "n < length (m_node_arena (set_state q c2))"
    using n arena_ext_length [OF ext3] by (simp_all add: set_state_def)
  have raw4: "raw_node c4 X n"
    using rel n len by (auto simp: raw_node_def c4_def c3_def node_at_upd_node rep_rel_def)
       (auto simp: set_state_def node_at_def)
  have den: "den G dflt c4 X e n (wv)" if val: "valued e"
  proof -
    have child: "rep_child e = Some (a, wrap')" and w: "wv = wrap' vs" using wrap [OF val] by auto
    have a: "valued a" by (rule valued_rep [OF val child])
    have list: "den_list G dflt c2 (insert n X) a (nd_children (node_at n c2)) vs"
        "count = length (nd_children (node_at n c2))"
      using rel a assms(7) by (auto simp: rep_rel_def)
    have "nd_children (node_at n c3) = nd_children (node_at n c2)"
      using len list(2) by (auto simp: c3_def node_at_upd_node resize_length) (simp_all add: set_state_def node_at_def resize_length)
    then have kids: "nd_children (node_at n c4) = nd_children (node_at n c2)"
      using len by (simp add: c4_def node_at_upd_node)
    show ?thesis
      unfolding w
      by (rule den_intros(7) [OF child raw4]) (use a den_list_ext [OF list(1) ext4] kids in \<open>auto simp: valued_def\<close>)
  qed
  have "sound G c3"
    using assms(1,12) by (simp add: c3_def sound_inv.keeps_upd_node sound_inv.keeps_set_state)
  then have uncut: "\<not> get_cut c3"
    using no_cuts_get_cut sound_uncut by blast
  have "arena_ext {} c c4"
    by (rule arena_ext_fresh [OF assms(5) ext4]) (use assms(6) in auto)
  then have "tree_rel X G dflt c e (Some (q, wv, False)) (ok_result (Some n)) c4"
    using state4 raw4 den assms(6,9,10) by (auto simp: tree_rel_def node_rel_def busy_def ok_result_def raw_node_def)
  then show ?thesis
    using fail uncut by (simp add: rep_finish_def Let_def c3_def [symmetric] c4_def [symmetric])
qed

lemma repeat_tree:
  assumes a: "wf_expr G a" and c: "sound G c" "pending h G c" "tree_state (set (frame_ids c)) X G dflt c"
    and sem: "sem_rep m (sem h G dflt (m_input c) a) wrap min_rep max_rep (m_position c) = Some res"
    and wrap: "valued e \<Longrightarrow> \<exists>wrap'. rep_child e = Some (a, wrap') \<and> (\<forall>vs. wrap vs = wrap' vs)"
    and kind: "\<not> quiet_void e" "\<not> pushes_node e"
  shows "post (repeat_parse_impl n (run a) skip min_rep max_rep c) (tree_rel X G dflt c e res) no_throw"
  unfolding repeat_parse_impl_def
proof (rule cut_scope_tree)
  let ?c = "init_cut c"
  obtain i c1 where sn: "start_node ?c = (i, c1)" by (cases "start_node ?c")
  note raw = start_node_raw [OF sn]
  obtain k q vs where loop: "sem_loop m (sem h G dflt (m_input c) a) max_rep 0 (m_position c) = Some (k, q, vs)"
    and res: "res = (if k < min_rep then None else Some (q, wrap vs, False))"
    using sem by (auto simp: sem_rep_def)
  have ev: "ev_loop m (ev h G (m_input c) a) max_rep 0 (m_position c) = Some (k, q)"
    using loop by (rule sem_loop_ev [rotated]) (rule sem_ev)
  have ic: "sound G ?c" using c(1) by (rule sound_inv.keeps_init_cut)
  have s: "step_rel G ?c c1" and c1: "sound G c1"
    and pos: "m_position c1 = m_position ?c" "input_size c1 = input_size ?c"
    using start_node_step [OF sound_wf [OF ic] sn] sound_inv.keeps_start_node [OF ic sn] by auto
  have p: "m_position c1 \<le> m_position ?c" "m_position ?c \<le> input_size c1"
    using pos sound_inv.in_bounds [OF ic] by simp_all
  have st: "tree_state (set (frame_ids ?c)) X G dflt ?c"
    using init_cut_tree [OF c(3)] by (simp add: init_cut_def)
  have i: "i \<notin> X" using st raw(1) by (auto simp: tree_state_def)
  have st1: "tree_state (set (frame_ids c1)) (insert i X) G dflt c1"
    unfolding raw(6)
    by (rule tree_state_step [OF st raw(4), of "{}"]) (use raw st in \<open>auto simp: memo_lookup_def tree_state_def\<close>)
  have pend: "pending h G c1" using engine_inv.keeps_init_cut [of G c h] c pending_step [OF _ s] by simp
  have tree: "post (rep_loop n (run a) skip max_rep i 0 (m_position ?c) c1)
      (\<lambda>x. rep_rel (insert i X) G dflt i c1 a 0 vs (fst x)) no_throw"
    using loop pos step_input [OF s] raw(3) by (intro rep_loop_tree a c1 pend st1) (simp_all add: empty_node_def)
  have good: "post (rep_loop n (run a) skip max_rep i 0 (m_position ?c) c1)
    (\<lambda>(count, lpos', failed) c'. (sound G c' \<and> pending h G c') \<and> count = k \<and> lpos' = q \<and> (\<not> failed \<longrightarrow> m_position c' = q)) no_throw"
    using ev pos step_input [OF s] step_cut_empty [OF s] by (intro agr.rep_loop_agrees a conjI [OF c1 pend]) simp_all
  have body: "post (repeat_body n (run a) skip min_rep max_rep ?c)
      (\<lambda>r s. (agrees (ends res) r s \<and> sound G s) \<and> tree_rel X G dflt ?c e res r s) no_throw"
    unfolding repeat_body_def Let_def sn prod.case
  proof (rule post_bindI [OF post_conj [OF tree post_conj [OF good rep_loop_contract [OF a step_rel_wf [OF s]
          step_rel_refl [OF step_rel_wf [OF s]] p]]]])
    fix x :: "nat \<times> nat \<times> bool" and c2
    obtain count lpos failed where [simp]: "x = (count, lpos, failed)" by (cases x)
    assume "rep_rel (insert i X) G dflt i c1 a 0 vs (fst x) c2 \<and>
      (case x of (count, lpos', failed) \<Rightarrow> \<lambda>c'. (sound G c' \<and> pending h G c') \<and> count = k \<and> lpos' = q \<and>
         (\<not> failed \<longrightarrow> m_position c' = q)) c2 \<and>
       (case x of (count', lpos', failed) \<Rightarrow> \<lambda>s. step_rel G c1 s \<and> m_position c1 \<le> lpos' \<and>
         lpos' \<le> input_size c1 \<and> (\<not> failed \<longrightarrow> m_position s = lpos')) c2"
    then have x: "rep_rel (insert i X) G dflt i c1 a 0 vs count c2" "sound G c2" "count = k" "lpos = q" "pending h G c2"
        "\<not> failed \<longrightarrow> m_position c2 = q" "step_rel G c1 c2" "q \<le> input_size c1"
      by auto
    have size: "input_size c2 = input_size c1" by (rule step_rel_input [OF x(7)])
    have ext: "arena_ext {} ?c c2"
      using x(1) raw(1) by (intro arena_ext_fresh [OF raw(4), of "{i}"]) (auto simp: rep_rel_def)
    have i2: "i < length (m_node_arena c2)"
      using x(1) by (auto simp: rep_rel_def intro: tree_state_open)
    obtain wrap' where w: "valued e \<Longrightarrow> rep_child e = Some (a, wrap') \<and> wrap vs = wrap' vs"
      using wrap by blast
    have "post (rep_finish min_rep max_rep i (m_position ?c) (count, q, failed) c2)
      (tree_rel X G dflt ?c e (if count < min_rep then None else Some (q, wrap vs, False))) no_throw"
      using x size p(2) raw(1,3) i2
      by (intro rep_finish_tree [OF x(2,1) i i2 ext _ _ w kind]) (simp_all add: empty_node_def)
    moreover have "post (rep_finish min_rep max_rep i (m_position ?c) (k, q, failed) c2)
        (\<lambda>r c'. agrees (if k < min_rep then None else Some q) r c' \<and> sound G c' \<and> pending h G c') no_throw"
      using x size p(2) by (intro agr.rep_finish_agrees) simp_all
    ultimately show "post (rep_finish min_rep max_rep i (m_position ?c) x c2)
        (\<lambda>r s. (agrees (ends res) r s \<and> sound G s) \<and> tree_rel X G dflt ?c e res r s) no_throw"
      using x(3,4)
      by (cases "rep_finish min_rep max_rep i (m_position ?c) (k, q, failed) c2") (auto simp: res split: if_splits)
  qed
  show "post (repeat_body n (run a) skip min_rep max_rep ?c)
      (\<lambda>r s. sound G s \<and> ret_rel G ?c r s \<and> tree_rel X G dflt ?c e res r s) no_throw"
    by (rule post_mono [OF post_conj [OF body repeat_body_contract [OF a sound_wf [OF ic]]]]) auto
qed

subsection \<open>Predicates and lexeme\<close>

lemma predicate_tree:
  assumes "wf_expr G a" "sound G c" "pending h G c" "tree_state (set (frame_ids c)) X G dflt c"
    and "sem h G dflt (m_input c) a (m_position c) = Some re" and "is_void e" "\<not> pushes_node e"
  shows "post (predicate_parse_impl (run a) b c)
    (tree_rel X G dflt c e (map_option (\<lambda>q. (q, VoidV, False)) (if (re = None) = b then Some (m_position c) else None))) no_throw"
  unfolding predicate_parse_impl_def Let_def
proof (rule post_bindI [OF run_both [OF assms(1-5)]])
  fix r c1 assume c1: "good G c (ends re) r c1 \<and> tree_rel X G dflt c a re r c1"
  let ?c = "set_state (m_position c) c1"
  have ext: "arena_ext {} c ?c"
    by (rule arena_ext_trans [OF tree_rel_ext [OF conjunct2 [OF c1]] arena_ext_same]) (simp_all add: set_state_def)
  have state: "tree_state (set (frame_ids ?c)) X G dflt ?c"
    using tree_state_keep [OF tree_rel_state [OF conjunct2 [OF c1]] arena_ext_same [of ?c], of "{}"]
    by (simp add: set_state_def)
  show "post (Ret \<lparr>success = (if b then \<not> success r else success r), tree = None\<rparr> ?c)
    (tree_rel X G dflt c e (map_option (\<lambda>q. (q, VoidV, False)) (if (re = None) = b then Some (m_position c) else None))) no_throw"
    using ext state assms(6,7) by (auto simp: tree_rel_def node_rel_def busy_def valued_def)
qed

lemma lexeme_tree:
  assumes "wf_expr G a" "sound G c" "pending h G c" "tree_state (set (frame_ids c)) X G dflt c"
    and "sem h G dflt (m_input c) a (m_position c) = Some res"
  shows "post (lexeme_parse (run a) c) (tree_rel X G dflt c (LexemeExpr a) res) no_throw"
proof -
  let ?c = "set_skip_enabled False c"
  have ext: "arena_ext Y c ?c" for Y by (rule arena_ext_same) (simp_all add: set_skip_enabled_def)
  have c: "sound G ?c" "pending h G ?c" "m_input ?c = m_input c" "m_position ?c = m_position c" "frame_ids ?c = frame_ids c"
      "tree_state (set (frame_ids ?c)) X G dflt ?c"
    using assms(2,3) tree_state_keep [OF assms(4) ext [of "{}"]]
    by (simp_all add: set_skip_enabled_def sound_inv.keeps_skip_flag pending_def frame_ids_def)
  have "post (run a ?c) (tree_rel X G dflt ?c a res) no_throw"
    using assms(1,5) c by (intro run_tree) simp_all
  moreover have "tree_rel X G dflt c (LexemeExpr a) res r (set_skip_enabled b s)" if "tree_rel X G dflt ?c a res r s" for r s b
  proof -
    have "tree_rel X G dflt c a res r s"
      by (rule tree_rel_start [OF that ext]) (simp add: c(4))
    then have "tree_rel X G dflt c a res r (set_skip_enabled b s)"
      by (rule tree_rel_end) (simp_all add: set_skip_enabled_def)
    then show ?thesis
      using valued_lexeme [of a]
      by (auto simp: tree_rel_def node_rel_def intro: den_intros split: option.splits)
  qed
  ultimately show ?thesis
    unfolding lexeme_parse_def Let_def
    by (cases "run a ?c") auto
qed

end

end
