(* ===== verification/Fold_Cases.thy ===== *)
theory Fold_Cases
  imports Typed_Fold
begin

text \<open>
  Runs of \<open>parse_ast\<close> on small grammars, evaluated in the model: an ordinary grammar, whose
  value is what its actions say, and the cases where the fold does not follow the tree
  the parser built, so that the value is wrong or an exception leaves \<open>parse_ast\<close>. They
  mark the limits of the fold theorem of \<open>Tree_Values\<close>.
\<close>

subsection \<open>Grammars\<close>

text \<open>The value is a number, \<open>0\<close> when default-constructed.\<close>

type_synonym num_action = "(nat, nat) action"

definition digit_action :: num_action where
  "digit_action input sp args = (case args of [ElemV x] \<Rightarrow> 10 + x | _ \<Rightarrow> 99)"

definition sum_action :: num_action where
  "sum_action input sp args =
     sum_list (map (\<lambda>a. case a of NodeV v \<Rightarrow> v | ElemV x \<Rightarrow> 0 | _ \<Rightarrow> 50) args)"

definition typed_rule :: "string \<Rightarrow> nat expr \<Rightarrow> num_action \<Rightarrow> rule_ref \<times> (nat, nat) non_terminal" where
  "typed_rule name e f =
     (name, new_non_terminal\<lparr>m_rule := Some e, m_name := name, m_typed_fold := Some (e, f)\<rparr>)"

definition num_grammar :: "(rule_ref \<times> (nat, nat) non_terminal) list \<Rightarrow> (nat, nat) grammar" where
  "num_grammar rules = \<lparr>m_rules = rules, m_start = ''S'', g_skipper = None, g_ops = token_ops None (\<le>)\<rparr>"

text \<open>\<open>D = 0..3\<close>, a token.\<close>

definition digit_rule :: "rule_ref \<times> (nat, nat) non_terminal" where
  "digit_rule = typed_rule ''D'' (TokenExpr (TRange 0 3)) digit_action"

text \<open>What a run of \<open>parse_ast\<close> gave: no value, a value, or \<open>std::out_of_range\<close>.\<close>

datatype 'v ast_outcome = NoValue | Value 'v | Escaped | Other

definition ast_outcome :: "('c, ('v \<times> (rule_ref \<times> nat) list) option) api_outcome \<Rightarrow> 'v ast_outcome" where
  "ast_outcome m =
     (case m of
        Ret r c \<Rightarrow> (case r of None \<Rightarrow> NoValue | Some (v, hooks) \<Rightarrow> Value v)
      | Throw e c \<Rightarrow> (case e of OutOfRange msg \<Rightarrow> Escaped | _ \<Rightarrow> Other)
      | _ \<Rightarrow> Other)"

definition ast_of :: "(nat, nat) grammar \<Rightarrow> nat list \<Rightarrow> nat ast_outcome" where
  "ast_of G input = ast_outcome (grammar_parse_ast 9 G 0 ''S'' (make_ctx input))"

text \<open>\<open>S = D 4 D\<close> with an action that adds.\<close>

definition plain_grammar :: "(nat, nat) grammar" where
  "plain_grammar = num_grammar [digit_rule,
     typed_rule ''S'' (SequenceExpr [RuleExpr ''D'', TerminalExpr (TValue 4), RuleExpr ''D'']) sum_action]"

lemma plain_run: "ast_of plain_grammar [1, 4, 2] = Value 23"
  by code_simp

text \<open>The tree of \<open>1 4 2\<close>: the nodes of the two rules under that of the sequence.\<close>

definition plain_body :: "nat expr" where
  "plain_body = SequenceExpr [RuleExpr ''D'', TerminalExpr (TValue 4), RuleExpr ''D'']"

definition plain_tree :: "nat ctx" where
  "plain_tree = (make_ctx [1, 4, 2])\<lparr>m_node_arena :=
     [empty_node\<lparr>start_offset := 0, end_offset := 1\<rparr>,
      empty_node\<lparr>start_offset := 0, end_offset := 1, nd_children := [Some 0], producer := Some ''D''\<rparr>,
      empty_node\<lparr>start_offset := 2, end_offset := 3\<rparr>,
      empty_node\<lparr>start_offset := 2, end_offset := 3, nd_children := [Some 2], producer := Some ''D''\<rparr>,
      empty_node\<lparr>start_offset := 0, end_offset := 3, nd_children := [Some 1, Some 3]\<rparr>]\<rparr>"

lemma plain_fold:
  "fold_expr 6 plain_grammar 0 plain_tree plain_body (Some 4) 0 = Ret (TupleV [NodeV 11, NodeV 12]) 2"
  "result_of plain_body = Some (TupleT [NodeT, NodeT])"
  by code_simp+

lemma fold_typed_witness:
  "fold_expr 6 plain_grammar 0 plain_tree plain_body (Some 4) 0 = Ret (TupleV [NodeV 11, NodeV 12]) 2 \<and>
   has_type (TupleV [NodeV (11::nat), NodeV 12] :: (nat, nat) tval) (TupleT [NodeT, NodeT])"
  using plain_fold fold_typed [OF plain_fold] by blast

subsection \<open>A void child that leaves a node\<close>

text \<open>
  \<open>S = 4* D\<close>: the repetition of a terminal contributes no value, but it pushes its node into
  the children of the sequence, which the cursor of the fold does not count: the fold of
  \<open>D\<close> runs on the node of the repetition, which no rule produced, and gives the
  default-constructed value instead of \<open>11\<close>.
\<close>

definition misaligned_grammar :: "(nat, nat) grammar" where
  "misaligned_grammar = num_grammar [digit_rule,
     typed_rule ''S'' (SequenceExpr [ZeroOrMoreExpr (TerminalExpr (TValue 4)), RuleExpr ''D'']) sum_action]"

theorem void_child_misaligns_fold: "ast_of misaligned_grammar [4, 1] = Value 0"
  by code_simp

subsection \<open>A left-recursive rule with an action\<close>

text \<open>
  \<open>S = S 4 | D\<close>: the seed a left-recursive call returns is the tree of the body, which no
  rule has wrapped. On \<open>1 4\<close> the seed is the node of \<open>D\<close> and the value is \<open>11\<close>; on \<open>1 4 4\<close> the
  left operand is an anonymous sequence, so the action gets a default-constructed value
  for it and the value is \<open>0\<close>.
\<close>

definition left_grammar :: "(nat, nat) grammar" where
  "left_grammar = num_grammar [digit_rule,
     typed_rule ''S'' (AlternationExpr [SequenceExpr [RuleExpr ''S'', TerminalExpr (TValue 4)], RuleExpr ''D''])
       sum_action]"

theorem left_recursion_loses_operand:
  "ast_of left_grammar [1, 4] = Value 11 \<and> ast_of left_grammar [1, 4, 4] = Value 0"
  by (intro conjI; code_simp)

subsection \<open>A node stamped again\<close>

text \<open>
  \<open>S = R 4 | (E | D) 5 | R 6\<close> with \<open>R = D | 7 R 7\<close> and \<open>E = 8\<close>. On \<open>1 6\<close> the first branch leaves
  \<open>R\<close> in the memo, with the node of \<open>D\<close> stamped with the winner \<open>0\<close>; the second stamps the
  same node, which the memo shares, with the winner \<open>1\<close>; the third takes \<open>R\<close> from the memo,
  and its fold follows the stamp into the branch \<open>7 R 7\<close>: the value is the
  default-constructed one. Without the second branch it is \<open>11\<close>.
\<close>

definition paren_rule :: "rule_ref \<times> (nat, nat) non_terminal" where
  "paren_rule = typed_rule ''R'' (AlternationExpr [RuleExpr ''D'',
     SequenceExpr [TerminalExpr (TValue 7), RuleExpr ''R'', TerminalExpr (TValue 7)]]) sum_action"

definition stamp_grammar :: "nat expr list \<Rightarrow> (nat, nat) grammar" where
  "stamp_grammar middle = num_grammar [digit_rule, typed_rule ''E'' (TokenExpr (TValue 8)) digit_action, paren_rule,
     typed_rule ''S'' (AlternationExpr ([SequenceExpr [RuleExpr ''R'', TerminalExpr (TValue 4)]] @ middle @
       [SequenceExpr [RuleExpr ''R'', TerminalExpr (TValue 6)]])) sum_action]"

theorem shared_node_stamped_again:
  "ast_of (stamp_grammar []) [1, 6] = Value 11 \<and>
   ast_of (stamp_grammar [SequenceExpr [AlternationExpr [RuleExpr ''E'', RuleExpr ''D''], TerminalExpr (TValue 5)]])
     [1, 6] = Value 0"
  by (intro conjI; code_simp)

subsection \<open>A recovered operand\<close>

text \<open>
  \<open>S = D 4 D\<close> where \<open>D\<close> resumes after a \<open>4\<close>: a recovered rule succeeds without a node, so the
  sequence has a child less than its fold expects. When the recovered rule is the start
  rule itself, \<open>parse\<close> succeeds and \<open>parse_ast\<close> gives no value.
\<close>

definition recovering_grammar :: "(nat, nat) grammar" where
  "recovering_grammar = num_grammar
     [(''D'', (snd digit_rule)\<lparr>m_recover := recover_set [4] []\<rparr>),
      typed_rule ''S'' (SequenceExpr [RuleExpr ''D'', RuleExpr ''D'']) sum_action]"

definition recovering_start :: "(nat, nat) grammar" where
  "recovering_start = num_grammar [(''S'', (snd digit_rule)\<lparr>m_recover := recover_set [4] []\<rparr>)]"

definition returns_true :: "('c, bool) api_outcome \<Rightarrow> bool" where
  "returns_true m = (case m of Ret b c \<Rightarrow> b | _ \<Rightarrow> False)"

theorem recovered_rule_has_no_node:
  "ast_of recovering_grammar [7, 4, 1] = Escaped \<and> ast_of recovering_start [7, 4] = NoValue \<and>
   returns_true (grammar_parse_rule 9 recovering_start ''S'' (make_ctx [7, 4]))"
  by (intro conjI; code_simp)

subsection \<open>Assignments\<close>

text \<open>
  A rule assigned a second time keeps the action, and the static type, of its first body: the
  fold of the new body's tree follows the old body.
\<close>

theorem reassigned_rule_keeps_action:
  "ast_of (rule_assign ''S'' (TokenExpr (TRange 0 3)) plain_grammar) [1] = Escaped"
  by code_simp

text \<open>
  The assignment of a rule to itself through two handles, \<open>g["S"] = g["S"]\<close>, is not caught by
  the test for the same object: the rule becomes a reference to itself, which never
  matches.
\<close>

theorem self_alias_destroys_rule:
  "ast_of (rule_alias False ''S'' ''S'' plain_grammar) [1, 4, 2] = NoValue \<and>
   rule_alias True ''S'' ''S'' plain_grammar = plain_grammar"
proof
  show "ast_of (rule_alias False ''S'' ''S'' plain_grammar) [1, 4, 2] = NoValue"
    by code_simp
qed (simp add: rule_alias_def)

end
