(* ===== verification/Tree_Values.thy ===== *)
theory Tree_Values
  imports Tree_Combinators Fuel Fold_Cases Tree_Shape
begin

text \<open>
  The trees of rules denote the values of the reference semantics, and with that the trees
  of whole parses; the theorem on \<open>parse_ast\<close>.
\<close>

subsection \<open>The entry of a rule\<close>

lemma tree_state_final:
  assumes "tree_state (insert (r, p) F) X G dflt c"
    and "success (m_cached_result st) \<longrightarrow> entry_den G dflt c X r p st"
  shows "tree_state F X G dflt (snd (update_rule_state r p st c))"
proof -
  let ?c = "snd (update_rule_state r p st c)"
  have ext: "arena_ext {} c ?c" by (rule arena_ext_same) simp_all
  have entry: "entry_den G dflt ?c X r' p' st'" if "entry_den G dflt c X r' p' st'" for r' p' st'
    by (rule entry_den_step [OF that ext]) auto
  show ?thesis
    unfolding tree_state_def
  proof (intro conjI allI impI)
    show "typed_grammar G" "X \<subseteq> {..<length (m_node_arena ?c)}"
      using assms(1) by (simp_all add: tree_state_def)
    fix r' p' st'
    assume l: "memo_lookup r' p' ?c = Some st'" "(r', p') \<notin> F" "success (m_cached_result st')"
    show "entry_den G dflt ?c X r' p' st'"
    proof (cases "r' = r \<and> p' = p")
      case True
      then have "st' = st" using l(1) by (auto simp: memo_lookup_update split: if_splits)
      then show ?thesis using True l(3) assms(2) by (auto intro: entry)
    next
      case False
      then have "memo_lookup r' p' c = Some st'" using l(1) by (auto simp: memo_lookup_update split: if_splits)
      then show ?thesis using False l(2,3) assms(1) by (auto simp: tree_state_def intro!: entry)
    qed
  qed
qed

text \<open>The node of a rule, from the tree of its body.\<close>

lemma build_node_tree:
  fixes G :: "('c, 'v) grammar"
  assumes nt: "lookup_rule G rule = Some nt" "m_rule nt = Some e"
    and state: "tree_state P (busy X own node0) G dflt c4" and node0: "node_rel X G dflt c e q v own node0 c4"
    and X: "X \<subseteq> {..<length (m_node_arena c)}" "length (m_node_arena c) \<le> length (m_node_arena c4)"
    and pos: "m_position c4 = q" and build: "build_rule_node nt rule (m_position c) node0 c4 = (node, c5)"
    and ext4: "arena_ext {} c c4"
  shows "\<exists>w. rule_value nt dflt (m_input c) (m_position c) q v own = NodeV w \<and> arena_ext {} c c5 \<and>
    tree_state P X G dflt c5 \<and> node_span c5 node = Span (m_position c) q \<and>
    den G dflt c5 X (RuleExpr rule) node (NodeV w)"
proof -
  let ?p = "m_position c"
  have G: "typed_grammar G" by (rule tree_state_typed [OF state])
  have fold: "typed_fold G rule = m_typed_fold nt" by (simp add: typed_fold_def nt(1))
  have stateX: "tree_state P X G dflt c4" by (rule tree_state_less [OF state busy_mono])
  show ?thesis
  proof (cases "m_typed_fold nt")
    case (Some ef)
    obtain e' f where ef: "ef = (e', f)" by (cases ef)
    have e': "e' = e" "foldable e" "result_of e \<noteq> None"
      using typed_grammarD(2) [OF G nt(1), of e' f] Some ef nt(2) by auto
    obtain T where T: "result_of e = Some T" using e'(3) by auto
    obtain n c1 where mk: "make_node c4 = (n, c1)" by (cases "make_node c4")
    note n = node_at_make_node [OF mk]
    have c1: "m_position c1 = q" "m_mem c1 = m_mem c4" using mk pos by (auto simp: make_node_def)
    define c2 where "c2 = upd_node n (\<lambda>n. n\<lparr>nd_name := m_name nt, producer := Some rule,
        start_offset := ?p, end_offset := mark c1\<rparr>) c1"
    have c5: "node = n" "c5 = push_child n node0 c2"
      using build Some mk by (auto simp: build_rule_node_def c2_def)
    have n2: "n < length (m_node_arena c2)" using n by (simp add: c2_def)
    have node2: "node_at n c2 = empty_node\<lparr>nd_name := m_name nt, producer := Some rule, start_offset := ?p, end_offset := q\<rparr>"
      using n c1(1) by (auto simp: c2_def node_at_upd_node mark_def)
    have "arena_ext {n} c1 c5"
      unfolding c5(2) c2_def
      by (rule arena_ext_trans [OF arena_ext_upd arena_ext_push_child]) simp_all
    then have ext: "arena_ext Y c4 c5" for Y
      using n by (intro arena_ext_fresh [OF arena_ext_make_node [OF mk]]) auto
    have state5: "tree_state P X G dflt c5"
      using tree_state_keep [OF stateX ext [of "{}"]] c1(2) by (simp add: c5(2) c2_def)
    have fresh: "n \<notin> X" using stateX n by (auto simp: tree_state_def)
    have five: "producer (node_at n c5) = Some rule" "start_offset (node_at n c5) = ?p" "end_offset (node_at n c5) = q"
        "nd_children (node_at n c5) = (case node0 of None \<Rightarrow> [] | Some t \<Rightarrow> [Some t])"
      using node2 n2 by (auto simp: c5(2) push_child_def node_at_upd_node empty_node_def split: option.splits)
    have owner: "rule_node c5 X n rule"
      using five(1) fresh n2 by (simp add: rule_node_def c5(2))
    have span: "node_span c5 n = Span ?p q" using five by (simp add: node_span_def)
    have "den_rule G dflt c5 X n (f (m_input c5) (node_span c5 n) (unpack T v))"
    proof (cases "T = VoidT")
      case True
      then show ?thesis
        using den_intros(15) [OF owner, of G e f dflt] fold Some ef e'(1) T by (simp add: is_void_def)
    next
      case False
      then have "valued e" using T e' by (simp add: valued_def is_void_def)
      then obtain b where b: "node0 = Some b" "den G dflt c4 X e b v"
        using node0 by (auto simp: node_rel_def)
      have "den G dflt c4 (insert n X) e b v" by (rule den_anti [OF b(2)]) (use n in auto)
      then have "den G dflt c5 (insert n X) e b v" by (rule den_ext [OF _ ext [of "{}"]]) simp
      then show ?thesis
        using den_intros(16) [OF owner _ T False, of G f b dflt v] fold Some ef e'(1) five(4) b(1) by simp
    qed
    then have "den G dflt c5 X (RuleExpr rule) n (NodeV (f (m_input c5) (node_span c5 n) (unpack T v)))"
      using five(1) by (intro den_intros(5)) simp_all
    moreover have "rule_value nt dflt (m_input c) ?p q v own = NodeV (f (m_input c5) (node_span c5 n) (unpack T v))"
      using Some ef e'(1) T span arena_ext_input [OF arena_ext_trans [OF ext4 ext]] by (simp add: rule_value_def)
    ultimately show ?thesis
      using arena_ext_trans [OF ext4 ext] state5 span c5(1) by blast
  next
    case None
    have untyped: "typed_fold G rule = None" using fold None by simp
    define upd :: "tree_node \<Rightarrow> tree_node" where "upd = (\<lambda>n. n\<lparr>nd_name := m_name nt,
        producer := (case producer n of None \<Rightarrow> Some rule | Some p \<Rightarrow> Some p), start_offset := ?p, end_offset := q\<rparr>)"
    show ?thesis
    proof (cases own)
      case True
      then obtain t w where t: "node0 = Some t" "v = NodeV w" "node_span c4 t = Span ?p q" "den_rule G dflt c4 X t w"
        using node0 by (auto simp: node_rel_def)
      have c5: "node = t" "c5 = upd_node t upd c4"
        using build None t(1) pos by (auto simp: build_rule_node_def upd_def mark_def)
      have ext: "arena_ext {} c4 c5"
        unfolding c5(2) using den_node(4) [OF t(4)] t(3)
        by (intro arena_ext_upd) (auto simp: same_node_def upd_def node_span_def split: option.split)
      have d: "den_rule G dflt c5 X t w" by (rule den_rule_ext [OF t(4) ext]) simp
      have "node_span c5 t = Span ?p q"
        using den_node(4) [OF t(4)] by (simp add: node_span_def c5(2) node_at_upd_node upd_def)
      moreover have "tree_state P X G dflt c5"
        using tree_state_keep [OF stateX ext] by (simp add: c5(2))
      moreover have "den G dflt c5 X (RuleExpr rule) t (NodeV w)"
        using d untyped by (intro den_intros(5)) simp_all
      moreover have "rule_value nt dflt (m_input c) ?p q v own = NodeV w"
        using None True t(2) by (simp add: rule_value_def)
      ultimately show ?thesis
        using arena_ext_trans [OF ext4 ext] c5(1) by blast
    next
      case False
      obtain t c1 where t: "c5 = upd_node t upd c1" "node = t" "length (m_node_arena c) \<le> t" "t < length (m_node_arena c1)"
          "producer (node_at t c1) = None" "arena_ext {} c4 c1" "tree_state P (insert t X) G dflt c1"
      proof (cases node0)
        case None
        obtain n c1 where mk: "make_node c4 = (n, c1)" by (cases "make_node c4")
        note n = node_at_make_node [OF mk]
        have "tree_state P (insert n X) G dflt c1"
          by (rule tree_state_step [OF stateX arena_ext_make_node [OF mk], of "{}"])
             (use n mk stateX in \<open>auto simp: make_node_def memo_lookup_def tree_state_def\<close>)
        moreover have "c5 = upd_node n upd c1" "node = n"
          using build \<open>m_typed_fold nt = None\<close> None mk pos
          by (auto simp: build_rule_node_def upd_def mark_def make_node_def)
        ultimately show ?thesis
          using n X(2) arena_ext_make_node [OF mk] by (intro that [of n c1]) (auto simp: empty_node_def)
      next
        case (Some t)
        have "c5 = upd_node t upd c4" "node = t"
          using build \<open>m_typed_fold nt = None\<close> Some pos by (auto simp: build_rule_node_def upd_def mark_def)
        then show ?thesis
          using Some False node0 state by (intro that [of t c4]) (auto simp: node_rel_def busy_def)
      qed
      have ext1: "arena_ext {t} c1 c5" unfolding t(1) by (rule arena_ext_upd) simp
      have ext: "arena_ext {} c c5"
        by (rule arena_ext_fresh [OF arena_ext_trans [OF ext4 t(6)] ext1]) (use t(3) in auto)
      have "tree_state P X G dflt c5"
        using tree_state_less [OF tree_state_keep [OF t(7) ext1], of X] by (simp add: t(1)) blast
      moreover have "rule_node c5 X t rule"
        using t X(1) by (auto simp: rule_node_def node_at_upd_node upd_def)
      then have "den G dflt c5 X (RuleExpr rule) t (NodeV dflt)"
        using untyped by (intro den_intros(5) den_intros(14)) simp_all
      moreover have "node_span c5 t = Span ?p q"
        using t by (simp add: node_span_def node_at_upd_node upd_def)
      moreover have "rule_value nt dflt (m_input c) ?p q v own = NodeV dflt"
        using None False by (simp add: rule_value_def)
      ultimately show ?thesis
        using ext t(2) by blast
    qed
  qed
qed

subsection \<open>Rules\<close>

text \<open>Where the growth loop of a rule stands.\<close>

definition grow_tree ::
  "nat set \<Rightarrow> ('c, 'v) grammar \<Rightarrow> 'v \<Rightarrow> 'c ctx \<Rightarrow> rule_ref \<Rightarrow> 'c expr \<Rightarrow> (nat \<times> ('c, 'v) tval \<times> bool) option
     \<Rightarrow> parse_result \<Rightarrow> 'c ctx \<Rightarrow> bool" where
  "grow_tree X G dflt c rule e bres best s \<longleftrightarrow>
     arena_ext {} c s \<and> set (frame_ids s) = insert (rule, m_position c) (set (frame_ids c)) \<and>
     (if success best
      then \<exists>q v own. bres = Some (q, v, own) \<and> tree_state (set (frame_ids s)) (busy X own (tree best)) G dflt s \<and>
             node_rel X G dflt c e q v own (tree best) s
      else tree_state (set (frame_ids s)) X G dflt s)"

lemma grow_tree_state: "grow_tree X G dflt c rule e bres best s \<Longrightarrow> tree_state (set (frame_ids s)) X G dflt s"
  by (auto simp: grow_tree_def intro: tree_state_less [OF _ busy_mono] split: if_splits)

lemma grow_tree_step:
  assumes "grow_tree X G dflt c rule e bres best s" and "frame_step (rule, m_position c) s s'"
  shows "grow_tree X G dflt c rule e bres best s'"
proof -
  have ext: "arena_ext {} s s'"
    using assms(2) by (intro arena_ext_same) (simp_all add: frame_step_def)
  have old: "memo_lookup r p s = Some st" if "memo_lookup r p s' = Some st" "(r, p) \<notin> set (frame_ids s)" for r p st
    using frame_step_memo [OF assms(2) that(1)] that(2) assms(1) by (auto simp: grow_tree_def)
  have state: "tree_state (set (frame_ids s')) Y G dflt s'" if "tree_state (set (frame_ids s)) Y G dflt s" for Y
    by (rule tree_state_step [OF that ext])
       (use assms(2) that old in \<open>auto simp: frame_step_def tree_state_def\<close>)
  show ?thesis
    using assms arena_ext_trans [OF _ ext] state node_rel_later [OF _ ext]
    by (auto simp: grow_tree_def frame_step_def split: if_splits)
qed

lemma node_rel_quiet_rule: "\<not> quiet_void (RuleExpr r)" "\<not> pushes_node (RuleExpr r)"
  by simp_all

context tree_parsers
begin

lemma grow_tree_body:
  assumes J: "grow_tree X G dflt c rule e bres b s" and e: "wf_expr G e"
    and s: "sound G s" "pending h G s" "m_position s = m_position c"
    and sem: "sem h G dflt (m_input c) e (m_position c) = Some bres"
  shows "post (run e s) (\<lambda>r. grow_tree X G dflt c rule e bres (if success r \<and> \<not> success b then r else b)) no_throw"
proof -
  have ext: "arena_ext {} c s" and input: "m_input s = m_input c"
    using J arena_ext_input [of "{}" c s] by (auto simp: grow_tree_def)
  have kept: "grow_tree X G dflt c rule e bres b s2"
    if "tree_rel (busy X own (tree b)) G dflt s e bres r s2" "frame_ids s2 = frame_ids s" "success b" "bres = Some (q, v, own)"
      "node_rel X G dflt c e q v own (tree b) s" for r s2 q v own
    using that arena_ext_trans [OF ext tree_rel_ext [OF that(1)]] tree_rel_state [OF that(1)] J
      node_rel_later [OF that(5) tree_rel_ext [OF that(1)]]
    by (auto simp: grow_tree_def)
  have new: "grow_tree X G dflt c rule e bres (if success r \<and> \<not> success b then r else b) s2"
    if "tree_rel X G dflt s e bres r s2" "frame_ids s2 = frame_ids s" "\<not> success b" "agrees (ends bres) r s2" for r s2
  proof (cases bres)
    case None
    then show ?thesis
      using that J arena_ext_trans [OF ext tree_rel_ext [OF that(1)]] tree_rel_state [OF that(1)]
      by (auto simp: grow_tree_def agrees_def)
  next
    case (Some x)
    obtain q v own where x: "x = (q, v, own)" by (cases x)
    have "node_rel X G dflt c e q v own (tree r) s2"
      using that(1) Some x arena_ext_length [OF ext] s(3) by (auto simp: tree_rel_def intro: node_rel_start)
    then show ?thesis
      using that J arena_ext_trans [OF ext tree_rel_ext [OF that(1)]] Some x
      by (auto simp: grow_tree_def agrees_def tree_rel_def)
  qed
  show ?thesis
  proof (cases "success b")
    case True
    then obtain q v own where x: "bres = Some (q, v, own)"
        "tree_state (set (frame_ids s)) (busy X own (tree b)) G dflt s" "node_rel X G dflt c e q v own (tree b) s"
      using J by (auto simp: grow_tree_def)
    have "post (run e s) (\<lambda>r s2. good G s (ends bres) r s2 \<and> tree_rel (busy X own (tree b)) G dflt s e bres r s2) no_throw"
      using sem s input by (intro run_both e x(2)) simp_all
    then show ?thesis
    proof (rule post_mono)
      fix r s2 assume g: "good G s (ends bres) r s2 \<and> tree_rel (busy X own (tree b)) G dflt s e bres r s2"
      then have "frame_ids s2 = frame_ids s"
        using frame_ids_keys by (auto simp: ret_rel_def step_rel_def)
      then show "grow_tree X G dflt c rule e bres (if success r \<and> \<not> success b then r else b) s2"
        using kept [OF conjunct2 [OF g] _ True x(1,3)] True by simp
    qed simp
  next
    case False
    have "tree_state (set (frame_ids s)) X G dflt s" by (rule grow_tree_state [OF J])
    then have "post (run e s) (\<lambda>r s2. good G s (ends bres) r s2 \<and> tree_rel X G dflt s e bres r s2) no_throw"
      using sem s input by (intro run_both e) simp_all
    then show ?thesis
    proof (rule post_mono)
      fix r s2 assume g: "good G s (ends bres) r s2 \<and> tree_rel X G dflt s e bres r s2"
      then have "frame_ids s2 = frame_ids s"
        using frame_ids_keys by (auto simp: ret_rel_def step_rel_def)
      then show "grow_tree X G dflt c rule e bres (if success r \<and> \<not> success b then r else b) s2"
        using new [OF conjunct2 [OF g] _ False] g by blast
    qed simp
  qed
qed

lemma grow_tree_enter:
  assumes "tree_state (set (frame_ids c)) X G dflt c"
  shows "grow_tree X G dflt c rule e bres null_result (entered rule c)"
proof -
  have ext: "arena_ext {} c (entered rule c)" by (rule arena_ext_same) simp_all
  have "tree_state (set (frame_ids (entered rule c))) X G dflt (entered rule c)"
    by (rule tree_state_step [OF assms ext])
       (use assms in \<open>auto simp: tree_state_def entered_lookup split: if_splits\<close>)
  then show ?thesis
    using ext by (simp add: grow_tree_def null_result_def)
qed

text \<open>Leaving the rule: its node and its entry.\<close>

lemma rule_left_tree:
  assumes c: "sound G c" and nt: "lookup_rule G rule = Some nt" "m_rule nt = Some e"
    and sem: "sem h G dflt (m_input c) e (m_position c) = Some bres" and X: "X \<subseteq> {..<length (m_node_arena c)}"
    and J: "grow_tree X G dflt c rule e bres inner s" and same: "same_but_stack (rule, m_position c) s c4"
    and left: "rule_left G c (ends bres) inner st c4"
  shows "post (if \<not> success inner then rule_failed nt rule (m_position c) st c4
      else rule_matched nt rule (m_position c) st inner c4)
    (tree_rel X G dflt c (RuleExpr rule)
       (map_option (\<lambda>(q, v, own). (q, rule_value nt dflt (m_input c) (m_position c) q v own, True)) bres)) no_throw"
proof -
  let ?p = "m_position c" and ?F = "set (frame_ids c)"
  have G: "typed_grammar G" by (rule tree_state_typed [OF grow_tree_state [OF J]])
  have sync: "is_sync_token (m_recover nt) = None" by (rule typed_grammarD(1) [OF G nt(1)])
  have l: "step_rel G c c4" "m_position c4 = m_last_pos st" "grow_end (ends bres) (inner, st)"
    using left by (auto simp: rule_left_def)
  have ids: "frame_ids c4 = frame_ids c"
    using frame_ids_keys l(1) by (auto simp: step_rel_def)
  have ids_s: "set (frame_ids s) = insert (rule, ?p) ?F"
    using same ids by (auto simp: same_but_stack_def)
  have ext: "arena_ext {} s c4"
    using same by (intro arena_ext_same) (simp_all add: same_but_stack_def)
  have ext4: "arena_ext {} c c4"
    using arena_ext_trans [OF _ ext] J by (simp add: grow_tree_def)
  have mem: "m_mem c4 = m_mem s" using same by (simp add: same_but_stack_def)
  show ?thesis
  proof (cases "success inner")
    case False
    then have b: "bres = None" using l(3) by (cases bres) (auto simp: grow_end_def)
    let ?c1 = "record_rule_failure nt ?p c4"
    have "arena_ext {} c4 ?c1" by (rule arena_ext_same) (simp_all add: record_rule_failure_def)
    moreover have "m_mem ?c1 = m_mem c4"
      by (simp add: record_rule_failure_def record_failure_def)
    ultimately have ext1: "arena_ext {} s ?c1" and mem1: "m_mem ?c1 = m_mem s"
      using arena_ext_trans [OF ext] mem by auto
    have "tree_state (insert (rule, ?p) ?F) X G dflt ?c1"
      using tree_state_keep [OF grow_tree_state [OF J] ext1] mem1 ids_s by simp
    then have "tree_state ?F X G dflt (snd (update_rule_state rule ?p (st\<lparr>m_cached_result := null_result\<rparr>) ?c1))"
      by (rule tree_state_final) (simp add: null_result_def)
    moreover have "frame_ids (snd (update_rule_state rule ?p st' ?c1)) = frame_ids c" for st'
      using ids by (simp add: frame_ids_def record_rule_failure_def)
    moreover have "arena_ext {} c (snd (update_rule_state rule ?p st' ?c1))" for st'
      by (rule arena_ext_trans [OF ext4 arena_ext_same]) (simp_all add: record_rule_failure_def)
    ultimately show ?thesis
      using False b sync by (simp add: rule_failed_def Let_def tree_rel_def)
  next
    case True
    then obtain q v own where b: "bres = Some (q, v, own)"
        and st: "tree_state (insert (rule, ?p) ?F) (busy X own (tree inner)) G dflt s"
        and node: "node_rel X G dflt c e q v own (tree inner) s"
      using J ids_s by (auto simp: grow_tree_def)
    have q: "m_last_pos st = q" using True b l(3) by (simp add: grow_end_def)
    obtain t c5 where build: "build_rule_node nt rule ?p (tree inner) c4 = (t, c5)"
      by (cases "build_rule_node nt rule ?p (tree inner) c4")
    have state4: "tree_state (insert (rule, ?p) ?F) (busy X own (tree inner)) G dflt c4"
      using tree_state_keep [OF st ext] mem by simp
    have node4: "node_rel X G dflt c e q v own (tree inner) c4"
      by (rule node_rel_later [OF node ext]) auto
    obtain w where w: "rule_value nt dflt (m_input c) ?p q v own = NodeV w" "arena_ext {} c c5"
        "tree_state (insert (rule, ?p) ?F) X G dflt c5" "node_span c5 t = Span ?p q"
        "den G dflt c5 X (RuleExpr rule) t (NodeV w)"
      using build_node_tree [OF nt state4 node4 X arena_ext_length [OF ext4] _ build ext4] l(2) q by auto
    let ?st = "st\<lparr>m_cached_result := ok_result (Some t)\<rparr>"
    let ?c6 = "snd (update_rule_state rule ?p ?st c5)"
    have "sem (Suc h) G dflt (m_input c) (RuleExpr rule) ?p = Some (Some (q, NodeV w, True))"
      using nt sync sem b w(1) by simp
    then have entry: "entry_den G dflt c5 X rule ?p ?st"
      unfolding entry_den_def
      by (intro exI [of _ t] exI [of _ w] exI [of _ "Suc h"])
         (use w(4,5) q arena_ext_input [OF w(2)] in \<open>simp add: ok_result_def del: sem.simps\<close>)
    have state6: "tree_state ?F X G dflt ?c6"
      using entry by (intro tree_state_final [OF w(3)]) simp
    have ext6: "arena_ext {} c5 ?c6" by (rule arena_ext_same) simp_all
    have ids6: "frame_ids ?c6 = frame_ids c"
      using build ids by (auto simp: build_rule_node_def Let_def make_node_def frame_ids_def push_child_def
          upd_node_def split: if_splits option.splits)
    have "den G dflt ?c6 X (RuleExpr rule) t (NodeV w)" by (rule den_ext [OF w(5) ext6]) simp
    moreover from this have "den_rule G dflt ?c6 X t w" by (auto dest: den_rule_owned)
    moreover have "node_span ?c6 t = Span ?p q"
      using w(4) by (simp add: node_span_def node_at_def)
    ultimately have "node_rel X G dflt c (RuleExpr rule) q (NodeV w) True (Some t) ?c6"
      by (simp add: node_rel_def)
    then show ?thesis
      using True b w(1) state6 ids6 arena_ext_trans [OF w(2) ext6]
      by (simp add: rule_matched_def build Let_def tree_rel_def busy_def ok_result_def)
  qed
qed

lemma reenter_tree:
  assumes c: "sound G c" "tree_state (set (frame_ids c)) X G dflt c" and look: "memo_lookup rule (m_position c) c = Some st"
    and out: "(rule, m_position c) \<notin> set (frame_ids c)"
    and sem: "sem n G dflt (m_input c) (RuleExpr rule) (m_position c) = Some res"
  shows "post (reenter rule (m_position c) st c) (tree_rel X G dflt c (RuleExpr rule) res) no_throw"
proof (rule post_mono [OF rets_imp_post [OF reenter_entry [OF sound_wf [OF c(1)] look]]])
  fix r c' assume r: "agrees (entry_res st) r c' \<and> r = m_cached_result st \<and> only_position c c'"
  have "evals G (m_input c) (RuleExpr rule) (m_position c) (ends res)"
    using sem_ev [OF sem] unfolding evals_def by blast
  then have res: "ends res = entry_res st"
    using sound_entry [OF c(1) look out] by (rule evals_unique)
  have ext: "arena_ext {} c c'" using r by (intro arena_ext_same) (simp_all add: only_position_def)
  have state: "tree_state (set (frame_ids c')) X G dflt c'"
    using tree_state_keep [OF c(2) ext] r by (simp add: only_position_def)
  show "tree_rel X G dflt c (RuleExpr rule) res r c'"
  proof (cases "success (m_cached_result st)")
    case False
    then have "res = None" using res by (cases res) (auto simp: entry_res_def)
    then show ?thesis using ext state by (simp add: tree_rel_fail)
  next
    case True
    then have "entry_den G dflt c X rule (m_position c) st"
      using c(2) look out by (simp add: tree_state_def)
    then obtain t v k where t: "tree (m_cached_result st) = Some t" "node_span c t = Span (m_position c) (m_last_pos st)"
        "den G dflt c X (RuleExpr rule) t (NodeV v)"
        "sem k G dflt (m_input c) (RuleExpr rule) (m_position c) = Some (Some (m_last_pos st, NodeV v, True))"
      by (auto simp: entry_den_def)
    have x: "res = Some (m_last_pos st, NodeV v, True)" by (rule sem_det [OF sem t(4)])
    have d: "den G dflt c' X (RuleExpr rule) t (NodeV v)" by (rule den_ext [OF t(3) ext]) simp
    then have "den_rule G dflt c' X t v" by (auto dest: den_rule_owned)
    moreover have "node_span c' t = node_span c t" using r by (simp add: node_span_def node_at_def only_position_def)
    ultimately show ?thesis
      using x r ext state d t(1,2) by (simp add: tree_rel_def node_rel_def busy_def)
  qed
qed simp

lemma nonterminal_tree:
  assumes c: "sound G c" "pending (Suc h) G c" "tree_state (set (frame_ids c)) X G dflt c"
    and rule: "defined_rule G rule"
    and sem: "sem (Suc h) G dflt (m_input c) (RuleExpr rule) (m_position c) = Some res"
    and new: "ev h G (m_input c) (RuleExpr rule) (m_position c) = None"
  shows "post (nonterminal_parse n run G rule c) (tree_rel X G dflt c (RuleExpr rule) res) no_throw"
proof -
  obtain nt e where nt: "lookup_rule G rule = Some nt" "m_rule nt = Some e"
    using rule by (auto simp: defined_rule_def is_defined_def split: option.splits)
  obtain bres where bres: "sem h G dflt (m_input c) e (m_position c) = Some bres"
    and res: "res = map_option (\<lambda>(q, v, own). (q, rule_value nt dflt (m_input c) (m_position c) q v own, True)) bres"
    using sem nt typed_grammarD(1) [OF tree_state_typed [OF c(3)] nt(1)] by auto
  have ev: "ev (Suc h) G (m_input c) (RuleExpr rule) (m_position c) = Some (ends res)"
    by (rule sem_ev [OF sem])
  have idle: "(rule, m_position c) \<notin> set (frame_ids c)"
    using c(2) ev by (auto simp: pending_def simp del: ev.simps)
  have wfe: "wf_expr G e"
    using sound_wf [OF c(1)] wf_grammar_body [OF _ nt] by (simp add: wf_state_def)
  have X: "X \<subseteq> {..<length (m_node_arena c)}" using c(3) by (simp add: tree_state_def)
  show ?thesis
  proof (rule nonterminal_cases [OF nt(1)])
    show "post (parse_fresh n run nt rule (m_position c) (snd (rule_state rule (m_position c) c)))
        (tree_rel X G dflt c (RuleExpr rule) res) no_throw"
      unfolding res
      by (rule fresh_rule [where J = "grow_tree X G dflt c rule e bres", OF c(1) pending_less [OF c(2)] nt new sem_ev [OF bres]])
         (simp_all add: grow_tree_step grow_tree_body wfe bres grow_tree_enter c(3) rule_left_tree [OF c(1) nt bres X] del: if_split)
  next
    fix st assume "memo_lookup rule (m_position c) c = Some st"
    then show "post (reenter rule (m_position c) st c) (tree_rel X G dflt c (RuleExpr rule) res) no_throw"
      by (rule reenter_tree [OF c(1,3) _ idle sem])
  qed
qed

end

subsection \<open>Leaves\<close>

lemma record_failure_mem [simp]:
  "m_mem (record_failure p item c) = m_mem c" "frame_ids (record_failure p item c) = frame_ids c"
  by (simp_all add: record_failure_def frame_ids_def)

lemma next_pos_mem [simp]:
  "m_mem (next_pos c) = m_mem c" "frame_ids (next_pos c) = frame_ids c" "m_node_arena (next_pos c) = m_node_arena c"
  "m_input (next_pos c) = m_input c"
  by (simp_all add: next_pos_def)

lemma make_node_fields:
  "make_node c = (n, c1) \<Longrightarrow> m_mem c1 = m_mem c \<and> frame_ids c1 = frame_ids c \<and> m_position c1 = m_position c"
  by (auto simp: make_node_def)

lemma terminal_tree:
  assumes "wf_terminal ops v" and "tree_state (set (frame_ids c)) X G dflt c"
  shows "post (terminal_parse ops v c) (tree_rel X G dflt c (TerminalExpr v)
    (map_option (\<lambda>q. (q, VoidV, False)) (ev_symbol ops (m_input c) v (m_position c)))) no_throw"
proof -
  have "tree_rel X G dflt c (TerminalExpr v) (map_option (\<lambda>q. (q, VoidV, False)) res) r c'"
    if "m_node_arena c' = m_node_arena c" "m_input c' = m_input c" "frame_ids c' = frame_ids c" "m_mem c' = m_mem c"
      "tree r = None" for res r c'
    using that by (intro tree_rel_quiet [OF assms(2)]) (simp_all add: is_void_def)
  from this [where res = None] this [where res = "Some q" for q] show ?thesis
    using try_symbol_ev [OF assms(1), of c]
    by (cases "ev_symbol ops (m_input c) v (m_position c)")
       (simp_all add: terminal_parse_def record_terminal_expected_def record_failure_lazy_eq ok_result_def null_result_def)
qed

lemma terminal_seq_tree:
  assumes "tree_state (set (frame_ids c)) X G dflt c"
  shows "post (terminal_seq_parse ops vs c) (tree_rel X G dflt c (TerminalSeqExpr vs)
    (map_option (\<lambda>q. (q, VoidV, False))
      (if take (length vs) (drop (m_position c) (m_input c)) = vs then Some (m_position c + length vs) else None))) no_throw"
proof -
  have loop: "post (terminal_seq_loop ops all init us d)
      (\<lambda>r c'. m_node_arena c' = m_node_arena d \<and> m_input c' = m_input d \<and> frame_ids c' = frame_ids d \<and>
         m_mem c' = m_mem d \<and> tree r = None) no_throw" for all init us d
  proof (induction us arbitrary: d)
    case (Cons u us)
    then show ?case
      using try_symbol_ev [of ops "TValue u" d]
      by (auto simp: Let_def record_failure_lazy_eq set_state_def null_result_def split: bool.splits
          intro: post_mono [OF Cons.IH])
  qed (simp add: ok_result_def)
  show ?thesis
    unfolding terminal_seq_parse_def
    by (rule post_mono [OF loop], rule tree_rel_quiet [OF assms]) (auto simp: is_void_def)
qed

lemma token_tree:
  assumes "wf_terminal ops v" and state: "tree_state (set (frame_ids c)) X G dflt c"
  shows "post (token_parse ops v c) (tree_rel X G dflt c (TokenExpr v)
    (map_option (\<lambda>q. (q, ElemV (m_input c ! m_position c), False)) (ev_symbol ops (m_input c) v (m_position c)))) no_throw"
proof (cases "ev_symbol ops (m_input c) v (m_position c)")
  case None
  have "tree_rel X G dflt c (TokenExpr v) None r (record_failure p item c)" for r p item
    using tree_state_keep [OF state arena_ext_same [of "record_failure p item c"], of "{}"]
    by (intro tree_rel_fail arena_ext_same) simp_all
  then show ?thesis
    using None try_symbol_ev [OF assms(1), of c]
    by (simp add: token_parse_def record_terminal_expected_def record_failure_lazy_eq)
next
  case (Some q)
  obtain n c1 where mk: "make_node (next_pos c) = (n, c1)" by (cases "make_node (next_pos c)")
  note n = node_at_make_node [OF mk] and f = make_node_fields [OF mk]
  let ?c = "upd_node n (\<lambda>n. n\<lparr>start_offset := mark c1 - 1, end_offset := mark c1\<rparr>) c1"
  have p: "m_position c < length (m_input c)" "m_position c1 = Suc (m_position c)"
    using Some f by (auto simp: ev_symbol_def next_pos_def input_size_def split: if_splits)
  have "arena_ext {} c c1"
    by (rule arena_ext_trans [OF arena_ext_same arena_ext_make_node [OF mk]]) simp_all
  then have ext: "arena_ext {} c ?c"
    by (rule arena_ext_fresh [OF _ arena_ext_upd, of _ _ _ n "{n}"]) (use n in auto)
  have node: "node_at n ?c = empty_node\<lparr>start_offset := m_position c, end_offset := Suc (m_position c)\<rparr>"
    using n p(2) by (auto simp: node_at_upd_node mark_def)
  have fresh: "n \<notin> X" using state n by (auto simp: tree_state_def)
  have "raw_node ?c X n"
    using node fresh n by (auto simp: raw_node_def empty_node_def)
  then have den: "den G dflt ?c X (TokenExpr v) n (ElemV (m_input c ! m_position c))"
    using den_intros(1) [of ?c X n G dflt v] node p(1) arena_ext_input [OF ext] by simp
  have "tree_rel X G dflt c (TokenExpr v) (Some (q, ElemV (m_input c ! m_position c), False)) (ok_result (Some n)) ?c"
    using tree_rel_fresh [OF state ext, of "TokenExpr v" "ElemV (m_input c ! m_position c)" q] n f node den
    by (simp add: empty_node_def)
  then show ?thesis
    using Some try_symbol_ev [OF assms(1), of c] mk by (simp add: token_parse_def)
qed

lemma matcher_tree:
  assumes "matcher_ok fn" and state: "tree_state (set (frame_ids c)) X G dflt c" and "m_position c \<le> input_size c"
  shows "post (matcher_parse fn c) (tree_rel X G dflt c (MatcherExpr fn)
    (map_option (\<lambda>q. (q, VoidV, False)) (map_option sp_end (fn (m_input c) (Span (m_position c) (m_position c)))))) no_throw"
proof (cases "fn (m_input c) (Span (m_position c) (m_position c))")
  case None
  then show ?thesis
    using state by (simp add: matcher_parse_def mark_def tree_rel_fail)
next
  case (Some sp)
  then have "sp_end sp \<le> input_size c"
    using assms(1,3) by (auto simp: matcher_ok_def input_size_def)
  then have r: "reset (sp_end sp) c = Ret () (c\<lparr>m_position := sp_end sp\<rparr>)" by (simp add: reset_def)
  obtain n c1 where mk: "make_node (c\<lparr>m_position := sp_end sp\<rparr>) = (n, c1)" by (cases "make_node (c\<lparr>m_position := sp_end sp\<rparr>)")
  note n = node_at_make_node [OF mk] and f = make_node_fields [OF mk]
  let ?c = "upd_node n (\<lambda>n. n\<lparr>start_offset := mark c, end_offset := sp_end sp\<rparr>) c1"
  have "arena_ext {} c c1"
    by (rule arena_ext_trans [OF arena_ext_same arena_ext_make_node [OF mk]]) simp_all
  then have ext: "arena_ext {} c ?c"
    by (rule arena_ext_fresh [OF _ arena_ext_upd, of _ _ _ n "{n}"]) (use n in auto)
  have "producer (node_at n ?c) = None"
    using n by (auto simp: node_at_upd_node empty_node_def)
  then have "tree_rel X G dflt c (MatcherExpr fn) (Some (sp_end sp, VoidV, False)) (ok_result (Some n)) ?c"
    using tree_rel_fresh [OF state ext, of "MatcherExpr fn" VoidV "sp_end sp"] n f
    by (simp add: valued_def is_void_def)
  then show ?thesis
    using Some r mk by (simp add: matcher_parse_def mark_def)
qed

subsection \<open>The engine\<close>

lemma tree_parsersI:
  assumes "\<And>n e c X res. wf_expr G e \<Longrightarrow> sound G c \<Longrightarrow> pending h G c \<Longrightarrow> tree_state (set (frame_ids c)) X G dflt c \<Longrightarrow>
      sem h G dflt (m_input c) e (m_position c) = Some res \<Longrightarrow>
      post (parse n G e c) (tree_rel X G dflt c e res) no_throw"
  shows "tree_parsers G (parse n G) (run_skipper (\<lambda>r. parse n G (RuleExpr r))) h dflt"
  by (intro tree_parsers.intro tree_parsers_axioms.intro packrat_parsersI engine_agrees assms)

lemma rep_valued:
  "valued (ZeroOrMoreExpr a) \<Longrightarrow> vec_value a = VecV"
  "valued (OneOrMoreExpr a) \<Longrightarrow> vec_value a = VecV"
  "valued (NTimesExpr a k) \<Longrightarrow> vec_value a = VecV"
  "valued (OptionalExpr a) \<Longrightarrow> opt_value a = (\<lambda>vs. OptV (case vs of [] \<Rightarrow> None | v # _ \<Rightarrow> Some v))"
  by (auto simp: vec_value_def opt_value_def valued_def is_void_def)

lemma engine_tree:
  "wf_expr G e \<Longrightarrow> sound G c \<Longrightarrow> pending h G c \<Longrightarrow> tree_state (set (frame_ids c)) X G dflt c \<Longrightarrow>
    sem h G dflt (m_input c) e (m_position c) = Some res \<Longrightarrow>
    post (parse n G e c) (tree_rel X G dflt c e res) no_throw"
proof (induction h arbitrary: n e c X res)
  case 0
  then show ?case by simp
next
  case (Suc h)
  have kids: "tree_parsers G (parse m G) (run_skipper (\<lambda>r. parse m G (RuleExpr r))) h dflt" for m
    by (rule tree_parsersI) (rule Suc.IH)
  have pend: "pending h G c" by (rule pending_less [OF Suc.prems(3)]) simp
  note sem = Suc.prems(5) and wf = Suc.prems(1)
  show ?case
  proof (cases n)
    case 0
    then show ?thesis by simp
  next
    case n: (Suc m)
    note prems = Suc.prems(2) pend Suc.prems(4)
    note rep = tree_parsers.repeat_tree [OF kids [of m] _ prems, where n = m and e = e]
    show ?thesis
    proof (cases e)
      case (RuleExpr r)
      show ?thesis
      proof (cases "ev h G (m_input c) (RuleExpr r) (m_position c)")
        case (Some res')
        then have "sem h G dflt (m_input c) (RuleExpr r) (m_position c) = Some res"
          using sem_less [of h G "m_input c" "RuleExpr r" "m_position c" "Suc h" dflt res] sem RuleExpr by simp
        then show ?thesis
          using Suc.IH [OF wf prems] RuleExpr by simp
      next
        case None
        then show ?thesis
          using tree_parsers.nonterminal_tree [OF kids [of m] Suc.prems(2,3,4) _ _ None, of res m]
            wf sem RuleExpr n by simp
      qed
    next
      case (TerminalExpr v)
      then show ?thesis
        using terminal_tree [of "g_ops G" v c X G dflt] Suc.prems(4) wf sem n by (simp add: void_match_def)
    next
      case (TokenExpr v)
      then show ?thesis
        using token_tree [of "g_ops G" v c X G dflt] Suc.prems(4) wf sem n by simp
    next
      case (TerminalSeqExpr vs)
      then show ?thesis
        using terminal_seq_tree [OF Suc.prems(4), of "g_ops G" vs] sem n by (simp add: void_match_def)
    next
      case (MatcherExpr fn)
      then show ?thesis
        using matcher_tree [of fn c X G dflt] Suc.prems(4) wf sem n sound_inv.in_bounds [OF Suc.prems(2)]
        by (simp add: void_match_def)
    next
      case EmptyExpr
      then show ?thesis
        using sem n tree_rel_quiet [OF Suc.prems(4), of c EmptyExpr "Some (m_position c)" "ok_result None"]
        by (simp add: void_match_def empty_parse_def is_void_def ok_result_def)
    next
      case CutExpr
      then show ?thesis using sem by simp
    next
      case (SequenceExpr es)
      then obtain x where "sem_seq (sem h G dflt (m_input c)) es (m_position c) = Some x"
          "res = map_option (\<lambda>(q, vs). (q, collapse_value vs, False)) x"
        using sem by auto
      then show ?thesis
        using tree_parsers.sequence_tree [OF kids [of m] _ prems, of es x] wf SequenceExpr n by simp
    next
      case (AlternationExpr es)
      then show ?thesis
        using tree_parsers.alternation_tree [OF kids [of m] _ prems, of es res] wf sem n by simp
    next
      case (ZeroOrMoreExpr a)
      then show ?thesis
        using rep [of a h "vec_value a" 0 "- 1" res] wf sem n by (simp add: rep_valued)
    next
      case (OneOrMoreExpr a)
      then show ?thesis
        using rep [of a h "vec_value a" 1 "- 1" res] wf sem n by (simp add: rep_valued)
    next
      case (NTimesExpr a k)
      then show ?thesis
        using rep [of a h "vec_value a" k "to_int64 k" res] wf sem n by (simp add: rep_valued)
    next
      case (OptionalExpr a)
      then show ?thesis
        using rep [of a h "opt_value a" 0 1 res] wf sem n by (simp add: rep_valued)
    next
      case (NotExpr a)
      then obtain re where re: "sem h G dflt (m_input c) a (m_position c) = Some re"
        using sem by (auto split: option.splits)
      then show ?thesis
        using tree_parsers.predicate_tree [OF kids [of m] _ prems re, of "NotExpr a" True] wf sem NotExpr n
        by (simp add: void_match_def is_void_def)
    next
      case (AndExpr a)
      then obtain re where re: "sem h G dflt (m_input c) a (m_position c) = Some re"
        using sem by (auto split: option.splits)
      then show ?thesis
        using tree_parsers.predicate_tree [OF kids [of m] _ prems re, of "AndExpr a" False] wf sem AndExpr n
        by (cases re) (simp_all add: void_match_def is_void_def)
    next
      case (LexemeExpr a)
      then show ?thesis
        using tree_parsers.lexeme_tree [OF kids [of m] _ prems, of a res] wf sem n by simp
    qed
  qed
qed

interpretation trees: tree_parsers G "parse n G" "run_skipper (\<lambda>r. parse n G (RuleExpr r))" h dflt
  for n h G dflt
  by (rule tree_parsersI) (rule engine_tree)

subsection \<open>\<open>parse_ast\<close>\<close>

lemma start_tree_state: "typed_grammar G \<Longrightarrow> tree_state P {} G dflt (start_ctx s input)"
  by (simp add: tree_state_def memo_lookup_def)

lemma fold_start_rule:
  assumes "den G dflt c X (RuleExpr rule) t v"
  shows "fold_start n G dflt c (Some t) rule = fold_rule (fold_expr n G dflt c) G dflt c (Some t)"
proof (cases "typed_fold G rule")
  case (Some ef)
  have own: "rule_node c {} t rule"
    using assms den_node(1) [OF assms] Some by (auto elim!: den_ruleE simp: rule_node_def)
  show ?thesis
    using Some by (cases ef) (simp add: fold_start_def fold_rule_owner [OF own])
qed (simp add: fold_start_def)

text \<open>The tree of a whole parse, and what it denotes, whatever the fuel.\<close>

lemma parse_tree_den:
  assumes "wf_grammar G" "cut_free_grammar G" "typed_grammar G" "defined_rule G rule"
    and "sem h G dflt input (RuleExpr rule) 0 = Some res"
  shows "\<exists>r c. (\<forall>n \<ge> fuel_bound G (RuleExpr rule) input.
        parse n G (RuleExpr rule) (start_ctx None input) = Ret r c) \<and>
    (case res of None \<Rightarrow> tree r = None
     | Some (q, v, own) \<Rightarrow> \<exists>t w. tree r = Some t \<and> v = NodeV w \<and> den G dflt c {} (RuleExpr rule) t v)"
proof -
  let ?e = "RuleExpr rule :: 'a expr" and ?c = "start_ctx None input"
  have wf: "wf_expr G ?e" using assms(4) by simp
  have skip: "skipper_ok G None" by (simp add: skipper_ok_def)
  obtain r c where ret: "parse (fuel_bound G ?e input) G ?e ?c = Ret r c"
    using cut_free_total [OF assms(1,2) skip wf _ order_refl, of input] by auto
  have all: "parse n G ?e ?c = Ret r c" if "fuel_bound G ?e input \<le> n" for n
    using parse_le [OF that, of G ?e ?c] ret by (simp add: le_o_def)
  have start: "sound G ?c" by (rule start_ctx_sound [OF assms(1)])
  have "post (parse (fuel_bound G ?e input) G ?e ?c)
      (\<lambda>r c'. good G ?c (ends res) r c' \<and> tree_rel {} G dflt ?c ?e res r c') no_throw"
    using assms(5) by (intro trees.run_both wf start start_ctx_pending start_tree_state assms(3)) simp
  then have g: "ret_rel G ?c r c" "agrees (ends res) r c" "tree_rel {} G dflt ?c ?e res r c"
    using ret by simp_all
  have "valued ?e" by (simp add: valued_def is_void_def)
  then have tree: "\<exists>t. tree r = Some t \<and> den G dflt c {} ?e t v" if "res = Some (q, v, own)" for q v own
    using g(3) that by (auto simp: tree_rel_def node_rel_def)
  have "case res of None \<Rightarrow> tree r = None
     | Some (q, v, own) \<Rightarrow> \<exists>t w. tree r = Some t \<and> v = NodeV w \<and> den G dflt c {} ?e t v"
  proof (cases res)
    case None
    then show ?thesis using g(1,2) by (simp add: agrees_def ret_rel_def)
  next
    case (Some x)
    then show ?thesis using tree den_rule_owned by (cases x) fastforce
  qed
  with all show ?thesis by blast
qed

text \<open>The hook walk and the fold of that tree, once the fuel covers them.\<close>

lemma parse_ast_tree:
  assumes "lookup_rule G rule \<noteq> None" and "g_skipper G = None"
    and "parse n G (RuleExpr rule) (start_ctx None input) = Ret r c"
  shows "tree r = None \<Longrightarrow> grammar_parse_ast n G dflt rule (make_ctx input) = Ret None c"
    and "tree r = Some t \<Longrightarrow> length (m_node_arena c) < n \<Longrightarrow> fold_start n G dflt c (Some t) rule = Ret w s \<Longrightarrow>
      \<exists>hooks. grammar_parse_ast n G dflt rule (make_ctx input) = Ret (Some (w, hooks)) c"
proof -
  have "run_skipper (\<lambda>r. parse n G (RuleExpr r)) (start_ctx None input) = Ret () (start_ctx None input)"
    by (simp add: run_skipper_def)
  then have "grammar_parse_tree n G rule (make_ctx input) = Ret (tree r) c" "\<exists>nt. lookup_rule G rule = Some nt"
    using assms by (auto simp: grammar_parse_tree_def enter_rule_def internal_set_skipper_start Let_def
        split: option.splits)
  note run = this
  show "tree r = None \<Longrightarrow> grammar_parse_ast n G dflt rule (make_ctx input) = Ret None c"
    using run by (auto simp: grammar_parse_ast_def)
  assume t: "tree r = Some t" and n: "length (m_node_arena c) < n" and w: "fold_start n G dflt c (Some t) rule = Ret w s"
  obtain hooks where "fire_on_match n G c (Some t) (Some rule) = Ret hooks 0"
    using fire_on_match_finite [OF parse_fin_node [OF assms(3) t], of n G "Some rule"] n by auto
  then show "\<exists>hooks. grammar_parse_ast n G dflt rule (make_ctx input) = Ret (Some (w, hooks)) c"
    using run t w by (auto simp: grammar_parse_ast_def)
qed

lemma parse_ast_sem:
  assumes "wf_grammar G" and "cut_free_grammar G" and "typed_grammar G" and "g_skipper G = None"
    and "defined_rule G rule" and "sem h G dflt input (RuleExpr rule) 0 = Some res"
  shows "case res of
      None \<Rightarrow> \<exists>c N. \<forall>n\<ge>N. grammar_parse_ast n G dflt rule (make_ctx input) = Ret None c
    | Some (q, v, own) \<Rightarrow> \<exists>w c N. v = NodeV w \<and>
        (\<forall>n\<ge>N. \<exists>hooks. grammar_parse_ast n G dflt rule (make_ctx input) = Ret (Some (w, hooks)) c)"
proof -
  let ?B = "fuel_bound G (RuleExpr rule) input"
  obtain r c where ret: "\<And>n. ?B \<le> n \<Longrightarrow> parse n G (RuleExpr rule) (start_ctx None input) = Ret r c"
    and d: "case res of None \<Rightarrow> tree r = None
     | Some (q, v, own) \<Rightarrow> \<exists>t w. tree r = Some t \<and> v = NodeV w \<and> den G dflt c {} (RuleExpr rule) t v"
    using parse_tree_den [OF assms(1,2,3,5,6)] by blast
  have "lookup_rule G rule \<noteq> None"
    using assms(5) by (auto simp: defined_rule_def split: option.splits)
  note run = parse_ast_tree [OF this assms(4) ret]
  show ?thesis
  proof (cases res)
    case None
    then have "\<forall>n\<ge>?B. grammar_parse_ast n G dflt rule (make_ctx input) = Ret None c"
      using d run(1) by simp
    then show ?thesis using None by auto
  next
    case (Some x)
    then obtain q v own t w where x: "res = Some (q, v, own)" "tree r = Some t" "v = NodeV w"
        "den G dflt c {} (RuleExpr rule) t v"
      using d by (cases x) auto
    then have "den_rule G dflt c {} t w" by (auto dest: den_rule_owned)
    then obtain N where N: "rule_folds G dflt c t w N"
      using den_rule_folds [of G dflt c "{}" t w] by blast
    have "\<exists>hooks. grammar_parse_ast n G dflt rule (make_ctx input) = Ret (Some (w, hooks)) c"
      if n: "max ?B (max N (Suc (length (m_node_arena c)))) \<le> n" for n
    proof -
      have "N \<le> n" using n by simp
      then obtain s where "fold_rule (fold_expr n G dflt c) G dflt c (Some t) = Ret w s"
        using N unfolding rule_folds_def by blast
      then show ?thesis
        using run(2) [of n t dflt w s] n x(2) fold_start_rule [OF x(4), of n] by simp
    qed
    then have "\<forall>n \<ge> max ?B (max N (Suc (length (m_node_arena c)))). \<exists>hooks. grammar_parse_ast n G dflt rule (make_ctx input) = Ret (Some (w, hooks)) c"
      by blast
    then show ?thesis unfolding x(1,3) option.case prod.case by blast
  qed
qed

text \<open>
  C3: \<open>parse_ast\<close> computes the value a recursive-descent interpreter of the grammar computes
  on the way: for a grammar without cuts, recovery and skipper whose actions sit on
  bodies the fold follows (\<open>typed_grammar\<close>), whenever the reference semantics gives the
  rule a result on the input, every run of \<open>parse_ast\<close> with enough fuel returns, with no
  value when the rule does not match, and with the value of the rule when it does. The
  memo, the sharing of nodes, the stamps of the choices and the cursors of the fold leave
  no trace in it.
\<close>

theorem parse_ast_correct:
  assumes "wf_grammar G" and "cut_free_grammar G" and "typed_grammar G" and "g_skipper G = None"
    and "defined_rule G rule" and "sem h G dflt input (RuleExpr rule) 0 = Some res"
  shows "case res of
      None \<Rightarrow> \<exists>c N. \<forall>n\<ge>N. grammar_parse_ast n G dflt rule (make_ctx input) = Ret None c
    | Some (q, v, own) \<Rightarrow> \<exists>w c N. v = NodeV w \<and>
        (\<forall>n\<ge>N. \<exists>hooks. grammar_parse_ast n G dflt rule (make_ctx input) = Ret (Some (w, hooks)) c)"
  by (rule parse_ast_sem [OF assms])

text \<open>The reference semantics of \<open>plain_grammar\<close> on \<open>1 4 2\<close>: the rule matches all of it, with the value \<open>23\<close>.\<close>

lemma plain_ready:
  "wf_grammar plain_grammar" "cut_free_grammar plain_grammar" "defined_rule plain_grammar ''S''"
  "typed_grammar plain_grammar"
  by (simp_all add: plain_grammar_def num_grammar_def digit_rule_def typed_rule_def wf_grammar_def
      cut_free_grammar_def defined_rule_def lookup_rule_def is_defined_def new_non_terminal_def token_ops_def
      typed_grammar_def is_void_def no_recovery_def)

lemma plain_sem:
  "g_skipper plain_grammar = None"
  "sem 5 plain_grammar 0 [1, 4, 2] (RuleExpr ''S'') 0 = Some (Some (3, NodeV 23, True))"
  by code_simp+

theorem parse_ast_correct_witness:
  "\<exists>c N. \<forall>n\<ge>N. \<exists>hooks. grammar_parse_ast n plain_grammar 0 ''S'' (make_ctx [1, 4, 2]) = Ret (Some (23, hooks)) c"
  using parse_ast_correct [OF plain_ready(1,2,4) plain_sem(1) plain_ready(3) plain_sem(2)] by auto

end
