(* ===== verification/Left_Recursion.thy ===== *)
theory Left_Recursion
  imports Packrat
begin

text \<open>
  Direct left recursion. The recogniser \<open>evl\<close> gives it a meaning: a rule is evaluated by
  growing a seed, and its own call at its position, while its body runs, is the seed. The
  engine agrees with it, by the same locale as in \<open>Packrat\<close>, and a rule whose alternatives
  begin with itself comes out as the iteration it stands for.
\<close>

subsection \<open>The recogniser\<close>

text \<open>The innermost running rule, its position, and its seed.\<close>

type_synonym seeded = "(rule_ref \<times> nat \<times> nat option) option"

definition seed_of :: "seeded \<Rightarrow> rule_ref \<Rightarrow> nat \<Rightarrow> ev_result" where
  "seed_of sd r p = (case sd of Some (r', p', s) \<Rightarrow> if r' = r \<and> p' = p then Some s else None | None \<Rightarrow> None)"

text \<open>Every seed but the last ends further right, so this many runs of the body are enough.\<close>

definition grown_end :: "'c list \<Rightarrow> (nat option \<Rightarrow> ev_result) \<Rightarrow> nat \<Rightarrow> ev_result" where
  "grown_end input B p = grow (length input + 2) B p None"

text \<open>
  \<open>None\<close>: out of fuel, as always for indirect left recursion, where the innermost running
  rule is not the one called again.
\<close>

primrec evl :: "nat \<Rightarrow> ('c, 'v) grammar \<Rightarrow> 'c list \<Rightarrow> seeded \<Rightarrow> 'c expr \<Rightarrow> nat \<Rightarrow> ev_result" where
  "evl 0 G input sd e p = None"
| "evl (Suc n) G input sd e p =
     (case e of
        RuleExpr r \<Rightarrow>
          (case seed_of sd r p of
             Some s \<Rightarrow> Some s
           | None \<Rightarrow>
               (case lookup_rule G r of
                  None \<Rightarrow> None
                | Some nt \<Rightarrow>
                    (case m_rule nt of
                       None \<Rightarrow> None
                     | Some body \<Rightarrow> map_option (ev_recover nt input p)
                         (grown_end input (\<lambda>s. evl n G input (Some (r, p, s)) body p) p))))
      | _ \<Rightarrow> ev_step n G input (evl n G input sd) e p)"

lemma evl_other: "\<forall>r. e \<noteq> RuleExpr r \<Longrightarrow> evl (Suc n) G input sd e p = ev_step n G input (evl n G input sd) e p"
  by (cases e) simp_all

lemma evl_rule:
  assumes "lookup_rule G r = Some nt" "m_rule nt = Some body" "seed_of sd r p = None"
  shows "evl (Suc n) G input sd (RuleExpr r) p = map_option (ev_recover nt input p)
    (grown_end input (\<lambda>s. evl n G input (Some (r, p, s)) body p) p)"
  using assms by simp

lemma evl_unseeded: "seed_of sd r p = None \<Longrightarrow> evl n G input sd (RuleExpr r) p = evl n G input None (RuleExpr r) p"
  by (cases n) (simp_all add: seed_of_def)

subsection \<open>More fuel, same result\<close>

lemma grow_le:
  assumes "\<And>s. le_opt (B s) (B' s)"
  shows "le_opt (grow n B p s) (grow n B' p s)"
proof (induction n arbitrary: s)
  case (Suc n)
  then show ?case
    using le_opt_cases [OF assms, of s] by (auto split: option.split)
qed simp

lemma ev_step_le:
  assumes "\<And>e p. le_opt (E e p) (E' e p)" and "n \<le> m"
  shows "le_opt (ev_step n G input E e p) (ev_step m G input E' e p)"
proof -
  have unary: "le_opt (case E a p of None \<Rightarrow> None | Some r \<Rightarrow> Some (f r)) (case E' a p of None \<Rightarrow> None | Some r \<Rightarrow> Some (f r))"
    for a and f :: "nat option \<Rightarrow> nat option"
    using le_opt_cases [OF assms(1), of a p] by auto
  show ?thesis
    unfolding ev_step_def
    by (cases e) (simp_all only: expr.case le_opt_refl ev_seq_le ev_alt_le ev_rep_le assms unary)
qed

lemma evl_le: "n \<le> m \<Longrightarrow> le_opt (evl n G input sd e p) (evl m G input sd e p)"
proof (induction n arbitrary: m sd e p)
  case 0
  then show ?case by simp
next
  case (Suc n)
  then obtain m' where m: "m = Suc m'" "n \<le> m'" by (cases m) auto
  show ?case
  proof (cases "\<exists>r. e = RuleExpr r")
    case True
    then obtain r where e: "e = RuleExpr r" by blast
    have "le_opt (grown_end input (\<lambda>s. evl n G input (Some (r, p, s)) body p) p)
        (grown_end input (\<lambda>s. evl m' G input (Some (r, p, s)) body p) p)" for body
      unfolding grown_end_def by (rule grow_le) (rule Suc.IH [OF m(2)])
    then have "le_opt (map_option f (grown_end input (\<lambda>s. evl n G input (Some (r, p, s)) body p) p))
        (map_option f (grown_end input (\<lambda>s. evl m' G input (Some (r, p, s)) body p) p))"
      for body and f :: "nat option \<Rightarrow> nat option"
      unfolding le_opt_def by fastforce
    then show ?thesis
      unfolding m(1) e evl.simps expr.case by (auto split: option.split)
  next
    case False
    then show ?thesis
      unfolding m(1) evl_other [OF False [simplified]] by (intro ev_step_le Suc.IH m(2))
  qed
qed

lemma evl_more: "evl n G input sd e p = Some r \<Longrightarrow> n \<le> m \<Longrightarrow> evl m G input sd e p = Some r"
  by (rule le_opt_Some [OF evl_le])

text \<open>The meaning of an expression at a position, outside any rule.\<close>

definition evls :: "('c, 'v) grammar \<Rightarrow> 'c list \<Rightarrow> 'c expr \<Rightarrow> nat \<Rightarrow> nat option \<Rightarrow> bool" where
  "evls G input e p r \<longleftrightarrow> (\<exists>n. evl n G input None e p = Some r)"

lemma evls_unique: "evls G input e p r \<Longrightarrow> evls G input e p s \<Longrightarrow> r = s"
  unfolding evls_def by (metis evl_more nle_le option.inject)

subsection \<open>The states of a parse\<close>

text \<open>
  Between the seeds: every final entry is what \<open>evl\<close> says, the entries of the running rules are
  those of \<open>M\<close>, and the innermost of them holds the seed.
\<close>

abbreviation evl_says :: "('c, 'v) grammar \<Rightarrow> 'c verdict" where
  "evl_says G \<equiv> (\<lambda>input r p. evls G input (RuleExpr r) p)"

definition planted :: "(rule_ref \<times> nat \<Rightarrow> rule_state option) \<Rightarrow> seeded \<Rightarrow> 'c ctx \<Rightarrow> bool" where
  "planted M sd c \<longleftrightarrow> (\<forall>(r, p) \<in> set (frame_ids c). memo_lookup r p c = M (r, p)) \<and>
     (\<forall>r p s. sd = Some (r, p, s) \<longrightarrow> (r, p) \<in> set (frame_ids c) \<and> (\<exists>st. M (r, p) = Some st \<and> entry_res st = s))"

definition steady :: "('c, 'v) grammar \<Rightarrow> (rule_ref \<times> nat \<Rightarrow> rule_state option) \<Rightarrow> seeded \<Rightarrow> 'c ctx \<Rightarrow> bool" where
  "steady G M sd c \<longleftrightarrow> memo_sound True None (evl_says G) G c \<and> planted M sd c"

definition waiting :: "nat \<Rightarrow> ('c, 'v) grammar \<Rightarrow> 'c ctx \<Rightarrow> bool" where
  "waiting h G c \<longleftrightarrow> (\<forall>(r, p) \<in> set (frame_ids c). evl h G (m_input c) None (RuleExpr r) p = None)"

lemma waiting_less: "waiting m G c \<Longrightarrow> n \<le> m \<Longrightarrow> waiting n G c"
  unfolding waiting_def using evl_le [of n m] by (fastforce simp: le_opt_def)

lemma waiting_same: "waiting h G c \<Longrightarrow> frame_ids c' = frame_ids c \<Longrightarrow> m_input c' = m_input c \<Longrightarrow> waiting h G c'"
  by (simp add: waiting_def)

lemma waiting_step: "waiting h G c \<Longrightarrow> step_rel G c c' \<Longrightarrow> waiting h G c'"
  by (rule waiting_same [OF _ step_frame_ids step_input])

lemma planted_same:
  "planted M sd c \<Longrightarrow> m_mem c' = m_mem c \<Longrightarrow> frame_ids c' = frame_ids c \<Longrightarrow> planted M sd c'"
  by (simp add: planted_def memo_lookup_def)

lemma steady_wf: "steady G M sd c \<Longrightarrow> wf_state G c"
  by (auto simp: steady_def intro: memo_sound_wf)

interpretation steady_inv: quiet_invariant "\<lambda>c. steady G M sd c \<and> waiting h G c" for G :: "('c, 'v) grammar" and M sd h
proof
  fix c c' :: "'c ctx"
  show "steady G M sd c \<and> waiting h G c \<Longrightarrow> m_position c \<le> input_size c"
    by (auto simp: steady_def intro: wf_state_pos [OF memo_sound_wf])
  assume "steady G M sd c \<and> waiting h G c" "m_position c' \<le> input_size c'" "m_input c' = m_input c" "m_skipper c' = m_skipper c"
    "length (m_node_arena c) \<le> length (m_node_arena c')" "no_cuts c \<Longrightarrow> no_cuts c'" "m_lr_stack c' = m_lr_stack c" "m_mem c' = m_mem c"
  then show "steady G M sd c' \<and> waiting h G c'"
    using memo_sound_same [of True None _ G c c'] planted_same [of M sd c c'] waiting_same [of h G c c']
    by (simp add: steady_def frame_ids_def)
qed

locale growing_parsers = child_parsers G run skip
  for G :: "('c, 'v) grammar"
    and run :: "'c expr \<Rightarrow> 'c parser"
    and skip :: "'c ctx \<Rightarrow> ('c, unit) parse_outcome" +
  fixes h :: nat
  assumes run_steady: "wf_expr G e \<Longrightarrow> steady G M sd c \<Longrightarrow> waiting h G c \<Longrightarrow>
      evl h G (m_input c) sd e (m_position c) = Some res \<Longrightarrow>
      post (run e c) (\<lambda>r c'. agrees res r c' \<and> steady G M sd c') no_throw"
    and skip_idle: "m_skipper c = None \<Longrightarrow> skip c = Ret () c"
begin

lemma run_waiting:
  assumes "wf_expr G e" "steady G M sd c" "waiting h G c"
    and "evl h G (m_input c) sd e (m_position c) = Some res"
  shows "post (run e c) (\<lambda>r c'. (agrees res r c' \<and> steady G M sd c') \<and> waiting h G c' \<and> ret_rel G c r c') no_throw"
  by (rule post_mono [OF post_conj [OF run_steady [OF assms] run_contract [OF assms(1) steady_wf [OF assms(2)]]]])
     (auto simp: ret_rel_def intro: waiting_step [OF assms(3)])

end

sublocale growing_parsers < gr: agreeing_parsers G run skip "\<lambda>c. steady G M sd c \<and> waiting h G c" "\<lambda>input. evl h G input sd"
  for M sd
proof
  fix e c res
  assume e: "wf_expr G e" and c: "steady G M sd c \<and> waiting h G c" and ev: "evl h G (m_input c) sd e (m_position c) = Some res"
  have "post (run e c) (\<lambda>r c'. (agrees res r c' \<and> steady G M sd c') \<and> waiting h G c' \<and> ret_rel G c r c') no_throw"
    using c by (intro run_waiting e ev) auto
  then show "post (run e c) (\<lambda>r c'. agrees res r c' \<and> steady G M sd c' \<and> waiting h G c') no_throw"
    by (rule post_mono) auto
qed (auto simp: steady_wf steady_def memo_sound_skipper skip_idle intro: memo_sound_no_cuts)

subsection \<open>Rules\<close>

lemma rule_left_memo:
  "post (if \<not> success inner then rule_failed nt rule p st c4 else rule_matched nt rule p st inner c4)
     (\<lambda>_ c'. \<forall>r q. (r, q) \<noteq> (rule, p) \<longrightarrow> memo_lookup r q c' = memo_lookup r q c4) (\<lambda>_ _. True)"
proof (cases "success inner")
  case True
  obtain node c5 where b: "build_rule_node nt rule p (tree inner) c4 = (node, c5)"
    by (cases "build_rule_node nt rule p (tree inner) c4")
  have "m_mem c5 = m_mem c4"
    using b by (auto simp: build_rule_node_def Let_def make_node_def push_child_def upd_node_def split: if_splits option.splits)
  then show ?thesis
    using True by (auto simp: rule_matched_def b Let_def memo_lookup_update) (simp_all add: memo_lookup_def)
next
  case False
  have "m_mem (record_rule_failure nt p c4) = m_mem c4"
    by (simp add: record_rule_failure_def record_failure_def)
  then have "memo_lookup r q (record_rule_failure nt p c4) = memo_lookup r q c4" for r q
    by (simp add: memo_lookup_def)
  then show ?thesis
    using False
    by (auto simp: rule_failed_def Let_def memo_lookup_update reset_def record_diagnostic_def split: option.split)
qed

text \<open>What the runs of a growing body keep.\<close>

definition growing ::
  "nat \<Rightarrow> ('c, 'v) grammar \<Rightarrow> (rule_ref \<times> nat \<Rightarrow> rule_state option) \<Rightarrow> 'c ctx \<Rightarrow> rule_ref \<Rightarrow> 'c ctx \<Rightarrow> bool" where
  "growing h G M c rule s \<longleftrightarrow> memo_sound True None (evl_says G) G s \<and> waiting h G s \<and> m_input s = m_input c \<and>
     frame_ids s = (rule, m_position c) # frame_ids c \<and>
     (\<forall>(r, p) \<in> set (frame_ids c). memo_lookup r p s = M (r, p))"

lemma growing_step:
  assumes "growing h G M c rule s" and "wf_state G s'" and "frame_step (rule, m_position c) s s'"
    and "(rule, m_position c) \<notin> set (frame_ids c)"
  shows "growing h G M c rule s'"
proof -
  have "memo_sound True None (evl_says G) G s'"
    using assms by (intro memo_sound_frame_step [OF _ assms(2,3)]) (simp_all add: growing_def)
  moreover have "memo_lookup r p s' = M (r, p)" if "(r, p) \<in> set (frame_ids c)" for r p
    using frame_step_running [OF assms(3), of r p] assms(1,4) that by (fastforce simp: growing_def)
  ultimately show ?thesis
    using assms waiting_same [of h G s s'] by (auto simp: growing_def frame_step_def)
qed

lemma growing_entered:
  assumes "steady G M sd c" "waiting h G c" "(rule, m_position c) \<notin> set (frame_ids c)"
    and "evl h G (m_input c) None (RuleExpr rule) (m_position c) = None"
  shows "growing h G M c rule (entered rule c)"
  using assms memo_sound_entered [of True None "evl_says G" G c rule]
  by (auto simp: growing_def steady_def planted_def waiting_def entered_lookup)

lemma growing_entry: "growing h G M c rule s \<Longrightarrow> memo_lookup rule (m_position c) s \<noteq> None"
  using memo_sound_running [of True None "evl_says G" G s rule "m_position c"] by (simp add: growing_def)

context growing_parsers
begin

lemma body_growing:
  assumes e: "wf_expr G e" and s: "growing h G M c rule s" "m_position s = m_position c"
    and out: "(rule, m_position c) \<notin> set (frame_ids c)" and st: "memo_lookup rule (m_position c) s = Some st"
    and ev: "evl h G (m_input c) (Some (rule, m_position c, entry_res st)) e (m_position c) = Some re"
  shows "post (run e s) (\<lambda>r s'. agrees re r s' \<and> growing h G M c rule s') no_throw"
proof -
  let ?k = "(rule, m_position c)"
  let ?M = "M(?k := Some st)" and ?sd = "Some (rule, m_position c, entry_res st)"
  have "steady G ?M ?sd s"
    using s(1) st out by (auto simp: steady_def planted_def growing_def)
  then have "post (run e s) (\<lambda>r s'. (agrees re r s' \<and> steady G ?M ?sd s') \<and> waiting h G s' \<and> ret_rel G s r s') no_throw"
    using s ev by (intro run_waiting e) (simp_all add: growing_def)
  then show ?thesis
  proof (rule post_mono)
    fix r s' assume g: "(agrees re r s' \<and> steady G ?M ?sd s') \<and> waiting h G s' \<and> ret_rel G s r s'"
    have same: "frame_ids s' = frame_ids s" "m_input s' = m_input s"
      using g step_frame_ids [of G s s'] step_input [of G s s'] by (simp_all add: ret_rel_def)
    have "memo_lookup r p s' = M (r, p)" if "(r, p) \<in> set (frame_ids c)" for r p
    proof -
      have "memo_lookup r p s' = ?M (r, p)"
        using g that same s(1) unfolding steady_def planted_def growing_def by fastforce
      moreover have "(r, p) \<noteq> ?k" using that out by blast
      ultimately show ?thesis by (simp only: fun_upd_def if_False)
    qed
    then show "agrees re r s' \<and> growing h G M c rule s'"
      using g same s(1) by (auto simp: growing_def steady_def)
  qed simp
qed

lemma nonterminal_fresh:
  assumes c: "steady G M sd c" "waiting h G c" and nt: "lookup_rule G rule = Some nt" "m_rule nt = Some e"
    and new: "evl h G (m_input c) None (RuleExpr rule) (m_position c) = None"
    and out: "(rule, m_position c) \<notin> set (frame_ids c)"
    and bres: "grown_end (m_input c) (\<lambda>s. evl h G (m_input c) (Some (rule, m_position c, s)) e (m_position c)) (m_position c) = Some bres"
  shows "post (parse_fresh n run nt rule (m_position c) (snd (rule_state rule (m_position c) c)))
    (\<lambda>r c'. agrees (ev_recover nt (m_input c) (m_position c) bres) r c' \<and> memo_sound True None (evl_says G) G c' \<and>
       (\<forall>(r, p) \<in> set (frame_ids c). memo_lookup r p c' = M (r, p))) no_throw"
proof -
  let ?p = "m_position c"
  let ?B = "\<lambda>s. evl h G (m_input c) (Some (rule, ?p, s)) e ?p"
  have wfe: "wf_expr G e"
    using steady_wf [OF c(1)] wf_grammar_body [OF _ nt] by (simp add: wf_state_def)
  have "evl (Suc h) G (m_input c) None (RuleExpr rule) ?p = Some (ev_recover nt (m_input c) ?p bres)"
    using evl_rule [OF nt, of None ?p h "m_input c"] bres by (simp add: seed_of_def)
  then have V: "evls G (m_input c) (RuleExpr rule) ?p (ev_recover nt (m_input c) ?p bres)"
    unfolding evls_def by blast
  show ?thesis
  proof (rule parse_fresh_keeps [where J = "\<lambda>_. growing h G M c rule" and B = ?B and t = False, unfolded yields_partial,
        OF nt steady_wf [OF c(1)] _ _ _ _ bres [unfolded grown_end_def]])
    fix s s' assume "growing h G M c rule s" "wf_state G s'" "frame_step (rule, ?p) s s'"
    then show "growing h G M c rule s'" using growing_step out by blast
  next
    fix s v assume "growing h G M c rule s" "memo_lookup rule ?p s = None"
    then show "?B v = ?B None" using growing_entry by blast
  next
    fix st s re
    assume "growing h G M c rule s" "m_position s = ?p" "memo_lookup rule ?p s = Some st" "?B (entry_res st) = Some re"
    then show "post (run e s) (\<lambda>r s'. agrees re r s' \<and> growing h G M c rule s') no_throw"
      by (intro body_growing wfe out)
  next
    show "growing h G M c rule (entered rule c)" by (rule growing_entered [OF c out new])
  next
    fix inner st s c4
    assume s: "growing h G M c rule s" and same: "same_but_stack (rule, ?p) s c4" and left: "rule_left G c bres inner st c4"
    let ?m = "if \<not> success inner then rule_failed nt rule ?p st c4 else rule_matched nt rule ?p st inner c4"
    have "post ?m (\<lambda>r c'. agrees (ev_recover nt (m_input c) ?p bres) r c' \<and> memo_sound True None (evl_says G) G c') no_throw"
      using s c(1) same left V by (intro rets_imp_post [OF rule_left_agrees]) (auto simp: growing_def steady_def)
    then have "post ?m (\<lambda>r c'. (agrees (ev_recover nt (m_input c) ?p bres) r c' \<and> memo_sound True None (evl_says G) G c') \<and>
        (\<forall>r q. (r, q) \<noteq> (rule, ?p) \<longrightarrow> memo_lookup r q c' = memo_lookup r q c4)) no_throw"
      using rule_left_memo by (rule post_conj)
    then show "post ?m (\<lambda>r c'. agrees (ev_recover nt (m_input c) ?p bres) r c' \<and> memo_sound True None (evl_says G) G c' \<and>
        (\<forall>(r, p) \<in> set (frame_ids c). memo_lookup r p c' = M (r, p))) no_throw"
    proof (rule post_mono)
      fix r c' assume g: "(agrees (ev_recover nt (m_input c) ?p bres) r c' \<and> memo_sound True None (evl_says G) G c') \<and>
        (\<forall>r q. (r, q) \<noteq> (rule, ?p) \<longrightarrow> memo_lookup r q c' = memo_lookup r q c4)"
      have "memo_lookup r q c' = M (r, q)" if "(r, q) \<in> set (frame_ids c)" for r q
      proof -
        have "(r, q) \<noteq> (rule, ?p)" using that out by blast
        then have "memo_lookup r q c' = memo_lookup r q c4" using g by blast
        also have "\<dots> = memo_lookup r q s" using same by (simp add: same_but_stack_def memo_lookup_def)
        also have "\<dots> = M (r, q)" using s that by (auto simp: growing_def)
        finally show ?thesis .
      qed
      then show "agrees (ev_recover nt (m_input c) ?p bres) r c' \<and> memo_sound True None (evl_says G) G c' \<and>
        (\<forall>(r, p) \<in> set (frame_ids c). memo_lookup r p c' = M (r, p))"
        using g by blast
    qed simp
  qed simp
qed

lemma nonterminal_steady:
  assumes c: "steady G M sd c" "waiting (Suc h) G c" and rule: "defined_rule G rule"
    and ev: "evl (Suc h) G (m_input c) sd (RuleExpr rule) (m_position c) = Some res"
    and new: "seed_of sd rule (m_position c) = None \<Longrightarrow> evl h G (m_input c) None (RuleExpr rule) (m_position c) = None"
  shows "post (nonterminal_parse n run G rule c) (\<lambda>r c'. agrees res r c' \<and> steady G M sd c') no_throw"
proof -
  let ?p = "m_position c"
  obtain nt e where nt: "lookup_rule G rule = Some nt" "m_rule nt = Some e"
    using rule by (auto simp: defined_rule_def is_defined_def split: option.splits)
  have sound: "memo_sound True None (evl_says G) G c" and plant: "planted M sd c"
    using c(1) by (simp_all add: steady_def)
  have entry: "post (reenter rule ?p st c) (\<lambda>r c'. agrees res r c' \<and> steady G M sd c') no_throw"
    if "memo_lookup rule ?p c = Some st" "res = entry_res st" for st
    using rets_imp_post [OF reenter_entry [OF steady_wf [OF c(1)] that(1)], of no_throw]
  proof (rule post_mono)
    fix r c' assume "agrees (entry_res st) r c' \<and> r = m_cached_result st \<and> only_position c c'"
    then show "agrees res r c' \<and> steady G M sd c'"
      using that(2) memo_sound_only_position [OF sound, of c'] planted_same [OF plant, of c']
      by (auto simp: steady_def only_position_def)
  qed simp
  show ?thesis
  proof (cases "seed_of sd rule ?p")
    case (Some s)
    then have sd: "sd = Some (rule, ?p, s)" by (auto simp: seed_of_def split: option.splits if_splits)
    then obtain st where st: "memo_lookup rule ?p c = Some st" "entry_res st = s"
      using plant by (fastforce simp: planted_def)
    moreover have "res = s" using ev Some by simp
    ultimately have "post (reenter rule ?p st c) (\<lambda>r c'. agrees res r c' \<and> steady G M sd c') no_throw"
      by (intro entry) simp_all
    then show ?thesis
      using st(1) by (intro nonterminal_cases [OF nt(1)]) simp_all
  next
    case None
    have ev': "evl (Suc h) G (m_input c) None (RuleExpr rule) ?p = Some res"
      using ev evl_unseeded [OF None, of "Suc h" G "m_input c"] by metis
    have out: "(rule, ?p) \<notin> set (frame_ids c)"
      using c(2) ev' by (auto simp: waiting_def simp del: evl.simps)
    obtain bres where bres: "grown_end (m_input c) (\<lambda>s. evl h G (m_input c) (Some (rule, ?p, s)) e ?p) ?p = Some bres"
      and res: "res = ev_recover nt (m_input c) ?p bres"
      using ev' nt by (auto simp: seed_of_def)
    show ?thesis
    proof (rule nonterminal_cases [OF nt(1)])
      show "post (parse_fresh n run nt rule ?p (snd (rule_state rule ?p c)))
          (\<lambda>r c'. agrees res r c' \<and> steady G M sd c') no_throw" if look: "memo_lookup rule ?p c = None"
      proof -
        have ids: "post (parse_fresh n run nt rule ?p (snd (rule_state rule ?p c))) (\<lambda>r c'. frame_ids c' = frame_ids c) (\<lambda>_ _. True)"
          using nonterminal_contract [OF rule steady_wf [OF c(1)], of n] look nt(1) rule_state_fst [of rule ?p c]
          by (cases "rule_state rule ?p c"; cases "parse_fresh n run nt rule ?p (snd (rule_state rule ?p c))")
             (auto simp: nonterminal_parse_def mark_def ret_rel_def intro: step_frame_ids)
        show ?thesis
        proof (rule post_mono [OF post_conj [OF nonterminal_fresh [OF c(1) waiting_less [OF c(2)] nt new [OF None] out bres] ids]])
          fix r c'
          assume g: "(agrees (ev_recover nt (m_input c) ?p bres) r c' \<and> memo_sound True None (evl_says G) G c' \<and>
            (\<forall>(r, p) \<in> set (frame_ids c). memo_lookup r p c' = M (r, p))) \<and> frame_ids c' = frame_ids c"
          have "planted M sd c'" using g plant by (auto simp: planted_def)
          then show "agrees res r c' \<and> steady G M sd c'" using g res by (simp add: steady_def)
        qed simp_all
      qed
    next
      fix st assume st: "memo_lookup rule ?p c = Some st"
      have "evls G (m_input c) (RuleExpr rule) ?p res"
        using ev' unfolding evls_def by blast
      then have "res = entry_res st"
        using memo_sound_entry [OF sound st out] by (rule evls_unique)
      with st show "post (reenter rule ?p st c) (\<lambda>r c'. agrees res r c' \<and> steady G M sd c') no_throw"
        by (rule entry)
    qed
  qed
qed

lemma step_steady:
  assumes run: "run = parse n G" and skip: "skip = run_skipper (\<lambda>r. parse n G (RuleExpr r))"
    and "wf_expr G e" "steady G M sd c" "waiting h G c" and no_rule: "\<forall>r. e \<noteq> RuleExpr r"
    and ev: "evl (Suc h) G (m_input c) sd e (m_position c) = Some res"
  shows "post (parse (Suc n) G e c) (\<lambda>r c'. agrees res r c' \<and> steady G M sd c') no_throw"
proof -
  have "ev_step h G (m_input c) (evl h G (m_input c) sd) e (m_position c) = Some res"
    using ev evl_other [OF no_rule] by metis
  then have "post (parse (Suc n) G e c) (\<lambda>r c'. agrees res r c' \<and> steady G M sd c' \<and> waiting h G c') no_throw"
    using assms by (intro gr.step_agrees) simp_all
  then show ?thesis by (rule post_mono) simp_all
qed

end

subsection \<open>The engine\<close>

lemma growing_parsersI:
  assumes "\<And>n e c M sd res. wf_expr G e \<Longrightarrow> steady G M sd c \<Longrightarrow> waiting h G c \<Longrightarrow>
      evl h G (m_input c) sd e (m_position c) = Some res \<Longrightarrow>
      post (parse n G e c) (\<lambda>r c'. agrees res r c' \<and> steady G M sd c') no_throw"
  shows "growing_parsers G (parse n G) (run_skipper (\<lambda>r. parse n G (RuleExpr r))) h"
  using assms
  by (intro growing_parsers.intro growing_parsers_axioms.intro engine_child_parsers run_skipper_idle)

lemma engine_grows:
  "wf_expr G e \<Longrightarrow> steady G M sd c \<Longrightarrow> waiting h G c \<Longrightarrow> evl h G (m_input c) sd e (m_position c) = Some res \<Longrightarrow>
   post (parse n G e c) (\<lambda>r c'. agrees res r c' \<and> steady G M sd c') no_throw"
proof (induction h arbitrary: n e c M sd res)
  case 0
  then show ?case by simp
next
  case (Suc h)
  have kids: "growing_parsers G (parse m G) (run_skipper (\<lambda>r. parse m G (RuleExpr r))) h" for m
    by (rule growing_parsersI) (rule Suc.IH)
  have wait: "waiting h G c" by (rule waiting_less [OF Suc.prems(3)]) simp
  show ?case
  proof (cases n)
    case 0
    then show ?thesis by simp
  next
    case n: (Suc m)
    show ?thesis
    proof (cases "\<exists>r. e = RuleExpr r")
      case True
      then obtain r where e: "e = RuleExpr r" by blast
      show ?thesis
      proof (cases "seed_of sd r (m_position c) = None \<and> evl h G (m_input c) None (RuleExpr r) (m_position c) \<noteq> None")
        case True
        then obtain res' where old: "evl h G (m_input c) sd (RuleExpr r) (m_position c) = Some res'"
          using evl_unseeded [of sd r "m_position c" h G "m_input c"] by auto
        then have "res' = res"
          using evl_more [OF old, of "Suc h"] Suc.prems(4) e by simp
        then show ?thesis
          using Suc.IH [OF Suc.prems(1,2) wait] old e by simp
      next
        case False
        then have "post (nonterminal_parse m (parse m G) G r c) (\<lambda>r c'. agrees res r c' \<and> steady G M sd c') no_throw"
          using Suc.prems(1,4) e
          by (intro growing_parsers.nonterminal_steady [OF kids [of m] Suc.prems(2,3)]) (auto simp del: evl.simps)
        then show ?thesis using e n by simp
      qed
    next
      case False
      then show ?thesis
        using growing_parsers.step_steady [OF kids [of m] refl refl Suc.prems(1,2) wait] Suc.prems(4) n by blast
    qed
  qed
qed

interpretation growing: growing_parsers G "parse n G" "run_skipper (\<lambda>r. parse n G (RuleExpr r))" h
  for n h G
  by (rule growing_parsersI) (rule engine_grows)

lemma start_ctx_steady: "wf_grammar G \<Longrightarrow> steady G M None (start_ctx None input)"
  by (simp add: steady_def planted_def memo_sound_def memo_sound_but_def start_ctx_wf skipper_ok_def no_cuts_def
      memo_lookup_def frame_ids_def)

lemma start_ctx_waiting: "waiting h G (start_ctx s input)"
  by (simp add: waiting_def frame_ids_def)

lemma cut_free_grows:
  assumes "wf_grammar G" and "cut_free_grammar G" and "wf_expr G e" and "cut_free e"
    and "evl h G input None e 0 = Some res" and "fuel_bound G e input \<le> n"
  shows "\<exists>r c. parse n G e (start_ctx None input) = Ret r c \<and>
    (case res of None \<Rightarrow> \<not> success r \<and> m_position c = 0 | Some q \<Rightarrow> success r \<and> m_position c = q)"
proof -
  have "skipper_ok G None" by (simp add: skipper_ok_def)
  then obtain r c where ret: "parse n G e (start_ctx None input) = Ret r c"
    using cut_free_total [OF assms(1,2) _ assms(3,4,6)] by blast
  have "post (parse n G e (start_ctx None input)) (\<lambda>r c'. (agrees res r c' \<and> steady G (\<lambda>_. None) None c') \<and>
      waiting h G c' \<and> ret_rel G (start_ctx None input) r c') no_throw"
    using assms(5) by (intro growing.run_waiting assms(3) start_ctx_steady assms(1) start_ctx_waiting) simp
  then show ?thesis
    using ret by (auto simp: agrees_def ret_rel_def split: option.splits)
qed

end
