(* ===== verification/Match_Ends.thy ===== *)
theory Match_Ends
  imports Left_Recursion
begin

text \<open>
  Where a match ends, for both recognisers: not before it starts, not after the input, and
  after its start where the expression has to consume. And where the recogniser without seeds
  has a result, the one with seeds has the same.
\<close>

subsection \<open>The recogniser without seeds\<close>

text \<open>Where the recogniser of \<open>Recogniser\<close> has a result, seeds do not matter.\<close>

lemma grow_more: "n \<le> m \<Longrightarrow> le_opt (grow n B p s) (grow m B p s)"
proof (induction n arbitrary: m s)
  case (Suc n)
  then obtain m' where "m = Suc m'" "n \<le> m'" by (cases m) auto
  with Suc.IH show ?case by (auto split: option.split)
qed simp

lemma grown_end_const:
  assumes "\<And>s. B s = Some res"
  shows "grown_end input B p = Some res"
proof -
  have "B = (\<lambda>_. Some res)" using assms by auto
  then have "grow 2 B p None = Some res" using grow_const [of res p] by simp
  then show ?thesis
    unfolding grown_end_def by (rule le_opt_Some [OF grow_more, rotated]) simp
qed

lemma ev_evl:
  assumes "ev h G input e p = Some res"
    and "\<And>r q s. sd = Some (r, q, s) \<Longrightarrow> ev h G input (RuleExpr r) q = None"
  shows "evl h G input sd e p = Some res"
  using assms
proof (induction h arbitrary: e p res sd)
  case 0
  then show ?case by simp
next
  case (Suc h)
  have seeds: "ev h G input (RuleExpr r) q = None" if "sd = Some (r, q, s)" for r q s
    using ev_more [of h G input "RuleExpr r" q _ "Suc h"] Suc.prems(2) [OF that] by fastforce
  show ?case
  proof (cases "\<exists>r. e = RuleExpr r")
    case False
    have "le_opt (ev h G input a q) (evl h G input sd a q)" for a q
      using Suc.IH [of a q _ sd] seeds by (cases "ev h G input a q") (auto simp: le_opt_def)
    then have "le_opt (ev_step h G input (ev h G input) e p) (ev_step h G input (evl h G input sd) e p)"
      by (rule ev_step_le) simp
    moreover have "ev (Suc h) G input e p = ev_step h G input (ev h G input) e p"
      using False by (cases e) (simp_all add: ev_step_def)
    ultimately show ?thesis
      using Suc.prems(1) evl_other [OF False [simplified]] by (metis le_opt_Some)
  next
    case True
    then obtain r where e: "e = RuleExpr r" by blast
    have unseeded: "seed_of sd r p = None"
      using Suc.prems e by (auto simp: seed_of_def simp del: ev.simps split: option.splits)
    show ?thesis
    proof (cases "ev h G input (RuleExpr r) p")
      case (Some res')
      then have "evl h G input sd (RuleExpr r) p = Some res'"
        by (rule Suc.IH [OF _ seeds])
      moreover have "res' = res"
        using ev_more [OF Some, of "Suc h"] Suc.prems(1) e by simp
      ultimately show ?thesis
        using evl_more [of h G input sd "RuleExpr r" p res "Suc h"] e by simp
    next
      case None
      obtain nt body bres where r: "lookup_rule G r = Some nt" "m_rule nt = Some body"
          "ev h G input body p = Some bres" "res = ev_recover nt input p bres"
        using Suc.prems(1) e by (auto split: option.splits)
      have "evl h G input (Some (r, p, s)) body p = Some bres" for s
        by (rule Suc.IH [OF r(3)]) (use None in auto)
      then have "grown_end input (\<lambda>s. evl h G input (Some (r, p, s)) body p) p = Some bres"
        by (rule grown_end_const)
      then show ?thesis
        using evl_rule [OF r(1,2) unseeded] r(4) e by simp
    qed
  qed
qed

lemma evals_evls: "evals G input e p res \<Longrightarrow> evls G input e p res"
  unfolding evals_def evls_def using ev_evl [of _ G input e p res None] by blast

subsection \<open>Where a match ends\<close>

text \<open>A match of the expression is not empty.\<close>

fun must_consume :: "'c expr \<Rightarrow> bool" where
  "must_consume (TerminalExpr v) = True"
| "must_consume (TokenExpr v) = True"
| "must_consume (TerminalSeqExpr vs) = (vs \<noteq> [])"
| "must_consume (SequenceExpr es) = list_ex must_consume es"
| "must_consume (AlternationExpr es) = list_all must_consume es"
| "must_consume (OneOrMoreExpr e) = must_consume e"
| "must_consume (NTimesExpr e n) = (0 < n \<and> must_consume e)"
| "must_consume (LexemeExpr e) = must_consume e"
| "must_consume _ = False"

lemma ev_seq_bounds:
  assumes "ev_seq run es p = Some (Some q)" and "p \<le> L"
    and "\<And>e p q. e \<in> set es \<Longrightarrow> run e p = Some (Some q) \<Longrightarrow> p \<le> L \<Longrightarrow> p \<le> q \<and> q \<le> L \<and> (must_consume e \<longrightarrow> p < q)"
  shows "p \<le> q \<and> q \<le> L \<and> (list_ex must_consume es \<longrightarrow> p < q)"
  using assms
proof (induction es arbitrary: p)
  case (Cons e es)
  then obtain p' where p': "run e p = Some (Some p')" "ev_seq run es p' = Some (Some q)"
    by (auto split: option.splits)
  have "p \<le> p' \<and> p' \<le> L \<and> (must_consume e \<longrightarrow> p < p')"
    using Cons.prems(2) p'(1) by (intro Cons.prems(3)) simp_all
  then show ?case
    using Cons.IH [OF p'(2)] Cons.prems(3) by fastforce
qed simp

lemma ev_alt_bounds:
  assumes "ev_alt run es p = Some (Some q)"
  shows "\<exists>e \<in> set es. run e p = Some (Some q)"
  using assms by (induction es) (auto split: option.splits)

lemma ev_loop_bounds:
  assumes "ev_loop n run max_rep k p = Some (k', q)" and "p \<le> L"
    and "\<And>p q. run p = Some (Some q) \<Longrightarrow> p \<le> L \<Longrightarrow> p \<le> q \<and> q \<le> L \<and> (b \<longrightarrow> p < q)"
  shows "p \<le> q \<and> q \<le> L \<and> (b \<and> k < k' \<longrightarrow> p < q)"
  using assms(1,2)
proof (induction n arbitrary: k p)
  case (Suc n)
  show ?case
  proof (cases "run p")
    case (Some res)
    show ?thesis
    proof (cases res)
      case (Some p')
      then have run: "run p = Some (Some p')" using \<open>run p = Some res\<close> by simp
      have p': "p \<le> p' \<and> p' \<le> L \<and> (b \<longrightarrow> p < p')"
        using assms(3) [OF run Suc.prems(2)] by simp
      show ?thesis
        using p' run Suc.prems(1) Suc.IH [of "k + 1" p'] by (auto split: if_splits)
    qed (use Suc.prems \<open>run p = Some res\<close> in auto)
  qed (use Suc.prems in auto)
qed simp

lemma ev_rep_bounds:
  assumes "ev_rep n run min_rep max_rep p = Some (Some q)" and "p \<le> L"
    and "\<And>p q. run p = Some (Some q) \<Longrightarrow> p \<le> L \<Longrightarrow> p \<le> q \<and> q \<le> L \<and> (b \<longrightarrow> p < q)"
  shows "p \<le> q \<and> q \<le> L \<and> (b \<and> 0 < min_rep \<longrightarrow> p < q)"
proof -
  obtain k where k: "ev_loop n run max_rep 0 p = Some (k, q)" "min_rep \<le> k"
    using assms(1) by (auto simp: ev_rep_def split: option.splits if_splits)
  then show ?thesis
    using ev_loop_bounds [OF k(1) assms(2,3)] by auto
qed

lemma ev_recover_bounds:
  assumes "ev_recover nt input p res = Some q" and "p \<le> length input"
    and "\<And>q. res = Some q \<Longrightarrow> p \<le> q \<and> q \<le> length input"
  shows "p \<le> q \<and> q \<le> length input"
  using assms scan_sync_bounds [of p _ input]
  by (auto simp: ev_recover_def Let_def split: option.splits if_splits intro: le_SucI)

text \<open>The bounds of one level, from those of the children.\<close>

lemma ev_step_bounds:
  assumes run: "ev_step n G input E e p = Some (Some q)" and wf: "wf_expr G e" and p: "p \<le> length input"
    and ih: "\<And>a p q. E a p = Some (Some q) \<Longrightarrow> wf_expr G a \<Longrightarrow> p \<le> length input \<Longrightarrow>
      p \<le> q \<and> q \<le> length input \<and> (must_consume a \<longrightarrow> p < q)"
  shows "p \<le> q \<and> q \<le> length input \<and> (must_consume e \<longrightarrow> p < q)"
proof -
  note rep = ev_rep_bounds [where L = "length input", OF _ p ih]
  show ?thesis
  proof (cases e)
    case (TerminalSeqExpr vs)
    then have vs: "take (length vs) (drop p input) = vs" "q = p + length vs"
      using run by (auto simp: ev_step_def split: if_splits)
    have "length vs \<le> length input - p"
      using arg_cong [OF vs(1), of length] by simp
    then show ?thesis using vs(2) p TerminalSeqExpr by auto
  next
    case (SequenceExpr es)
    then show ?thesis
      using run wf ev_seq_bounds [of E es p q "length input"] p ih by (auto simp: ev_step_def list_all_iff)
  next
    case (AlternationExpr es)
    then show ?thesis
      using run wf ev_alt_bounds [of E es p q] p ih by (fastforce simp: ev_step_def list_all_iff)
  qed (use run wf p rep ih in \<open>auto simp: ev_step_def ev_symbol_def matcher_ok_def split: if_splits option.splits\<close>)
qed

definition seed_ok :: "'c list \<Rightarrow> seeded \<Rightarrow> bool" where
  "seed_ok input sd \<longleftrightarrow> (\<forall>r p l. sd = Some (r, p, Some l) \<longrightarrow> p \<le> l \<and> l \<le> length input)"

lemma grow_bounds:
  assumes "grow n B p s = Some (Some q)"
    and "\<And>s q. (\<forall>l. s = Some l \<longrightarrow> p \<le> l \<and> l \<le> L) \<Longrightarrow> B s = Some (Some q) \<Longrightarrow> p \<le> q \<and> q \<le> L"
    and "\<forall>l. s = Some l \<longrightarrow> p \<le> l \<and> l \<le> L"
  shows "p \<le> q \<and> q \<le> L"
  using assms(1,3)
proof (induction n arbitrary: s)
  case (Suc n)
  obtain r where r: "B s = Some r" using Suc.prems(1) by (auto split: option.splits)
  show ?case
  proof (cases r)
    case None
    then show ?thesis using Suc.prems r by auto
  next
    case (Some q1)
    then have q1: "p \<le> q1 \<and> q1 \<le> L" using assms(2) [OF Suc.prems(2)] r by simp
    show ?thesis
      using Suc.prems Suc.IH [of "Some q1"] r Some q1 by (auto split: if_splits)
  qed
qed simp

lemma evl_bounds:
  "evl n G input sd e p = Some (Some q) \<Longrightarrow> wf_grammar G \<Longrightarrow> wf_expr G e \<Longrightarrow> p \<le> length input \<Longrightarrow> seed_ok input sd \<Longrightarrow>
   p \<le> q \<and> q \<le> length input \<and> (must_consume e \<longrightarrow> p < q)"
proof (induction n arbitrary: e p q sd)
  case (Suc n)
  note wf = Suc.prems(2,3) and p = Suc.prems(4)
  show ?case
  proof (cases "\<exists>r. e = RuleExpr r")
    case False
    have "ev_step n G input (evl n G input sd) e p = Some (Some q)"
      using Suc.prems(1) evl_other [OF False [simplified]] by metis
    then show ?thesis
      by (rule ev_step_bounds [OF _ wf(2) p]) (use Suc.IH [OF _ wf(1) _ _ Suc.prems(5)] in blast)
  next
    case True
    then obtain r where e: "e = RuleExpr r" by blast
    show ?thesis
    proof (cases "seed_of sd r p")
      case (Some s)
      then have "sd = Some (r, p, Some q)"
        using Suc.prems(1) e by (auto simp: seed_of_def split: option.splits if_splits)
      then show ?thesis using Suc.prems(5) e by (simp add: seed_ok_def)
    next
      case None
      then obtain nt body res where r: "lookup_rule G r = Some nt" "m_rule nt = Some body"
          "grown_end input (\<lambda>s. evl n G input (Some (r, p, s)) body p) p = Some res" "ev_recover nt input p res = Some q"
        using Suc.prems(1) e by (auto split: option.splits)
      have "p \<le> q' \<and> q' \<le> length input" if "res = Some q'" for q'
        using r(3) unfolding that grown_end_def
      proof (rule grow_bounds)
        fix s q assume "\<forall>l. s = Some l \<longrightarrow> p \<le> l \<and> l \<le> length input" "evl n G input (Some (r, p, s)) body p = Some (Some q)"
        then show "p \<le> q \<and> q \<le> length input"
          using Suc.IH [OF _ wf(1) wf_grammar_body [OF wf(1) r(1,2)] p] by (auto simp: seed_ok_def)
      qed simp
      then show ?thesis using ev_recover_bounds [OF r(4) p] e by simp
    qed
  qed
qed simp

lemma ev_bounds:
  assumes "ev n G input e p = Some (Some q)" and "wf_grammar G" and "wf_expr G e" and "p \<le> length input"
  shows "p \<le> q \<and> q \<le> length input \<and> (must_consume e \<longrightarrow> p < q)"
  using evl_bounds [OF ev_evl [OF assms(1), of None] assms(2-4)] by (simp add: seed_ok_def)

end
