(* ===== verification/Decided.thy ===== *)
theory Decided
  imports Match_Ends
begin

text \<open>
  When every expression has a result at every position: a syntactic test on the rules an
  expression may call before it has consumed anything. Without left recursion the plain
  recogniser always has a result, with direct left recursion the seed-growing one has. Both
  by one proof over an evaluator \<open>E\<close>, which goes from the end of the input to its start.
\<close>

subsection \<open>The test\<close>

text \<open>The rules an expression may call where it starts.\<close>

fun left_rules :: "'c expr \<Rightarrow> rule_ref list" where
  "left_rules (RuleExpr r) = [r]"
| "left_rules (SequenceExpr []) = []"
| "left_rules (SequenceExpr (e # es)) =
     left_rules e @ (if must_consume e then [] else left_rules (SequenceExpr es))"
| "left_rules (AlternationExpr es) = concat (map left_rules es)"
| "left_rules (ZeroOrMoreExpr e) = left_rules e"
| "left_rules (OneOrMoreExpr e) = left_rules e"
| "left_rules (NTimesExpr e n) = left_rules e"
| "left_rules (OptionalExpr e) = left_rules e"
| "left_rules (NotExpr e) = left_rules e"
| "left_rules (AndExpr e) = left_rules e"
| "left_rules (LexemeExpr e) = left_rules e"
| "left_rules _ = []"

definition ranked :: "(rule_ref \<Rightarrow> nat) \<Rightarrow> ('c, 'v) grammar \<Rightarrow> bool" where
  "ranked rank G =
     list_all (\<lambda>(r, nt). case m_rule nt of
         None \<Rightarrow> True
       | Some e \<Rightarrow> list_all (\<lambda>q. rank q < rank r) (left_rules e)) (m_rules G)"

lemma ranked_body:
  "ranked rank G \<Longrightarrow> lookup_rule G r = Some nt \<Longrightarrow> m_rule nt = Some e \<Longrightarrow> q \<in> set (left_rules e) \<Longrightarrow> rank q < rank r"
  by (force simp: ranked_def lookup_rule_def list_all_iff dest: map_of_SomeD)

text \<open>The same test, where a rule may also begin with itself.\<close>

definition self_ranked :: "(rule_ref \<Rightarrow> nat) \<Rightarrow> ('c, 'v) grammar \<Rightarrow> bool" where
  "self_ranked rank G =
     list_all (\<lambda>(r, nt). case m_rule nt of
         None \<Rightarrow> True
       | Some e \<Rightarrow> list_all (\<lambda>q. rank q < rank r \<or> q = r) (left_rules e)) (m_rules G)"

lemma self_ranked_body:
  "self_ranked rank G \<Longrightarrow> lookup_rule G r = Some nt \<Longrightarrow> m_rule nt = Some e \<Longrightarrow> q \<in> set (left_rules e) \<Longrightarrow>
   rank q < rank r \<or> q = r"
  by (force simp: self_ranked_def lookup_rule_def list_all_iff dest: map_of_SomeD)

subsection \<open>At one position\<close>

definition plain :: "(('c, 'v) grammar \<Rightarrow> bool) \<Rightarrow> ('c, 'v) grammar \<Rightarrow> 'c expr \<Rightarrow> bool" where
  "plain test G e \<longleftrightarrow> test G \<and> wf_grammar G \<and> cut_free_grammar G \<and> wf_expr G e \<and> cut_free e"

abbreviation answers :: "(nat \<Rightarrow> 'c expr \<Rightarrow> nat \<Rightarrow> ev_result) \<Rightarrow> 'c expr \<Rightarrow> nat \<Rightarrow> bool" where
  "answers E e p \<equiv> \<exists>n r. E n e p = Some r"

lemma plain_rule: "plain test G (RuleExpr r) \<Longrightarrow> \<exists>nt e. lookup_rule G r = Some nt \<and> m_rule nt = Some e \<and> plain test G e"
  using wf_grammar_body [of G r] cut_free_body [of G r]
  by (auto simp: plain_def defined_rule_def is_defined_def split: option.splits)

text \<open>
  \<open>later\<close> are the positions after \<open>p\<close>, where every expression has a result already; at \<open>p\<close>
  itself the \<open>low\<close> rules have one.
\<close>

locale at_position =
  fixes test :: "('c, 'v) grammar \<Rightarrow> bool" and E :: "nat \<Rightarrow> 'c expr \<Rightarrow> nat \<Rightarrow> ev_result"
    and G :: "('c, 'v) grammar" and input :: "'c list" and p :: nat and low :: "rule_ref \<Rightarrow> bool"
  assumes E_le: "n \<le> m \<Longrightarrow> le_opt (E n e q) (E m e q)"
    and E_step: "\<forall>r. e \<noteq> RuleExpr r \<Longrightarrow> E (Suc n) e q = ev_step n G input (E n) e q"
    and plain_bounds: "plain test G e \<Longrightarrow> E n e q = Some (Some q') \<Longrightarrow> q \<le> length input \<Longrightarrow>
      q \<le> q' \<and> q' \<le> length input \<and> (must_consume e \<longrightarrow> q < q')"
    and later: "plain test G e \<Longrightarrow> p < q \<Longrightarrow> q \<le> length input \<Longrightarrow> answers E e q"
    and rules: "plain test G (RuleExpr r) \<Longrightarrow> p \<le> length input \<Longrightarrow> low r \<Longrightarrow> answers E (RuleExpr r) p"
begin

lemma E_more: "E n e q = Some r \<Longrightarrow> n \<le> m \<Longrightarrow> E m e q = Some r"
  by (rule le_opt_Some [OF E_le])

lemma E_seq_more: "ev_seq (E n) es q = Some r \<Longrightarrow> n \<le> m \<Longrightarrow> ev_seq (E m) es q = Some r"
  by (rule le_opt_Some [OF ev_seq_le [OF E_le]])

lemma E_alt_more: "ev_alt (E n) es q = Some r \<Longrightarrow> n \<le> m \<Longrightarrow> ev_alt (E m) es q = Some r"
  by (rule le_opt_Some [OF ev_alt_le [OF E_le]])

text \<open>An expression has a result here when all the rules it may call here are low.\<close>

definition settled :: "'c expr \<Rightarrow> bool" where
  "settled e \<longleftrightarrow> plain test G e \<and> p \<le> length input \<and> (list_all low (left_rules e) \<longrightarrow> answers E e p)"

lemma decided_from:
  "settled e \<Longrightarrow> p \<le> q \<Longrightarrow> q \<le> length input \<Longrightarrow> (q = p \<longrightarrow> list_all low (left_rules e)) \<Longrightarrow> \<exists>n r. E n e q = Some r"
  using later [of e q] by (cases "q = p") (auto simp: settled_def)

lemma decided_here: "settled e \<Longrightarrow> list_all low (left_rules e) \<Longrightarrow> \<exists>n r. E n e p = Some r"
  using decided_from [OF _ order_refl, of e] by (auto simp: settled_def)

lemma seq_decided:
  "list_all settled es \<Longrightarrow> p \<le> q \<Longrightarrow> q \<le> length input \<Longrightarrow> (q = p \<longrightarrow> list_all low (left_rules (SequenceExpr es))) \<Longrightarrow>
   \<exists>n r. ev_seq (E n) es q = Some r"
proof (induction es arbitrary: q)
  case (Cons e es)
  obtain n r where n: "E n e q = Some r"
    using decided_from [of e q] Cons.prems by auto
  show ?case
  proof (cases r)
    case None
    then have "ev_seq (E n) (e # es) q = Some None" using n by simp
    then show ?thesis by blast
  next
    case (Some q')
    then have q': "q \<le> q' \<and> q' \<le> length input \<and> (must_consume e \<longrightarrow> q < q')"
      using plain_bounds [of e n q q'] n Cons.prems(1,3) by (simp add: settled_def)
    obtain m r' where m: "ev_seq (E m) es q' = Some r'"
      using Cons.IH [of q'] Cons.prems q' by (auto split: if_splits)
    have "ev_seq (E (max n m)) (e # es) q = Some r'"
      using E_more [OF n, of "max n m"] E_seq_more [OF m, of "max n m"] Some by simp
    then show ?thesis by blast
  qed
qed simp

lemma alt_decided:
  "list_all settled es \<Longrightarrow> list_all low (left_rules (AlternationExpr es)) \<Longrightarrow> \<exists>n r. ev_alt (E n) es p = Some r"
proof (induction es)
  case (Cons e es)
  obtain n r where n: "E n e p = Some r"
    using decided_here [of e] Cons.prems by auto
  show ?case
  proof (cases r)
    case None
    obtain m r' where m: "ev_alt (E m) es p = Some r'"
      using Cons by auto
    have "ev_alt (E (max n m)) (e # es) p = Some r'"
      using E_more [OF n, of "max n m"] E_alt_more [OF m, of "max n m"] None by simp
    then show ?thesis by blast
  next
    case (Some q)
    then have "ev_alt (E n) (e # es) p = Some (Some q)" using n by simp
    then show ?thesis by blast
  qed
qed simp

lemma loop_decided:
  assumes "settled a"
  shows "p \<le> q \<Longrightarrow> q \<le> length input \<Longrightarrow> (q = p \<longrightarrow> list_all low (left_rules a)) \<Longrightarrow>
    \<exists>n r. ev_loop n (E n a) max_rep k q = Some r"
proof (induction "length input - q" arbitrary: q k rule: less_induct)
  case less
  obtain n r where n: "E n a q = Some r"
    using decided_from [OF assms less.prems] by auto
  have suc: "E (Suc n) a q = Some r" by (rule E_more [OF n]) simp
  show ?case
  proof (cases "\<exists>q'. r = Some q' \<and> \<not> (max_rep > 0 \<and> int (k + 1) \<ge> max_rep) \<and> q' \<noteq> q")
    case True
    then obtain q' where q': "r = Some q'" "\<not> (max_rep > 0 \<and> int (k + 1) \<ge> max_rep)" "q' \<noteq> q" by blast
    have "q < q' \<and> q' \<le> length input"
      using plain_bounds [of a n q q'] n q'(1,3) assms less.prems(2) by (auto simp: settled_def)
    then have "\<exists>m r'. ev_loop m (E m a) max_rep (k + 1) q' = Some r'"
      by (intro less.hyps) (use less.prems in auto)
    then obtain m r' where m: "ev_loop m (E m a) max_rep (k + 1) q' = Some r'" by blast
    let ?N = "max n m"
    have "ev_loop ?N (E (Suc ?N) a) max_rep (k + 1) q' = Some r'"
      by (rule le_opt_Some [OF ev_loop_le [OF E_le] m]) simp_all
    moreover have "E (Suc ?N) a q = Some (Some q')"
      using E_more [OF n, of "Suc ?N"] q'(1) by simp
    ultimately have "ev_loop (Suc ?N) (E (Suc ?N) a) max_rep k q = Some r'"
      using q'(2,3) by auto
    then show ?thesis by blast
  next
    case False
    then show ?thesis
      using suc by (intro exI [of _ "Suc n"]) (auto split: option.split)
  qed
qed

lemma rep_decided:
  assumes "settled a" and "list_all low (left_rules a)"
  shows "\<exists>n r. ev_rep n (E n a) min_rep max_rep p = Some r"
proof -
  obtain n r where "ev_loop n (E n a) max_rep 0 p = Some r"
    using loop_decided [OF assms(1) order_refl, of max_rep 0] assms by (auto simp: settled_def)
  then have "ev_rep n (E n a) min_rep max_rep p =
      Some (case r of (k, q) \<Rightarrow> if k < min_rep then None else Some q)"
    by (cases r) (simp add: ev_rep_def)
  then show ?thesis by blast
qed

lemma settled_step:
  assumes "plain test G e" and "p \<le> length input" and "\<forall>r. e \<noteq> RuleExpr r"
    and "list_all low (left_rules e) \<Longrightarrow> \<exists>n r. ev_step n G input (E n) e p = Some r"
  shows "settled e"
  using assms(1,2,4) E_step [OF assms(3)] unfolding settled_def by metis

lemma settled_unary:
  assumes "settled a" and "plain test G e" and "\<forall>r. e \<noteq> RuleExpr r" and "left_rules e = left_rules a"
    and "\<And>n r. E n a p = Some r \<Longrightarrow> \<exists>r'. ev_step n G input (E n) e p = Some r'"
  shows "settled e"
proof (rule settled_step [OF assms(2) _ assms(3)])
  show "p \<le> length input" using assms(1) by (simp add: settled_def)
  show "\<exists>n r. ev_step n G input (E n) e p = Some r" if "list_all low (left_rules e)"
    using decided_here [OF assms(1)] that assms(4,5) by metis
qed

lemma settledI:
  assumes in_input: "p \<le> length input"
  shows "plain test G e \<Longrightarrow> settled e"
proof (induction e)
  case (RuleExpr r)
  then show ?case using rules [OF RuleExpr in_input] in_input by (simp add: settled_def)
next
  case (SequenceExpr es)
  then have "list_all settled es"
    by (auto simp: plain_def list_all_iff)
  from seq_decided [OF this order_refl in_input] show ?case
    by (intro settled_step [OF SequenceExpr.prems in_input]) (simp_all add: ev_step_def)
next
  case (AlternationExpr es)
  then have "list_all settled es"
    by (auto simp: plain_def list_all_iff)
  from alt_decided [OF this] show ?case
    by (intro settled_step [OF AlternationExpr.prems in_input]) (simp_all add: ev_step_def)
next
  case (ZeroOrMoreExpr a)
  then have "settled a" by (simp add: plain_def)
  from rep_decided [OF this, of 0 "- 1"] show ?case
    by (intro settled_step [OF ZeroOrMoreExpr.prems in_input]) (simp_all add: ev_step_def)
next
  case (OneOrMoreExpr a)
  then have "settled a" by (simp add: plain_def)
  from rep_decided [OF this, of 1 "- 1"] show ?case
    by (intro settled_step [OF OneOrMoreExpr.prems in_input]) (simp_all add: ev_step_def)
next
  case (NTimesExpr a k)
  then have "settled a" by (simp add: plain_def)
  from rep_decided [OF this, of k "to_int64 k"] show ?case
    by (intro settled_step [OF NTimesExpr.prems in_input]) (simp_all add: ev_step_def)
next
  case (OptionalExpr a)
  then have "settled a" by (simp add: plain_def)
  from rep_decided [OF this, of 0 1] show ?case
    by (intro settled_step [OF OptionalExpr.prems in_input]) (simp_all add: ev_step_def)
next
  case (NotExpr a)
  then have a: "settled a" by (simp add: plain_def)
  show ?case by (rule settled_unary [OF a NotExpr.prems]) (auto simp: ev_step_def)
next
  case (AndExpr a)
  then have a: "settled a" by (simp add: plain_def)
  show ?case by (rule settled_unary [OF a AndExpr.prems]) (auto simp: ev_step_def)
next
  case (LexemeExpr a)
  then have a: "settled a" by (simp add: plain_def)
  show ?case by (rule settled_unary [OF a LexemeExpr.prems]) (auto simp: ev_step_def)
next
  case CutExpr
  then show ?case by (simp add: plain_def)
qed (intro settled_step in_input; simp add: ev_step_def)+

lemma answered: "p \<le> length input \<Longrightarrow> plain test G e \<Longrightarrow> list_all low (left_rules e) \<Longrightarrow> answers E e p"
  using settledI by (simp add: settled_def)

end

subsection \<open>Without left recursion\<close>

lemma ev_at_position:
  assumes "\<And>e q. plain (ranked rank) G e \<Longrightarrow> p < q \<Longrightarrow> q \<le> length input \<Longrightarrow> answers (\<lambda>n. ev n G input) e q"
    and "\<And>r. plain (ranked rank) G (RuleExpr r) \<Longrightarrow> p \<le> length input \<Longrightarrow> low r \<Longrightarrow> answers (\<lambda>n. ev n G input) (RuleExpr r) p"
  shows "at_position (ranked rank) (\<lambda>n. ev n G input) G input p low"
proof
  fix n m e q q'
  show "n \<le> m \<Longrightarrow> le_opt (ev n G input e q) (ev m G input e q)" by (rule ev_le)
  show "\<forall>r. e \<noteq> RuleExpr r \<Longrightarrow> ev (Suc n) G input e q = ev_step n G input (ev n G input) e q"
    by (cases e) (simp_all add: ev_step_def)
  show "plain (ranked rank) G e \<Longrightarrow> ev n G input e q = Some (Some q') \<Longrightarrow> q \<le> length input \<Longrightarrow>
      q \<le> q' \<and> q' \<le> length input \<and> (must_consume e \<longrightarrow> q < q')"
    using ev_bounds [of n G input e q q'] by (simp add: plain_def)
qed (use assms in blast)+

lemma ev_answers:
  "plain (ranked rank) G e \<Longrightarrow> p \<le> length input \<Longrightarrow> answers (\<lambda>n. ev n G input) e p"
proof (induction "length input - p" arbitrary: p e rule: less_induct)
  case less
  have ranked: "ranked rank G" using less.prems(1) by (simp add: plain_def)
  have later: "answers (\<lambda>n. ev n G input) e' q" if "plain (ranked rank) G e'" "p < q" "q \<le> length input" for e' q
    by (rule less.hyps) (use that in auto)
  have rules: "plain (ranked rank) G (RuleExpr r) \<Longrightarrow> rank r < R \<Longrightarrow> answers (\<lambda>n. ev n G input) (RuleExpr r) p" for r R
  proof (induction R arbitrary: r)
    case (Suc R)
    obtain nt e' where r: "lookup_rule G r = Some nt" "m_rule nt = Some e'" "plain (ranked rank) G e'"
      using plain_rule [OF Suc.prems(1)] by blast
    have "at_position (ranked rank) (\<lambda>n. ev n G input) G input p (\<lambda>q. rank q < R)"
      by (rule ev_at_position) (use later Suc.IH in blast)+
    moreover have "list_all (\<lambda>q. rank q < R) (left_rules e')"
      using ranked_body [OF ranked r(1,2)] Suc.prems(2) by (fastforce simp: list_all_iff)
    ultimately obtain n res where "ev n G input e' p = Some res"
      using at_position.answered less.prems(2) r(3) by blast
    then have "ev (Suc n) G input (RuleExpr r) p = Some (ev_recover nt input p res)"
      using r(1,2) by simp
    then show ?case by blast
  qed simp
  have "at_position (ranked rank) (\<lambda>n. ev n G input) G input p (\<lambda>q. True)"
    by (rule ev_at_position) (use later rules lessI in blast)+
  then show ?case
    using at_position.answered less.prems by (fastforce simp: list_all_iff)
qed

theorem ranked_decided:
  "plain (ranked rank) G e \<Longrightarrow> p \<le> length input \<Longrightarrow> \<exists>r. evals G input e p r"
  using ev_answers unfolding evals_def by blast

interpretation everywhere: at_position "ranked rank" "\<lambda>n. ev n G input" G input p "\<lambda>_. True" for rank G input p
  by (rule ev_at_position; rule ev_answers; simp)

subsection \<open>With direct left recursion\<close>

lemma grow_total:
  assumes "\<And>s. \<forall>l. s = Some l \<longrightarrow> p \<le> l \<and> l \<le> L \<Longrightarrow> \<exists>r. B s = Some r \<and> (\<forall>q. r = Some q \<longrightarrow> p \<le> q \<and> q \<le> L)"
    and "\<forall>l. s = Some l \<longrightarrow> p \<le> l \<and> l \<le> L" and "(case s of None \<Rightarrow> Suc L | Some l \<Rightarrow> L - l) < n"
  shows "grow n B p s \<noteq> None"
  using assms(2,3)
proof (induction n arbitrary: s)
  case (Suc n)
  obtain r where r: "B s = Some r" "\<forall>q. r = Some q \<longrightarrow> p \<le> q \<and> q \<le> L"
    using assms(1) [OF Suc.prems(1)] by blast
  show ?case
  proof (cases r)
    case (Some q)
    then have "grow n B p (Some q) \<noteq> None" if "(case s of None \<Rightarrow> p | Some l \<Rightarrow> l) < q"
      using Suc.prems(2) r(2) that by (intro Suc.IH) (auto split: option.splits)
    then show ?thesis using r(1) Some by auto
  qed (use r in auto)
qed simp

text \<open>One fuel for all the seeds a rule can have.\<close>

lemma common_fuel:
  assumes "finite S" and "\<And>s. s \<in> S \<Longrightarrow> \<exists>n r. evl n G input (f s) e p = Some r"
  shows "\<exists>n. \<forall>s \<in> S. \<exists>r. evl n G input (f s) e p = Some r"
  using assms
proof (induction S rule: finite_induct)
  case (insert s S)
  obtain n where n: "\<forall>s \<in> S. \<exists>r. evl n G input (f s) e p = Some r"
    using insert.IH [OF insert.prems [OF insertI2]] by blast
  obtain m r where m: "evl m G input (f s) e p = Some r"
    using insert.prems [OF insertI1] by blast
  have "\<forall>s' \<in> insert s S. \<exists>r. evl (max n m) G input (f s') e p = Some r"
    using n m evl_more [where m = "max n m"] by (metis insertE max.cobounded1 max.cobounded2)
  then show ?case by blast
qed simp

lemma evl_at_position:
  assumes "seed_ok input sd"
    and "\<And>e q. plain (self_ranked rank) G e \<Longrightarrow> p < q \<Longrightarrow> q \<le> length input \<Longrightarrow> answers (\<lambda>n. evl n G input sd) e q"
    and "\<And>r. plain (self_ranked rank) G (RuleExpr r) \<Longrightarrow> p \<le> length input \<Longrightarrow> low r \<Longrightarrow> answers (\<lambda>n. evl n G input sd) (RuleExpr r) p"
  shows "at_position (self_ranked rank) (\<lambda>n. evl n G input sd) G input p low"
proof
  fix n m e q q'
  show "n \<le> m \<Longrightarrow> le_opt (evl n G input sd e q) (evl m G input sd e q)" by (rule evl_le)
  show "\<forall>r. e \<noteq> RuleExpr r \<Longrightarrow> evl (Suc n) G input sd e q = ev_step n G input (evl n G input sd) e q"
    by (rule evl_other)
  show "plain (self_ranked rank) G e \<Longrightarrow> evl n G input sd e q = Some (Some q') \<Longrightarrow> q \<le> length input \<Longrightarrow>
      q \<le> q' \<and> q' \<le> length input \<and> (must_consume e \<longrightarrow> q < q')"
    using evl_bounds [of n G input sd e q q'] assms(1) by (simp add: plain_def)
qed (use assms in blast)+

lemma rule_answers:
  assumes r: "lookup_rule G r = Some nt" "m_rule nt = Some e" and e: "plain test G e" and p: "p \<le> length input"
    and body: "\<And>s. seed_ok input (Some (r, p, s)) \<Longrightarrow> answers (\<lambda>n. evl n G input (Some (r, p, s))) e p"
  shows "answers (\<lambda>n. evl n G input sd) (RuleExpr r) p"
proof (cases "seed_of sd r p")
  case (Some s)
  then have "evl 1 G input sd (RuleExpr r) p = Some s" by simp
  then show ?thesis by blast
next
  case None
  let ?S = "{s. \<forall>l. s = Some l \<longrightarrow> p \<le> l \<and> l \<le> length input}"
  have "?S \<subseteq> insert None (Some ` {..length input})"
  proof
    fix s assume "s \<in> ?S"
    then show "s \<in> insert None (Some ` {..length input})" by (cases s) auto
  qed
  then have fin: "finite ?S" by (rule finite_subset) simp
  have "\<exists>n res. evl n G input (Some (r, p, s)) e p = Some res" if "s \<in> ?S" for s
    by (rule body) (use that in \<open>simp add: seed_ok_def\<close>)
  from common_fuel [OF fin, where f = "\<lambda>s. Some (r, p, s)", OF this]
  obtain n where n: "\<forall>s \<in> ?S. \<exists>res. evl n G input (Some (r, p, s)) e p = Some res" by blast
  have "grown_end input (\<lambda>s. evl n G input (Some (r, p, s)) e p) p \<noteq> None"
    unfolding grown_end_def
  proof (rule grow_total [where L = "length input"])
    fix s :: "nat option" assume s: "\<forall>l. s = Some l \<longrightarrow> p \<le> l \<and> l \<le> length input"
    then show "\<exists>res. evl n G input (Some (r, p, s)) e p = Some res \<and> (\<forall>q. res = Some q \<longrightarrow> p \<le> q \<and> q \<le> length input)"
      using n evl_bounds [of n G input "Some (r, p, s)" e p] e p by (auto simp: plain_def seed_ok_def)
  qed simp_all
  then obtain res where "evl (Suc n) G input sd (RuleExpr r) p = Some res"
    using evl_rule [OF r None, of n input] by auto
  then show ?thesis by blast
qed

lemma evl_answers:
  "plain (self_ranked rank) G e \<Longrightarrow> p \<le> length input \<Longrightarrow> seed_ok input sd \<Longrightarrow> answers (\<lambda>n. evl n G input sd) e p"
proof (induction "length input - p" arbitrary: p e sd rule: less_induct)
  case less
  have ranked: "self_ranked rank G" using less.prems(1) by (simp add: plain_def)
  have later: "answers (\<lambda>n. evl n G input sd') e' q" if "plain (self_ranked rank) G e'" "p < q" "q \<le> length input" "seed_ok input sd'" for e' q sd'
    by (rule less.hyps) (use that in auto)
  have rules: "plain (self_ranked rank) G (RuleExpr r) \<Longrightarrow> rank r < R \<Longrightarrow> answers (\<lambda>n. evl n G input sd') (RuleExpr r) p" for r R sd'
  proof (induction R arbitrary: r sd')
    case (Suc R)
    obtain nt e' where r: "lookup_rule G r = Some nt" "m_rule nt = Some e'" "plain (self_ranked rank) G e'"
      using plain_rule [OF Suc.prems(1)] by blast
    show ?case
    proof (rule rule_answers [OF r less.prems(2)])
      fix s assume s: "seed_ok input (Some (r, p, s))"
      have own: "answers (\<lambda>n. evl n G input (Some (r, p, s))) (RuleExpr r) p"
        by (intro exI [of _ 1] exI [of _ s]) (simp add: seed_of_def)
      have "at_position (self_ranked rank) (\<lambda>n. evl n G input (Some (r, p, s))) G input p (\<lambda>q. rank q < R \<or> q = r)"
        by (rule evl_at_position [OF s]) (use later s Suc.IH own in blast)+
      moreover have "list_all (\<lambda>q. rank q < R \<or> q = r) (left_rules e')"
        using self_ranked_body [OF ranked r(1,2)] Suc.prems(2) by (fastforce simp: list_all_iff)
      ultimately show "answers (\<lambda>n. evl n G input (Some (r, p, s))) e' p"
        using at_position.answered less.prems(2) r(3) by blast
    qed
  qed simp
  have "at_position (self_ranked rank) (\<lambda>n. evl n G input sd) G input p (\<lambda>q. True)"
    by (rule evl_at_position [OF less.prems(3)]) (use later less.prems(3) rules lessI in blast)+
  then show ?case
    using at_position.answered less.prems by (fastforce simp: list_all_iff)
qed

theorem self_ranked_decided:
  "plain (self_ranked rank) G e \<Longrightarrow> p \<le> length input \<Longrightarrow> \<exists>r. evls G input e p r"
  using evl_answers [of rank G e p input None] unfolding evls_def by (auto simp: seed_ok_def)

interpretation everywhere_seeded: at_position "self_ranked rank" "\<lambda>n. evl n G input None" G input p "\<lambda>_. True"
  for rank G input p
  by (rule evl_at_position; (rule evl_answers)?; simp add: seed_ok_def)

end
