(* ===== verification/Left_Calls.thy ===== *)
theory Left_Calls
  imports Tree_Values Decided
begin

text \<open>
  Grammars without left recursion, by the syntactic test of \<open>Decided\<close>: the reference semantics
  gives every expression a result at every position, with its value, so the theorems that
  relate the engine to it hold for every input.
\<close>

subsection \<open>Values\<close>

text \<open>Without recovery the semantics with values has a result when the recogniser has one.\<close>

lemma sem_seq_ends:
  assumes "\<And>e p. map_option ends (run e p) = run' e p"
  shows "map_option ends (sem_seq run es p) = ev_seq run' es p"
proof (induction es arbitrary: p)
  case (Cons e es)
  then show ?case
    using assms [of e p, symmetric]
    by (auto simp: ends_def option.map_comp comp_def case_prod_beta split: option.split)
qed simp

lemma sem_alt_ends:
  assumes "\<And>e p. map_option ends (run e p) = run' e p"
  shows "map_option ends (sem_alt run es p) = ev_alt run' es p"
proof (induction es)
  case (Cons e es)
  then show ?case
    using assms [of e p, symmetric] by (auto split: option.split)
qed simp

lemma sem_loop_ends:
  assumes "\<And>p. map_option ends (run p) = run' p"
  shows "map_option (\<lambda>(k, q, vs). (k, q)) (sem_loop n run max_rep k p) = ev_loop n run' max_rep k p"
proof (induction n arbitrary: k p)
  case (Suc n)
  then show ?case
    using assms [of p, symmetric]
    by (auto simp: option.map_comp comp_def case_prod_beta split: option.split)
qed simp

lemma sem_rep_ends:
  assumes "\<And>p. map_option ends (run p) = run' p"
  shows "map_option ends (sem_rep n run wrap min_rep max_rep p) = ev_rep n run' min_rep max_rep p"
  unfolding sem_rep_def ev_rep_def sem_loop_ends [OF assms, symmetric]
  by (auto simp: option.map_comp ends_def split: option.split)

lemma sem_ends:
  assumes "typed_grammar G"
  shows "map_option ends (sem n G dflt input e p) = ev n G input e p"
proof (induction n arbitrary: e p)
  case (Suc n)
  note seq = sem_seq_ends [of "sem n G dflt input" "ev n G input", OF Suc.IH, unfolded ends_def]
    and alt = sem_alt_ends [of "sem n G dflt input" "ev n G input", OF Suc.IH, unfolded ends_def]
    and rep = sem_rep_ends [of "sem n G dflt input _" "ev n G input _", OF Suc.IH, unfolded ends_def]
  show ?case
  proof (cases e)
    case (SequenceExpr es)
    then show ?thesis
      by (simp add: seq [symmetric] ends_def option.map_comp comp_def case_prod_beta)
  next
    case (RuleExpr r)
    then show ?thesis
      using typed_grammarD(1) [OF assms] Suc.IH [symmetric]
      by (auto simp: ends_def option.map_comp comp_def case_prod_beta ev_recover_none split: option.split)
  next
    case (NotExpr a)
    then show ?thesis
      using Suc.IH [of a p, symmetric] by (auto simp: void_match_def ends_def split: option.split)
  next
    case (AndExpr a)
    then show ?thesis
      using Suc.IH [of a p, symmetric] by (auto simp: void_match_def ends_def split: option.split)
  qed (auto simp: alt rep Suc.IH [unfolded ends_def] void_match_def ends_def option.map_comp comp_def option.map_ident)
qed simp

subsection \<open>The engine decides\<close>

lemma ranked_sem:
  assumes "wf_grammar G" and "cut_free_grammar G" and "ranked rank G" and "typed_grammar G"
    and "wf_expr G e" and "cut_free e" and "p \<le> length input"
  shows "\<exists>n res. sem n G dflt input e p = Some res"
proof -
  obtain n r where "ev n G input e p = Some r"
    using ranked_decided [of rank G e p input] assms by (auto simp: plain_def evals_def)
  then show ?thesis
    using sem_ends [OF assms(4), of n dflt input e p] by (metis option.map_disc_iff option.distinct(1) option.exhaust)
qed

text \<open>
  C7: without left recursion the engine decides every input: for a well-formed cut-free
  grammar whose rules have ranks, each rule calling only rules of lower rank before it
  consumes anything, and without a skipper, \<open>parse\<close> from any defined rule returns on every
  input; it returns \<open>true\<close> exactly when the reference recogniser, which then always has a
  result, matches the rule, and ends where the match ends.
\<close>

theorem ranked_parse_decides:
  assumes "wf_grammar G" and "cut_free_grammar G" and "ranked rank G" and "g_skipper G = None"
    and "defined_rule G rule"
  shows "\<exists>res. evals G input (RuleExpr rule) 0 res \<and>
    (\<forall>n \<ge> fuel_bound G (RuleExpr rule) input. \<exists>c.
       grammar_parse_rule n G rule (make_ctx input) = Ret (res \<noteq> None) c \<and>
       (\<forall>q. res = Some q \<longrightarrow> m_position c = q))"
proof -
  obtain res h where res: "ev h G input (RuleExpr rule) 0 = Some res"
    using ranked_decided [of rank G "RuleExpr rule" 0 input] assms by (auto simp: plain_def evals_def)
  have "\<exists>c. grammar_parse_rule n G rule (make_ctx input) = Ret (res \<noteq> None) c \<and>
      (\<forall>q. res = Some q \<longrightarrow> m_position c = q)"
    if n: "fuel_bound G (RuleExpr rule) input \<le> n" for n
  proof -
    obtain r c where "parse n G (RuleExpr rule) (start_ctx None input) = Ret r c"
        "case res of None \<Rightarrow> \<not> success r | Some q \<Rightarrow> success r \<and> m_position c = q"
      using cut_free_agrees [OF assms(1,2) _ _ res n] assms(5) by (auto simp: agrees_def split: option.splits)
    moreover have "lookup_rule G rule \<noteq> None"
      using assms(5) by (auto simp: defined_rule_def split: option.splits)
    ultimately show ?thesis
      using assms(4)
      by (auto simp: grammar_parse_rule_def enter_rule_def internal_set_skipper_start run_skipper_def split: option.splits)
  qed
  then show ?thesis using res by (auto simp: evals_def)
qed

text \<open>
  C10: without left recursion \<open>parse_ast\<close> returns on every input, with a value exactly when
  the reference recogniser matches the rule: for the grammars of the previous property whose
  actions sit on bodies the fold follows (\<open>typed_grammar\<close>).
\<close>

theorem ranked_parse_ast_total:
  assumes "wf_grammar G" and "cut_free_grammar G" and "ranked rank G" and "typed_grammar G"
    and "g_skipper G = None" and "defined_rule G rule"
  shows "\<exists>res c N. evals G input (RuleExpr rule) 0 res \<and>
    (\<forall>n\<ge>N. \<exists>v. grammar_parse_ast n G dflt rule (make_ctx input) = Ret v c \<and> (v = None \<longleftrightarrow> res = None))"
proof -
  obtain h res where res: "sem h G dflt input (RuleExpr rule) 0 = Some res"
    using ranked_sem [OF assms(1-4), of "RuleExpr rule" 0 input dflt] assms(6) by auto
  have "evals G input (RuleExpr rule) 0 (ends res)"
    using sem_ev [OF res] unfolding evals_def by blast
  moreover have "\<exists>c N. \<forall>n\<ge>N. \<exists>v. grammar_parse_ast n G dflt rule (make_ctx input) = Ret v c \<and> (v = None \<longleftrightarrow> ends res = None)"
  proof (cases res)
    case None
    then show ?thesis using parse_ast_sem [OF assms(1,2,4,5,6) res] by auto
  next
    case (Some x)
    then obtain w c N where "\<forall>n\<ge>N. \<exists>hooks. grammar_parse_ast n G dflt rule (make_ctx input) = Ret (Some (w, hooks)) c"
      using parse_ast_sem [OF assms(1,2,4,5,6) res] by (cases x) auto
    note ast = this
    have "\<exists>v. grammar_parse_ast n G dflt rule (make_ctx input) = Ret v c \<and> (v = None \<longleftrightarrow> ends res = None)" if n: "N \<le> n" for n
    proof -
      obtain hooks where "grammar_parse_ast n G dflt rule (make_ctx input) = Ret (Some (w, hooks)) c"
        using ast n by blast
      then show ?thesis using Some by simp
    qed
    then show ?thesis by blast
  qed
  ultimately show ?thesis by blast
qed

lemma plain_ranked: "ranked (\<lambda>r. if r = ''S'' then 1 else 0) plain_grammar"
  by code_simp

theorem ranked_parse_decides_witness:
  "\<exists>res c. evals plain_grammar [1, 4] (RuleExpr ''S'') 0 res \<and>
     grammar_parse_rule (fuel_bound plain_grammar (RuleExpr ''S'') [1, 4]) plain_grammar ''S'' (make_ctx [1, 4]) =
       Ret (res \<noteq> None) c"
  using ranked_parse_decides [OF plain_ready(1,2) plain_ranked plain_sem(1) plain_ready(3), of "[1, 4]"] by blast

theorem ranked_parse_ast_total_witness:
  "\<exists>res c N v. evals plain_grammar [1, 4] (RuleExpr ''S'') 0 res \<and>
     grammar_parse_ast N plain_grammar 0 ''S'' (make_ctx [1, 4]) = Ret v c \<and> (v = None \<longleftrightarrow> res = None)"
proof -
  obtain res c N where "evals plain_grammar [1, 4] (RuleExpr ''S'') 0 res"
    and "\<forall>n\<ge>N. \<exists>v. grammar_parse_ast n plain_grammar 0 ''S'' (make_ctx [1, 4]) = Ret v c \<and> (v = None \<longleftrightarrow> res = None)"
    using ranked_parse_ast_total [OF plain_ready(1,2) plain_ranked plain_ready(4) plain_sem(1) plain_ready(3), of "[1, 4]" 0]
    by (elim exE conjE)
  then show ?thesis using order_refl [of N] by metis
qed

end
