(* ===== verification/Left_Iteration.thy ===== *)
theory Left_Iteration
  imports Decided Grammar_Parse Values
begin

text \<open>
  What direct left recursion is good for: a rule \<open>A = A x1 | .. | A xn | y1 | .. | ym\<close>
  recognises \<open>(y1 | .. | ym) (x1 | .. | xn)*\<close>, as the textbook transformation that removes
  left recursion has it, if its base consumes something; and what the engine makes of it if
  the base matches without consuming.
\<close>

subsection \<open>The growth of a left-recursive rule\<close>

definition left_heads :: "rule_ref \<Rightarrow> 'c expr list list \<Rightarrow> 'c expr list" where
  "left_heads A xss = map (\<lambda>xs. SequenceExpr (RuleExpr A # xs)) xss"

text \<open>A rule whose alternatives begin with itself or belong to its base.\<close>

definition left_recursive :: "('c, 'v) grammar \<Rightarrow> rule_ref \<Rightarrow> 'c expr list list \<Rightarrow> 'c expr list \<Rightarrow> bool" where
  "left_recursive G A xss ys \<longleftrightarrow> xss \<noteq> [] \<and>
     (\<exists>nt. lookup_rule G A = Some nt \<and> m_rule nt = Some (AlternationExpr (left_heads A xss @ ys)) \<and>
       is_sync_token (m_recover nt) = None)"

abbreviation tails :: "'c expr list list \<Rightarrow> 'c expr" where
  "tails xss \<equiv> AlternationExpr (map SequenceExpr xss)"

lemma left_recursive_ev:
  assumes "left_recursive G A xss ys"
  shows "ev n G input (RuleExpr A) p = None"
proof -
  obtain nt xs xss' where A: "lookup_rule G A = Some nt" "xss = xs # xss'"
      "m_rule nt = Some (AlternationExpr (left_heads A xss @ ys))"
    using assms unfolding left_recursive_def by (cases xss) blast+
  have "ev (3 * k) G input (RuleExpr A) p = None" for k
  proof (induction k)
    case (Suc k)
    have three: "3 * Suc k = Suc (Suc (Suc (3 * k)))" by simp
    show ?case unfolding three using Suc A by (simp add: left_heads_def)
  qed simp
  then show ?thesis
    using ev_more [of n G input "RuleExpr A" p _ "3 * n"] by (cases "ev n G input (RuleExpr A) p") auto
qed

lemma left_seed:
  "left_recursive G A xss ys \<Longrightarrow> ev h G input e q = Some res \<Longrightarrow> evl h G input (Some (A, p, s)) e q = Some res"
  by (rule ev_evl) (auto simp: left_recursive_ev)

text \<open>One run of the body: from no seed the base, from a seed one more \<open>x\<close> or the base again.\<close>

lemma ev_alt_heads:
  assumes "\<And>xs. xs \<in> set xss \<Longrightarrow> run (SequenceExpr (RuleExpr A # xs)) p = run' (SequenceExpr xs) q"
  shows "ev_alt run (left_heads A xss @ ys) p =
    (case ev_alt run' (map SequenceExpr xss) q of
       None \<Rightarrow> None | Some None \<Rightarrow> ev_alt run ys p | Some (Some q') \<Rightarrow> Some (Some q'))"
  using assms unfolding left_heads_def by (induction xss) (auto split: option.split)

lemma ev_alt_no_heads:
  assumes "\<And>xs. xs \<in> set xss \<Longrightarrow> run (SequenceExpr (RuleExpr A # xs)) p = Some None"
  shows "ev_alt run (left_heads A xss @ ys) p = ev_alt run ys p"
  using assms unfolding left_heads_def by (induction xss) auto

lemma left_body:
  assumes A: "left_recursive G A xss ys" and base: "ev (Suc (Suc h)) G input (AlternationExpr ys) p = Some y"
  defines "B \<equiv> \<lambda>s. evl (Suc (Suc h)) G input (Some (A, p, s)) (AlternationExpr (left_heads A xss @ ys)) p"
  shows "h > 0 \<Longrightarrow> B None = Some y"
    and "h > 0 \<Longrightarrow> ev (Suc (Suc h)) G input (tails xss) q = Some None \<Longrightarrow> B (Some q) = Some y"
    and "h > 0 \<Longrightarrow> ev (Suc (Suc h)) G input (tails xss) q = Some (Some q') \<Longrightarrow> B (Some q) = Some (Some q')"
proof -
  assume h: "h > 0"
  then obtain k where k: "h = Suc k" by (cases h) auto
  have B: "B s = ev_alt (evl (Suc h) G input (Some (A, p, s))) (left_heads A xss @ ys) p" for s
    by (simp add: B_def ev_step_def)
  have y: "ev_alt (evl (Suc h) G input (Some (A, p, s))) ys p = Some y" for s
    using left_seed [OF A base, of p s] by (simp add: ev_step_def)
  have head: "evl (Suc h) G input (Some (A, p, s)) (SequenceExpr (RuleExpr A # xs)) p =
      (case s of None \<Rightarrow> Some None | Some q \<Rightarrow> evl (Suc h) G input (Some (A, p, s)) (SequenceExpr xs) q)" for s xs
    by (simp add: ev_step_def k seed_of_def split: option.split)
  show "B None = Some y"
    unfolding B using y head [of None] by (subst ev_alt_no_heads) simp_all
  have some: "B (Some q) = (case ev_alt (evl (Suc h) G input (Some (A, p, Some q))) (map SequenceExpr xss) q of
       None \<Rightarrow> None | Some None \<Rightarrow> Some y | Some (Some q') \<Rightarrow> Some (Some q'))" for q
    unfolding B using y head [of "Some q"]
    by (subst ev_alt_heads [where run' = "evl (Suc h) G input (Some (A, p, Some q))" and q = q]) (simp_all split: option.split)
  have x: "ev_alt (evl (Suc h) G input (Some (A, p, Some q))) (map SequenceExpr xss) q = Some r"
    if "ev (Suc (Suc h)) G input (tails xss) q = Some r" for q r
    using left_seed [OF A that, of p "Some q"] by (simp add: ev_step_def)
  show "ev (Suc (Suc h)) G input (tails xss) q = Some None \<Longrightarrow> B (Some q) = Some y"
    "ev (Suc (Suc h)) G input (tails xss) q = Some (Some q') \<Longrightarrow> B (Some q) = Some (Some q')"
    using some x by simp_all
qed

text \<open>From a seed that consumed something, the growth is the repetition of the tails.\<close>

lemma grow_iterates:
  assumes "ev_loop m X (- 1) k q = Some (k', q')" and "base \<le> q" "q \<le> L" "L < j + q"
    and "\<And>q. X q = Some None \<Longrightarrow> B (Some q) = Some (Some base)"
    and "\<And>q q'. X q = Some (Some q') \<Longrightarrow> B (Some q) = Some (Some q')"
    and "\<And>q q'. X q = Some (Some q') \<Longrightarrow> q \<le> L \<Longrightarrow> q \<le> q' \<and> q' \<le> L"
  shows "grow j B p (Some q) = Some (Some q')"
  using assms(1-4)
proof (induction m arbitrary: k q j)
  case (Suc m)
  obtain i where j: "j = Suc i" using Suc.prems(3,4) by (cases j) auto
  obtain r where r: "X q = Some r" using Suc.prems(1) by (auto split: option.splits)
  show ?case
  proof (cases r)
    case None
    then show ?thesis using Suc.prems r j assms(5) by simp
  next
    case (Some q2)
    then have x: "X q = Some (Some q2)" "B (Some q) = Some (Some q2)" "q \<le> q2" "q2 \<le> L"
      using r assms(6,7) Suc.prems(3) by simp_all
    show ?thesis
    proof (cases "q2 = q")
      case True
      then show ?thesis using Suc.prems(1) x j by simp
    next
      case False
      then have "grow i B p (Some q2) = Some (Some q')"
        using Suc.prems x j by (intro Suc.IH [of "Suc k"]) simp_all
      then show ?thesis using x False j by simp
    qed
  qed
qed simp

lemma left_recursive_wf:
  assumes "left_recursive G A xss ys" and "wf_grammar G"
  shows "wf_expr G (tails xss)" "wf_expr G (AlternationExpr ys)"
proof -
  have "wf_expr G (AlternationExpr (left_heads A xss @ ys))"
    using assms unfolding left_recursive_def by (blast intro: wf_grammar_body)
  then have "list_all (wf_expr G) (left_heads A xss)" "list_all (wf_expr G) ys" by simp_all
  then show "wf_expr G (tails xss)" "wf_expr G (AlternationExpr ys)"
    by (force simp: left_heads_def list_all_iff)+
qed

lemma iteration_parts:
  assumes "ev h G input (SequenceExpr [y, ZeroOrMoreExpr x]) p = Some res"
  shows "\<exists>r. ev h G input y p = Some r \<and>
    (case r of None \<Rightarrow> res = None
     | Some q \<Rightarrow> \<exists>k q'. ev_loop h (ev h G input x) (- 1) 0 q = Some (k, q') \<and> res = Some q')"
proof -
  obtain n where h: "h = Suc n" using assms by (cases h) auto
  then obtain r where r: "ev n G input y p = Some r"
    using assms by (auto split: option.splits)
  show ?thesis
  proof (cases r)
    case None
    then show ?thesis
      using ev_more [OF r, of h] assms h r by auto
  next
    case (Some q)
    then have "ev n G input (ZeroOrMoreExpr x) q = Some res"
      using assms h r by (auto split: option.splits)
    then have "ev (Suc h) G input (ZeroOrMoreExpr x) q = Some res"
      by (rule ev_more) (simp add: h)
    then have "\<exists>k q'. ev_loop h (ev h G input x) (- 1) 0 q = Some (k, q') \<and> res = Some q'"
      by (auto simp: ev_rep_def split: option.splits)
    then show ?thesis
      using ev_more [OF r, of h] Some h by auto
  qed
qed

lemma left_iteration_evls:
  assumes A: "left_recursive G A xss ys" and wf: "wf_grammar G" and p: "p \<le> length input"
    and ev: "evals G input (SequenceExpr [AlternationExpr ys, ZeroOrMoreExpr (tails xss)]) p res"
    and base: "\<not> evals G input (AlternationExpr ys) p (Some p)"
  shows "evls G input (RuleExpr A) p res"
proof -
  obtain h0 where h0: "ev h0 G input (SequenceExpr [AlternationExpr ys, ZeroOrMoreExpr (tails xss)]) p = Some res"
    using ev by (auto simp: evals_def)
  define h where "h = Suc (Suc (Suc h0))"
  have "ev h G input (SequenceExpr [AlternationExpr ys, ZeroOrMoreExpr (tails xss)]) p = Some res"
    by (rule ev_more [OF h0]) (simp add: h_def)
  then obtain y where y: "ev h G input (AlternationExpr ys) p = Some y"
    and rest: "case y of None \<Rightarrow> res = None
      | Some q \<Rightarrow> \<exists>k q'. ev_loop h (ev h G input (tails xss)) (- 1) 0 q = Some (k, q') \<and> res = Some q'"
    using iteration_parts by blast
  let ?B = "\<lambda>s. evl h G input (Some (A, p, s)) (AlternationExpr (left_heads A xss @ ys)) p"
  note body = left_body [OF A, of "Suc h0", folded h_def, OF y zero_less_Suc]
  obtain nt where nt: "lookup_rule G A = Some nt" "m_rule nt = Some (AlternationExpr (left_heads A xss @ ys))"
      "is_sync_token (m_recover nt) = None"
    using A by (auto simp: left_recursive_def)
  have "grown_end input ?B p = Some res"
  proof (cases y)
    case None
    then show ?thesis
      using body(1) rest by (simp add: grown_end_def)
  next
    case (Some q)
    have q: "p < q" "q \<le> length input"
      using ev_bounds [of h G input "AlternationExpr ys" p q] left_recursive_wf(2) [OF A wf] wf p y Some base
      by (auto simp: evals_def le_less simp del: ev.simps)
    obtain k q' where loop: "ev_loop h (ev h G input (tails xss)) (- 1) 0 q = Some (k, q')" "res = Some q'"
      using rest Some by auto
    have "grow (Suc (length input)) ?B p (Some q) = Some (Some q')"
    proof (rule grow_iterates [OF loop(1) order_refl q(2)])
      show "length input < Suc (length input) + q" by simp
      show "r \<le> r' \<and> r' \<le> length input" if "ev h G input (tails xss) r = Some (Some r')" "r \<le> length input" for r r'
        using ev_bounds [OF that(1) wf left_recursive_wf(1) [OF A wf] that(2)] by simp
    qed (use body(2,3) Some in auto)
    then show ?thesis
      using body(1) Some q(1) loop(2) by (simp add: grown_end_def)
  qed
  then have "evl (Suc h) G input None (RuleExpr A) p = Some res"
    using evl_rule [OF nt(1,2), of None p h input] nt(3) by (simp add: seed_of_def ev_recover_none)
  then show ?thesis unfolding evls_def by blast
qed

text \<open>A base that matches without consuming is all there is: it is not grown.\<close>

lemma left_nullable_evls:
  assumes A: "left_recursive G A xss ys" and base: "evals G input (AlternationExpr ys) p (Some p)"
  shows "evls G input (RuleExpr A) p (Some p)"
proof -
  obtain h0 where h0: "ev h0 G input (AlternationExpr ys) p = Some (Some p)"
    using base by (auto simp: evals_def)
  define h where "h = Suc (Suc (Suc h0))"
  have y: "ev h G input (AlternationExpr ys) p = Some (Some p)"
    by (rule ev_more [OF h0]) (simp add: h_def)
  obtain nt where nt: "lookup_rule G A = Some nt" "m_rule nt = Some (AlternationExpr (left_heads A xss @ ys))"
      "is_sync_token (m_recover nt) = None"
    using A by (auto simp: left_recursive_def)
  have "grown_end input (\<lambda>s. evl h G input (Some (A, p, s)) (AlternationExpr (left_heads A xss @ ys)) p) p = Some (Some p)"
    using left_body(1) [OF A, of "Suc h0", folded h_def, OF y zero_less_Suc] by (simp add: grown_end_def)
  then have "evl (Suc h) G input None (RuleExpr A) p = Some (Some p)"
    using evl_rule [OF nt(1,2), of None p h input] nt(3) by (simp add: seed_of_def ev_recover_none)
  then show ?thesis unfolding evls_def by blast
qed

subsection \<open>Properties\<close>

lemma parse_rule_grows:
  assumes "wf_grammar G" and "cut_free_grammar G" and "g_skipper G = None" and "defined_rule G rule"
    and "evls G input (RuleExpr rule) 0 res" and "fuel_bound G (RuleExpr rule) input \<le> n"
  shows "\<exists>c. grammar_parse_rule n G rule (make_ctx input) = Ret (res \<noteq> None) c \<and> (\<forall>q. res = Some q \<longrightarrow> m_position c = q)"
proof -
  obtain h where h: "evl h G input None (RuleExpr rule) 0 = Some res"
    using assms(5) by (auto simp: evls_def)
  obtain r c where "parse n G (RuleExpr rule) (start_ctx None input) = Ret r c"
      "case res of None \<Rightarrow> \<not> success r \<and> m_position c = 0 | Some q \<Rightarrow> success r \<and> m_position c = q"
    using cut_free_grows [OF assms(1,2) _ _ h assms(6)] assms(4) by auto
  moreover have "lookup_rule G rule \<noteq> None"
    using assms(4) by (auto simp: defined_rule_def split: option.splits)
  ultimately show ?thesis
    using assms(3)
    by (auto simp: grammar_parse_rule_def enter_rule_def internal_set_skipper_start run_skipper_def split: option.splits)
qed

lemma left_recursive_defined: "left_recursive G A xss ys \<Longrightarrow> defined_rule G A"
  by (auto simp: left_recursive_def defined_rule_def is_defined_def)

text \<open>
  C11: the engine computes the seed-growing semantics of direct left recursion: with a cut-free
  grammar and no skipper, whenever \<open>evl\<close> gives the expression a result on the input, the parse
  returns, with success and the end of the match if \<open>evl\<close> matches, and with failure and nothing
  consumed if it fails. Frames, heads, memo and the clearing of siblings do not change it.
\<close>

theorem engine_grows_seeds:
  assumes "wf_grammar G" and "cut_free_grammar G" and "wf_expr G e" and "cut_free e"
    and "evl h G input None e 0 = Some res" and "fuel_bound G e input \<le> n"
  shows "\<exists>r c. parse n G e (start_ctx None input) = Ret r c \<and>
    (case res of None \<Rightarrow> \<not> success r \<and> m_position c = 0 | Some q \<Rightarrow> success r \<and> m_position c = q)"
  by (rule cut_free_grows [OF assms])

text \<open>
  C5: direct left recursion is iteration: for a rule \<open>A = A x1 | .. | A xn | y1 | .. | ym\<close> of a
  well-formed cut-free grammar without a skipper, whenever the recogniser gives the
  right-recursive form \<open>(y1 | .. | ym) (x1 | .. | xn)*\<close> a result on the input, and the base does
  not match without consuming, \<open>parse\<close> of \<open>A\<close> returns, \<open>true\<close> exactly when that form matches,
  and ends where it ends.
\<close>

theorem left_recursion_iterates:
  assumes "wf_grammar G" and "cut_free_grammar G" and "g_skipper G = None" and "left_recursive G A xss ys"
    and "evals G input (SequenceExpr [AlternationExpr ys, ZeroOrMoreExpr (tails xss)]) 0 res"
    and "\<not> evals G input (AlternationExpr ys) 0 (Some 0)" and "fuel_bound G (RuleExpr A) input \<le> n"
  shows "\<exists>c. grammar_parse_rule n G A (make_ctx input) = Ret (res \<noteq> None) c \<and> (\<forall>q. res = Some q \<longrightarrow> m_position c = q)"
  using left_iteration_evls [OF assms(4,1) _ assms(5,6)]
  by (intro parse_rule_grows assms left_recursive_defined [OF assms(4)]) simp

text \<open>
  C36: a left-recursive rule whose base matches without consuming anything is never grown:
  \<open>parse\<close> returns \<open>true\<close> at the start of the input, whatever its other alternatives would match
  there.
\<close>

theorem nullable_base_stops:
  assumes "wf_grammar G" and "cut_free_grammar G" and "g_skipper G = None" and "left_recursive G A xss ys"
    and "evals G input (AlternationExpr ys) 0 (Some 0)" and "fuel_bound G (RuleExpr A) input \<le> n"
  shows "\<exists>c. grammar_parse_rule n G A (make_ctx input) = Ret True c \<and> m_position c = 0"
  using parse_rule_grows [OF assms(1-3) left_recursive_defined [OF assms(4)] left_nullable_evls [OF assms(4,5)] assms(6)]
  by simp

text \<open>
  C6: with direct left recursion only the engine decides every input: for a well-formed
  cut-free grammar whose rules have ranks, each rule calling only itself and rules of lower
  rank before it consumes anything, and without a skipper, \<open>parse\<close> from any defined rule returns
  on every input; it returns \<open>true\<close> exactly when the seed-growing recogniser, which then always
  has a result, matches the rule, and ends where the match ends.
\<close>

theorem left_recursive_parse_decides:
  assumes "wf_grammar G" and "cut_free_grammar G" and "self_ranked rank G" and "g_skipper G = None"
    and "defined_rule G rule"
  shows "\<exists>res. evls G input (RuleExpr rule) 0 res \<and>
    (\<forall>n \<ge> fuel_bound G (RuleExpr rule) input. \<exists>c.
       grammar_parse_rule n G rule (make_ctx input) = Ret (res \<noteq> None) c \<and>
       (\<forall>q. res = Some q \<longrightarrow> m_position c = q))"
proof -
  obtain res where "evls G input (RuleExpr rule) 0 res"
    using self_ranked_decided [of rank G "RuleExpr rule" 0 input] assms by (auto simp: plain_def)
  then show ?thesis using parse_rule_grows [OF assms(1,2,4,5)] by blast
qed

text \<open>\<open>A = A 5 D | A 6 D | D\<close> with \<open>D = 0..4\<close>, and \<open>N = N 1 | ()\<close>.\<close>

definition chain_grammar :: "(nat, nat) grammar" where
  "chain_grammar =
     \<lparr>m_rules =
        [(''A'', new_non_terminal\<lparr>m_rule := Some (AlternationExpr
            [SequenceExpr [RuleExpr ''A'', TerminalExpr (TValue 5), RuleExpr ''D''],
             SequenceExpr [RuleExpr ''A'', TerminalExpr (TValue 6), RuleExpr ''D''], RuleExpr ''D'']), m_name := ''A''\<rparr>),
         (''D'', new_non_terminal\<lparr>m_rule := Some (TerminalExpr (TRange 0 4)), m_name := ''D''\<rparr>),
         (''N'', new_non_terminal\<lparr>m_rule := Some (AlternationExpr
            [SequenceExpr [RuleExpr ''N'', TerminalExpr (TValue 1)], EmptyExpr]), m_name := ''N''\<rparr>)],
      m_start = ''A'', g_skipper = None, g_ops = token_ops None (\<le>)\<rparr>"

lemma chain_grammar_ready: "wf_grammar chain_grammar" "cut_free_grammar chain_grammar" "g_skipper chain_grammar = None"
  by (simp_all add: chain_grammar_def wf_grammar_def cut_free_grammar_def defined_rule_def
       lookup_rule_def is_defined_def new_non_terminal_def token_ops_def)

lemma chain_grammar_rules:
  "left_recursive chain_grammar ''A'' [[TerminalExpr (TValue 5), RuleExpr ''D''], [TerminalExpr (TValue 6), RuleExpr ''D'']] [RuleExpr ''D'']"
  "left_recursive chain_grammar ''N'' [[TerminalExpr (TValue 1)]] [EmptyExpr]"
  by (simp_all add: left_recursive_def left_heads_def chain_grammar_def lookup_rule_def new_non_terminal_def no_recovery_def)

lemma chain_grammar_ev:
  "ev 9 chain_grammar [1, 5, 2, 6, 3, 7] (SequenceExpr [AlternationExpr [RuleExpr ''D''],
     ZeroOrMoreExpr (tails [[TerminalExpr (TValue 5), RuleExpr ''D''], [TerminalExpr (TValue 6), RuleExpr ''D'']])]) 0 = Some (Some 5)"
  "ev 9 chain_grammar [1, 5, 2, 6, 3, 7] (AlternationExpr [RuleExpr ''D'']) 0 = Some (Some 1)"
  "ev 9 chain_grammar [1, 1] (AlternationExpr [EmptyExpr]) 0 = Some (Some 0)"
  by code_simp+

lemma chain_grammar_evl: "evl 9 chain_grammar [1, 5, 2, 6, 3, 7] None (RuleExpr ''A'') 0 = Some (Some 5)"
  by code_simp

theorem engine_grows_seeds_witness:
  "\<exists>n r c. parse n chain_grammar (RuleExpr ''A'') (start_ctx None [1, 5, 2, 6, 3, 7]) = Ret r c \<and> success r \<and> m_position c = 5"
  using engine_grows_seeds [OF chain_grammar_ready(1,2) _ _ chain_grammar_evl order_refl]
    left_recursive_defined [OF chain_grammar_rules(1)] by auto

lemma chain_grammar_ranked: "self_ranked (\<lambda>r. if r = ''A'' then 1 else 0) chain_grammar"
  by code_simp

theorem left_recursive_parse_decides_witness:
  "\<exists>res n c. evls chain_grammar [1, 6, 2] (RuleExpr ''A'') 0 res \<and>
     grammar_parse_rule n chain_grammar ''A'' (make_ctx [1, 6, 2]) = Ret (res \<noteq> None) c"
  using left_recursive_parse_decides [OF chain_grammar_ready(1,2) chain_grammar_ranked chain_grammar_ready(3)
      left_recursive_defined [OF chain_grammar_rules(1)], of "[1, 6, 2]"] by blast

theorem left_recursion_iterates_witness:
  "\<exists>n c. grammar_parse_rule n chain_grammar ''A'' (make_ctx [1, 5, 2, 6, 3, 7]) = Ret True c \<and> m_position c = 5"
proof -
  have "evals chain_grammar [1, 5, 2, 6, 3, 7] (AlternationExpr [RuleExpr ''D'']) 0 (Some 1)"
    unfolding evals_def using chain_grammar_ev(2) by blast
  then have "\<not> evals chain_grammar [1, 5, 2, 6, 3, 7] (AlternationExpr [RuleExpr ''D'']) 0 (Some 0)"
    by (auto dest: evals_unique)
  moreover have "evals chain_grammar [1, 5, 2, 6, 3, 7] (SequenceExpr [AlternationExpr [RuleExpr ''D''],
     ZeroOrMoreExpr (tails [[TerminalExpr (TValue 5), RuleExpr ''D''], [TerminalExpr (TValue 6), RuleExpr ''D'']])]) 0 (Some 5)"
    unfolding evals_def using chain_grammar_ev(1) by blast
  ultimately show ?thesis
    using left_recursion_iterates [OF chain_grammar_ready chain_grammar_rules(1) _ _ order_refl] by fastforce
qed

theorem nullable_base_stops_witness:
  "\<exists>n c. grammar_parse_rule n chain_grammar ''N'' (make_ctx [1, 1]) = Ret True c \<and> m_position c = 0"
proof -
  have "evals chain_grammar [1, 1] (AlternationExpr [EmptyExpr]) 0 (Some 0)"
    unfolding evals_def using chain_grammar_ev(3) by blast
  from nullable_base_stops [OF chain_grammar_ready chain_grammar_rules(2) this order_refl] show ?thesis by blast
qed

subsection \<open>Indirect left recursion\<close>

text \<open>
  \<open>A = B 1 | 2\<close> and \<open>B = A 3 | 4\<close>, with the body \<open>s\<close> for the start rule \<open>S\<close>. Here the head
  that grows is whichever rule is called first, and the results of the other one, computed
  from a seed that was still growing, stay in the memo.
\<close>

definition mutual_grammar :: "nat expr \<Rightarrow> (nat, nat) grammar" where
  "mutual_grammar s =
     \<lparr>m_rules =
        [(''A'', new_non_terminal\<lparr>m_rule := Some (AlternationExpr
            [SequenceExpr [RuleExpr ''B'', TerminalExpr (TValue 1)], TerminalExpr (TValue 2)]), m_name := ''A''\<rparr>),
         (''B'', new_non_terminal\<lparr>m_rule := Some (AlternationExpr
            [SequenceExpr [RuleExpr ''A'', TerminalExpr (TValue 3)], TerminalExpr (TValue 4)]), m_name := ''B''\<rparr>),
         (''S'', new_non_terminal\<lparr>m_rule := Some s, m_name := ''S''\<rparr>)],
      m_start = ''S'', g_skipper = None, g_ops = token_ops None (\<le>)\<rparr>"

definition ended_at :: "('c ctx, 'e, bool) outcome \<Rightarrow> (bool \<times> nat) option" where
  "ended_at m = (case m of Ret b c \<Rightarrow> Some (b, m_position c) | _ \<Rightarrow> None)"

definition mutual_run :: "nat expr \<Rightarrow> (bool \<times> nat) option" where
  "mutual_run s = ended_at (grammar_parse_rule 60 (mutual_grammar s) ''S'' (make_ctx [4, 1, 3, 1, 5]))"

text \<open>
  With indirect left recursion the result of a rule depends on what was tried before at
  its position: on \<open>4 1 3 1 5\<close>, where \<open>A 0\<close> does not match, \<open>B 1 5\<close> matches all, and the choice
  \<open>A 0 | B 1 5\<close> nothing, since the attempt of \<open>A\<close> leaves an entry for \<open>B\<close> that is not what \<open>B\<close>
  matches.
\<close>

theorem indirect_recursion_stale_entry:
  "mutual_run (SequenceExpr [RuleExpr ''A'', TerminalExpr (TValue 0)]) = Some (False, 0) \<and>
   mutual_run (SequenceExpr [RuleExpr ''B'', TerminalExpr (TValue 1), TerminalExpr (TValue 5)]) = Some (True, 5) \<and>
   mutual_run (AlternationExpr [SequenceExpr [RuleExpr ''A'', TerminalExpr (TValue 0)],
     SequenceExpr [RuleExpr ''B'', TerminalExpr (TValue 1), TerminalExpr (TValue 5)]]) = Some (False, 0)"
  by code_simp

end
