(* ===== verification/Commitment.thy ===== *)
theory Commitment
  imports Reference Termination
begin

text \<open>
  The full reference semantics, \<open>evf\<close>: cuts, the skipper and \<open>lexeme\<close>, without memo and
  without left recursion. A cut commits: the choice or repetition around it does not try
  anything else after a failure, but aborts the parse. Erasing the cuts of a grammar shows
  what they are for: they never change a result, they only replace some by an abort.
\<close>

subsection \<open>The evaluator\<close>

text \<open>Where the skipper ends; that it fails does not matter.\<close>

definition full_skip :: "rule_ref option \<Rightarrow> (rule_ref \<Rightarrow> nat \<Rightarrow> full_result) \<Rightarrow> bool \<Rightarrow> nat \<Rightarrow> skip_result" where
  "full_skip sk R b p =
     (case (b, sk) of
        (True, Some s) \<Rightarrow>
          (case R s p of
             None \<Rightarrow> None
           | Some Aborts \<Rightarrow> Some None
           | Some (Ends res k) \<Rightarrow> Some (Some (case res of None \<Rightarrow> p | Some q \<Rightarrow> q)))
      | _ \<Rightarrow> Some (Some p))"

text \<open>A rule recovers only if no cut has committed it.\<close>

fun full_recover :: "('c, 'v) non_terminal \<Rightarrow> 'c list \<Rightarrow> nat \<Rightarrow> cut_result \<Rightarrow> cut_result" where
  "full_recover nt input p Aborts = Aborts"
| "full_recover nt input p (Ends r k) = Ends (if k then r else ev_recover nt input p r) k"

text \<open>The flag \<open>b\<close>: skipping is on. \<open>None\<close>: out of fuel, as always for a left-recursive rule.\<close>

primrec evf ::
  "nat \<Rightarrow> ('c, 'v) grammar \<Rightarrow> rule_ref option \<Rightarrow> 'c list \<Rightarrow> bool \<Rightarrow> 'c expr \<Rightarrow> nat \<Rightarrow> full_result" where
  "evf 0 G sk input b e p = None"
| "evf (Suc n) G sk input b e p =
     (case e of
        RuleExpr r \<Rightarrow>
          (case lookup_rule G r of
             None \<Rightarrow> None
           | Some nt \<Rightarrow>
               (case m_rule nt of
                  None \<Rightarrow> None
                | Some body \<Rightarrow> map_option (full_recover nt input p) (evf n G sk input b body p)))
      | _ \<Rightarrow> full_step n G input (full_skip sk (\<lambda>s. evf n G sk input False (RuleExpr s))) (evf n G sk input) b e p)"

lemma evf_other:
  "\<forall>r. e \<noteq> RuleExpr r \<Longrightarrow> evf (Suc n) G sk input b e p =
     full_step n G input (full_skip sk (\<lambda>s. evf n G sk input False (RuleExpr s))) (evf n G sk input) b e p"
  by (cases e) simp_all

lemma evf_rule:
  assumes "lookup_rule G r = Some nt" "m_rule nt = Some body"
  shows "evf (Suc n) G sk input b (RuleExpr r) p = map_option (full_recover nt input p) (evf n G sk input b body p)"
  using assms by simp

subsection \<open>More fuel, same result\<close>

lemma le_opt_skip:
  "le_opt a b \<Longrightarrow> (\<And>p. le_opt (f p) (g p)) \<Longrightarrow>
   le_opt (case a of None \<Rightarrow> None | Some None \<Rightarrow> Some x | Some (Some p) \<Rightarrow> f p)
     (case b of None \<Rightarrow> None | Some None \<Rightarrow> Some x | Some (Some p) \<Rightarrow> g p)"
  by (auto simp: le_opt_def split: option.split)

lemma full_seq_le:
  assumes "\<And>e p. le_opt (E e p) (E' e p)" and "\<And>p. le_opt (K p) (K' p)"
  shows "le_opt (full_seq K E later es p) (full_seq K' E' later es p)"
proof (induction es arbitrary: later p)
  case (Cons e es)
  have skip: "le_opt (if later then K p else Some (Some p)) (if later then K' p else Some (Some p))"
    by (simp add: assms(2))
  show ?case
    unfolding full_seq.simps
  proof (rule le_opt_skip [OF skip])
    fix p'
    show "le_opt (case E e p' of None \<Rightarrow> None | Some Aborts \<Rightarrow> Some Aborts | Some (Ends None k) \<Rightarrow> Some (Ends None k)
        | Some (Ends (Some q) k) \<Rightarrow> map_option (or_cut k) (full_seq K E True es q))
      (case E' e p' of None \<Rightarrow> None | Some Aborts \<Rightarrow> Some Aborts | Some (Ends None k) \<Rightarrow> Some (Ends None k)
        | Some (Ends (Some q) k) \<Rightarrow> map_option (or_cut k) (full_seq K' E' True es q))"
      by (rule le_opt_case [OF assms(1)]) (auto split: option.split cut_result.split intro: le_opt_map [OF Cons.IH])
  qed
qed simp

lemma full_alt_le:
  assumes "\<And>e p. le_opt (E e p) (E' e p)"
  shows "le_opt (full_alt E es p) (full_alt E' es p)"
proof (induction es arbitrary: p)
  case (Cons e es)
  then show ?case
    using le_opt_cases [OF assms, of e p] by (auto split: option.split cut_result.split)
qed simp

lemma full_loop_le:
  assumes "\<And>p. le_opt (E p) (E' p)" and "\<And>p. le_opt (K p) (K' p)"
  shows "n \<le> m \<Longrightarrow> le_opt (full_loop n K E max_rep k p) (full_loop m K' E' max_rep k p)"
proof (induction n arbitrary: m k p)
  case 0
  then show ?case by simp
next
  case (Suc n)
  then obtain m' where m: "m = Suc m'" "n \<le> m'" by (cases m) auto
  have skip: "le_opt (if k > 0 then K p else Some (Some p)) (if k > 0 then K' p else Some (Some p))"
    by (simp add: assms(2))
  show ?case
    unfolding m(1) full_loop.simps
    by (rule le_opt_skip [OF skip], rule le_opt_case [OF assms(1)])
       (auto simp: Suc.IH [OF m(2)] split: option.split cut_result.split)
qed

lemma full_rep_le:
  assumes "\<And>p. le_opt (E p) (E' p)" and "\<And>p. le_opt (K p) (K' p)" and "n \<le> m"
  shows "le_opt (full_rep n K E min_rep max_rep p) (full_rep m K' E' min_rep max_rep p)"
  unfolding full_rep_def by (rule le_opt_case [OF full_loop_le [OF assms]]) simp

lemma full_skip_le: "(\<And>s p. le_opt (R s p) (R' s p)) \<Longrightarrow> le_opt (full_skip sk R b p) (full_skip sk R' b p)"
  unfolding full_skip_def by (cases b; cases sk) (auto intro: le_opt_case)

lemma full_step_le:
  assumes "\<And>b e p. le_opt (E b e p) (E' b e p)" and "\<And>b p. le_opt (K b p) (K' b p)" and "n \<le> m"
  shows "le_opt (full_step n G input K E b e p) (full_step m G input K' E' b e p)"
  unfolding full_step_def
  by (cases e) (simp_all only: expr.case le_opt_refl full_seq_le full_alt_le full_rep_le le_opt_map assms)

lemma evf_le: "n \<le> m \<Longrightarrow> le_opt (evf n G sk input b e p) (evf m G sk input b e p)"
proof (induction n arbitrary: m b e p)
  case 0
  then show ?case by simp
next
  case (Suc n)
  then obtain m' where m: "m = Suc m'" "n \<le> m'" by (cases m) auto
  show ?case
  proof (cases "\<exists>r. e = RuleExpr r")
    case True
    then show ?thesis
      using Suc.IH [OF m(2)] by (auto simp: m(1) split: option.split intro!: le_opt_map)
  next
    case False
    then show ?thesis
      unfolding m(1) evf_other [OF False [simplified]] by (intro full_step_le full_skip_le Suc.IH m(2))
  qed
qed

lemma evf_more: "evf n G sk input b e p = Some v \<Longrightarrow> n \<le> m \<Longrightarrow> evf m G sk input b e p = Some v"
  by (rule le_opt_Some [OF evf_le])

text \<open>The meaning of an expression: what \<open>evf\<close> gives with enough fuel.\<close>

definition evfs :: "('c, 'v) grammar \<Rightarrow> rule_ref option \<Rightarrow> 'c list \<Rightarrow> bool \<Rightarrow> 'c expr \<Rightarrow> nat \<Rightarrow> cut_result \<Rightarrow> bool" where
  "evfs G sk input b e p v \<longleftrightarrow> (\<exists>n. evf n G sk input b e p = Some v)"

lemma evfs_unique: "evfs G sk input b e p v \<Longrightarrow> evfs G sk input b e p w \<Longrightarrow> v = w"
  unfolding evfs_def by (metis evf_more nle_le option.inject)

subsection \<open>Cuts that stay inside\<close>

text \<open>A cut of \<open>e\<close> can commit the scope that \<open>e\<close> stands in.\<close>

fun open_cut :: "'c expr \<Rightarrow> bool" where
  "open_cut CutExpr = True"
| "open_cut (SequenceExpr es) = list_ex open_cut es"
| "open_cut (NotExpr e) = open_cut e"
| "open_cut (AndExpr e) = open_cut e"
| "open_cut (LexemeExpr e) = open_cut e"
| "open_cut e = False"

definition closed_cuts :: "('c, 'v) grammar \<Rightarrow> bool" where
  "closed_cuts G = list_all (\<lambda>(r, nt). case m_rule nt of None \<Rightarrow> True | Some e \<Rightarrow> \<not> open_cut e) (m_rules G)"

lemma closed_cuts_body:
  "closed_cuts G \<Longrightarrow> lookup_rule G r = Some nt \<Longrightarrow> m_rule nt = Some e \<Longrightarrow> \<not> open_cut e"
  by (force simp: closed_cuts_def lookup_rule_def list_all_iff dest: map_of_SomeD)

lemma full_rep_scoped: "full_rep n K E lo hi p = Some (Ends res k) \<Longrightarrow> \<not> k"
  by (auto simp: full_rep_def split: option.splits if_splits)

lemma full_seq_closed:
  assumes "\<And>e p res k. e \<in> set es \<Longrightarrow> E e p = Some (Ends res k) \<Longrightarrow> \<not> k"
  shows "full_seq K E later es p = Some (Ends res k) \<Longrightarrow> \<not> k"
  using assms
proof (induction es arbitrary: later p res k)
  case Nil
  then show ?case by auto
next
  case (Cons e es)
  have or_cut: "or_cut c v = Ends res k \<Longrightarrow> \<exists>k'. v = Ends res k' \<and> k = (c \<or> k')" for c v
    by (cases v) auto
  obtain p' re c where "E e p' = Some (Ends re c)"
    and "k = c \<or> (\<exists>q k'. full_seq K E True es q = Some (Ends res k') \<and> k = (c \<or> k'))"
    using Cons.prems(1) by (auto split: option.splits cut_result.splits if_splits dest!: or_cut) blast+
  then show ?case
    using Cons.prems(2) Cons.IH [of True _ res] by (metis list.set_intros)
qed

lemma evf_closed:
  assumes "closed_cuts G"
  shows "evf n G sk input b e p = Some (Ends res k) \<Longrightarrow> \<not> open_cut e \<Longrightarrow> \<not> k"
proof (induction n arbitrary: b e p res k)
  case 0
  then show ?case by simp
next
  case (Suc n)
  have pred: "full_pred neg p v = Ends res k \<Longrightarrow> \<exists>res'. v = Ends res' k" for neg v
    by (cases v) auto
  show ?case
  proof (cases e)
    case (SequenceExpr es)
    then show ?thesis
      using Suc.prems by (intro full_seq_closed [of es "evf n G sk input b" _ False p res k]) (auto simp: full_step_def list_ex_iff dest: Suc.IH)
  next
    case (RuleExpr r)
    then obtain nt body v where v: "lookup_rule G r = Some nt" "m_rule nt = Some body"
        "evf n G sk input b body p = Some v" "full_recover nt input p v = Ends res k"
      using Suc.prems(1) by (auto split: option.splits)
    then obtain res' where "v = Ends res' k" by (cases v) auto
    then show ?thesis using v Suc.IH closed_cuts_body [OF assms v(1,2)] by blast
  qed (use Suc in \<open>auto simp: full_step_def dest: full_rep_scoped full_alt_scoped dest!: pred, blast+\<close>)
qed

subsection \<open>Erasing the cuts\<close>

fun uncut :: "'c expr \<Rightarrow> 'c expr" where
  "uncut CutExpr = EmptyExpr"
| "uncut (SequenceExpr es) = SequenceExpr (map uncut es)"
| "uncut (AlternationExpr es) = AlternationExpr (map uncut es)"
| "uncut (ZeroOrMoreExpr e) = ZeroOrMoreExpr (uncut e)"
| "uncut (OneOrMoreExpr e) = OneOrMoreExpr (uncut e)"
| "uncut (NTimesExpr e n) = NTimesExpr (uncut e) n"
| "uncut (OptionalExpr e) = OptionalExpr (uncut e)"
| "uncut (NotExpr e) = NotExpr (uncut e)"
| "uncut (AndExpr e) = AndExpr (uncut e)"
| "uncut (LexemeExpr e) = LexemeExpr (uncut e)"
| "uncut e = e"

definition uncut_rule :: "('c, 'v) non_terminal \<Rightarrow> ('c, 'v) non_terminal" where
  "uncut_rule nt = nt\<lparr>m_rule := map_option uncut (m_rule nt)\<rparr>"

definition uncut_grammar :: "('c, 'v) grammar \<Rightarrow> ('c, 'v) grammar" where
  "uncut_grammar G = G\<lparr>m_rules := map (\<lambda>(r, nt). (r, uncut_rule nt)) (m_rules G)\<rparr>"

lemma lookup_uncut [simp]: "lookup_rule (uncut_grammar G) r = map_option uncut_rule (lookup_rule G r)"
  by (simp add: lookup_rule_def uncut_grammar_def map_of_map)

lemma uncut_ops [simp]: "g_ops (uncut_grammar G) = g_ops G"
  by (simp add: uncut_grammar_def)

lemma cut_free_uncut: "cut_free (uncut e)"
  by (induction e) (auto simp: list_all_iff)

lemma defined_rule_uncut [simp]: "defined_rule (uncut_grammar G) r \<longleftrightarrow> defined_rule G r"
  by (auto simp: defined_rule_def is_defined_def uncut_rule_def split: option.split)

lemma wf_expr_uncut: "wf_expr G e \<Longrightarrow> wf_expr (uncut_grammar G) (uncut e)"
  by (induction e) (auto simp: list_all_iff)

lemma uncut_rules: "m_rules (uncut_grammar G) = map (\<lambda>(r, nt). (r, uncut_rule nt)) (m_rules G)"
  by (simp add: uncut_grammar_def)

lemma uncut_grammar_ok:
  "cut_free_grammar (uncut_grammar G)" "wf_grammar G \<Longrightarrow> wf_grammar (uncut_grammar G)"
  by (auto simp: cut_free_grammar_def wf_grammar_def uncut_rules uncut_rule_def list_all_iff cut_free_uncut
      intro!: wf_expr_uncut split: option.splits) fastforce

text \<open>What may become of a result \<open>r\<close> when there are cuts.\<close>

definition prunes :: "full_result \<Rightarrow> full_result \<Rightarrow> bool" where
  "prunes a b \<longleftrightarrow> (\<forall>v'. b = Some v' \<longrightarrow> (\<exists>r. v' = Ends r False \<and> (a = Some Aborts \<or> (\<exists>k. a = Some (Ends r k)))))"

definition prunes_skip :: "skip_result \<Rightarrow> skip_result \<Rightarrow> bool" where
  "prunes_skip a b \<longleftrightarrow> (\<forall>s. b = Some s \<longrightarrow> (\<exists>q. s = Some q \<and> (a = Some None \<or> a = Some (Some q))))"

lemma prunes_same [simp]: "prunes (Some (Ends r k)) (Some (Ends r False))"
  by (simp add: prunes_def)

definition prunes_loop :: "(nat \<times> nat \<times> bool) option option \<Rightarrow> (nat \<times> nat \<times> bool) option option \<Rightarrow> bool" where
  "prunes_loop a b \<longleftrightarrow> (\<forall>l. b = Some l \<longrightarrow> (\<exists>k q. l = Some (k, q, False) \<and> (a = Some None \<or> (\<exists>cut. a = Some (Some (k, q, cut))))))"

lemma prunes_case:
  "prunes a b \<Longrightarrow> f Aborts = Some Aborts \<Longrightarrow> (\<And>r k. prunes (f (Ends r k)) (g (Ends r False))) \<Longrightarrow>
   prunes (case a of None \<Rightarrow> None | Some v \<Rightarrow> f v) (case b of None \<Rightarrow> None | Some v \<Rightarrow> g v)"
  by (cases b) (fastforce simp: prunes_def)+

lemma prunes_after_skip:
  "prunes_skip a b \<Longrightarrow> (\<And>p. prunes (f p) (g p)) \<Longrightarrow>
   prunes (case a of None \<Rightarrow> None | Some None \<Rightarrow> Some Aborts | Some (Some p) \<Rightarrow> f p)
     (case b of None \<Rightarrow> None | Some None \<Rightarrow> Some Aborts | Some (Some p) \<Rightarrow> g p)"
  by (cases b) (fastforce simp: prunes_def prunes_skip_def)+

lemma prunes_loop_case:
  "prunes a b \<Longrightarrow> f Aborts = Some None \<Longrightarrow> (\<And>r k. prunes_loop (f (Ends r k)) (g (Ends r False))) \<Longrightarrow>
   prunes_loop (case a of None \<Rightarrow> None | Some v \<Rightarrow> f v) (case b of None \<Rightarrow> None | Some v \<Rightarrow> g v)"
  by (cases b) (fastforce simp: prunes_def prunes_loop_def)+

lemma prunes_loop_after_skip:
  "prunes_skip a b \<Longrightarrow> (\<And>p. prunes_loop (f p) (g p)) \<Longrightarrow>
   prunes_loop (case a of None \<Rightarrow> None | Some None \<Rightarrow> Some None | Some (Some p) \<Rightarrow> f p)
     (case b of None \<Rightarrow> None | Some None \<Rightarrow> Some None | Some (Some p) \<Rightarrow> g p)"
  by (cases b) (fastforce simp: prunes_loop_def prunes_skip_def)+

lemma prunes_or_cut: "prunes a b \<Longrightarrow> prunes (map_option (or_cut k) a) (map_option (or_cut False) b)"
  by (cases b) (auto simp: prunes_def)

lemma prunes_commit: "prunes a b \<Longrightarrow> prunes (Some Aborts) b"
  by (auto simp: prunes_def)

lemma prunes_first_skip: "prunes_skip (K p) (K' p) \<Longrightarrow> prunes_skip (if b then K p else Some (Some p)) (if b then K' p else Some (Some p))"
  by (simp add: prunes_skip_def)

lemma full_seq_prunes:
  assumes "\<And>p. prunes_skip (K p) (K' p)"
  shows "(\<And>e p. e \<in> set es \<Longrightarrow> prunes (E e p) (E' (uncut e) p)) \<Longrightarrow>
    prunes (full_seq K E later es p) (full_seq K' E' later (map uncut es) p)"
proof (induction es arbitrary: later p)
  case Nil
  then show ?case by simp
next
  case (Cons e es)
  have "prunes (full_seq K E True es q) (full_seq K' E' True (map uncut es) q)" for q
    by (rule Cons.IH) (simp add: Cons.prems)
  note rest = prunes_or_cut [OF this]
  show ?case
    unfolding full_seq.simps list.map
    by (rule prunes_after_skip [OF prunes_first_skip [OF assms]], rule prunes_case [OF Cons.prems])
       (auto intro: rest split: option.split)
qed

lemma full_alt_prunes:
  "(\<And>e. e \<in> set es \<Longrightarrow> prunes (E e p) (E' (uncut e) p)) \<Longrightarrow> prunes (full_alt E es p) (full_alt E' (map uncut es) p)"
proof (induction es)
  case Nil
  then show ?case by simp
next
  case (Cons e es)
  have "prunes (full_alt E es p) (full_alt E' (map uncut es) p)"
    by (rule Cons.IH) (simp add: Cons.prems)
  note rest = this prunes_commit [OF this]
  show ?case
    unfolding full_alt.simps list.map
    by (rule prunes_case [OF Cons.prems]) (auto intro: rest split: option.split)
qed

lemma full_loop_prunes:
  assumes "\<And>p. prunes_skip (K p) (K' p)" and "\<And>p. prunes (E p) (E' p)"
  shows "prunes_loop (full_loop n K E max_rep k p) (full_loop n K' E' max_rep k p)"
proof (induction n arbitrary: k p)
  case 0
  then show ?case by (simp add: prunes_loop_def)
next
  case (Suc n)
  have stop: "prunes_loop (Some (Some (i, q, cut))) (Some (Some (i, q, False)))" for i q cut
    by (simp add: prunes_loop_def)
  show ?case
    unfolding full_loop.simps
    by (rule prunes_loop_after_skip [OF prunes_first_skip [OF assms(1)]], rule prunes_loop_case [OF assms(2)])
       (auto intro: stop Suc.IH split: option.split)
qed

lemma full_rep_prunes:
  assumes "\<And>p. prunes_skip (K p) (K' p)" and "\<And>p. prunes (E p) (E' p)"
  shows "prunes (full_rep n K E min_rep max_rep p) (full_rep n K' E' min_rep max_rep p)"
  using full_loop_prunes [of K K' E E' n max_rep 0 p] assms
  by (auto simp: full_rep_def prunes_def prunes_loop_def split: option.splits)

lemma full_skip_prunes:
  assumes "\<And>s p. prunes (R s p) (R' s p)"
  shows "prunes_skip (full_skip sk R b p) (full_skip sk R' b p)"
proof (cases "b \<and> sk \<noteq> None")
  case True
  then obtain s where "sk = Some s" by blast
  then show ?thesis
    using True assms [of s p] by (cases "R' s p") (auto simp: full_skip_def prunes_def prunes_skip_def)
next
  case False
  then show ?thesis
    by (cases b; cases sk) (simp_all add: full_skip_def prunes_skip_def)
qed

lemma full_step_prunes:
  assumes "\<And>b e p. prunes (E b e p) (E' b (uncut e) p)" and "\<And>b p. prunes_skip (K b p) (K' b p)"
    and "\<forall>r. e \<noteq> RuleExpr r"
  shows "prunes (full_step n G input K E b e p) (full_step n (uncut_grammar G) input K' E' b (uncut e) p)"
proof -
  have pred: "prunes (map_option (full_pred neg p) (E b a p)) (map_option (full_pred neg p) (E' b (uncut a) p))" for neg a
    using assms(1) [of b a p] by (cases "E' b (uncut a) p") (auto simp: prunes_def)
  show ?thesis
    using assms(3)
    by (cases e) (simp_all add: full_step_def full_seq_prunes full_alt_prunes full_rep_prunes pred assms(1,2))
qed

lemma evf_prunes:
  assumes "closed_cuts G"
  shows "prunes (evf n G sk input b e p) (evf n (uncut_grammar G) sk input b (uncut e) p)"
proof (induction n arbitrary: b e p)
  case 0
  then show ?case by (simp add: prunes_def)
next
  case (Suc n)
  show ?case
  proof (cases "\<exists>r. e = RuleExpr r")
    case False
    then have "\<forall>r. uncut e \<noteq> RuleExpr r" by (cases e) simp_all
    then show ?thesis
      unfolding evf_other [OF False [simplified]] evf_other [OF \<open>\<forall>r. uncut e \<noteq> RuleExpr r\<close>]
      using False Suc.IH [of _ "RuleExpr _"] by (intro full_step_prunes full_skip_prunes Suc.IH) auto
  next
    case True
    then obtain r where e: "e = RuleExpr r" by blast
    show ?thesis
    proof (cases "lookup_rule G r")
      case None
      then show ?thesis by (simp add: e prunes_def)
    next
      case nt: (Some nt)
      show ?thesis
      proof (cases "m_rule nt")
        case None
        then show ?thesis using nt by (simp add: e prunes_def uncut_rule_def)
      next
        case body: (Some body)
        have closed: "evf n G sk input b body p = Some (Ends res k) \<Longrightarrow> \<not> k" for res k
          using evf_closed [OF assms] closed_cuts_body [OF assms nt body] by blast
        have "ev_recover (uncut_rule nt) = ev_recover nt"
          by (intro ext) (simp add: ev_recover_def uncut_rule_def)
        then show ?thesis
          using Suc.IH [of b body p] nt body closed
          by (cases "evf n (uncut_grammar G) sk input b (uncut body) p") (auto simp: e prunes_def uncut_rule_def)
      qed
    qed
  qed
qed

text \<open>Without cuts and without a skipper this is the recogniser.\<close>

lemma ev_evf: "le_opt (map_option (\<lambda>r. Ends r False) (ev n G input e p)) (evf n G None input b e p)"
proof (induction n arbitrary: b e p)
  case 0
  then show ?case by simp
next
  case (Suc n)
  show ?case
  proof (cases "\<exists>r. e = RuleExpr r")
    case True
    then obtain r where e: "e = RuleExpr r" by blast
    have "le_opt (map_option (\<lambda>r. Ends r False) (map_option (ev_recover nt input p) (ev n G input body p)))
        (map_option (full_recover nt input p) (evf n G None input b body p))" for nt body
      using Suc.IH [of body p b]
      by (cases "ev n G input body p"; cases "evf n G None input b body p") (auto simp: le_opt_def)
    then show ?thesis by (auto simp: e split: option.split)
  next
    case False
    have "le_opt (full_step n G input no_skip (plainly (ev n G input)) b e p)
        (full_step n G input (full_skip None (\<lambda>s. evf n G None input False (RuleExpr s))) (evf n G None input) b e p)"
      by (rule full_step_le) (simp_all add: Suc.IH plainly_def no_skip_def full_skip_def split: bool.split)
    then show ?thesis
      using plainly_step [of n G input "ev n G input" e p] unfolding evf_other [OF False [simplified]] ev_other [OF False [simplified]]
      by (cases "ev_step n G input (ev n G input) e p") (auto simp: le_opt_def)
  qed
qed

text \<open>A cut never changes a result.\<close>

lemma ev_prunes:
  assumes "closed_cuts G" and "ev n (uncut_grammar G) input (uncut e) p = Some r"
  shows "evf n G None input b e p = Some Aborts \<or> (\<exists>k. evf n G None input b e p = Some (Ends r k))"
proof -
  have "evf n (uncut_grammar G) None input b (uncut e) p = Some (Ends r False)"
    using ev_evf [of n "uncut_grammar G" input "uncut e" p b] assms(2) by (simp add: le_opt_def)
  then show ?thesis
    using evf_prunes [OF assms(1), of n None input b e p] by (simp add: prunes_def)
qed

subsection \<open>Rules with one skipping mode\<close>

text \<open>
  The memo does not distinguish whether skipping is on. \<open>md r\<close> says how rule \<open>r\<close> is used, the
  same way everywhere; the skipper runs with skipping off.
\<close>

fun moded :: "(rule_ref \<Rightarrow> bool) \<Rightarrow> bool \<Rightarrow> 'c expr \<Rightarrow> bool" where
  "moded md b (RuleExpr r) = (md r = b)"
| "moded md b (LexemeExpr e) = moded md False e"
| "moded md b (SequenceExpr es) = list_all (moded md b) es"
| "moded md b (AlternationExpr es) = list_all (moded md b) es"
| "moded md b (ZeroOrMoreExpr e) = moded md b e"
| "moded md b (OneOrMoreExpr e) = moded md b e"
| "moded md b (NTimesExpr e n) = moded md b e"
| "moded md b (OptionalExpr e) = moded md b e"
| "moded md b (NotExpr e) = moded md b e"
| "moded md b (AndExpr e) = moded md b e"
| "moded md b e = True"

definition moded_grammar :: "(rule_ref \<Rightarrow> bool) \<Rightarrow> rule_ref option \<Rightarrow> ('c, 'v) grammar \<Rightarrow> bool" where
  "moded_grammar md sk G \<longleftrightarrow> (\<forall>s. sk = Some s \<longrightarrow> \<not> md s) \<and>
     list_all (\<lambda>(r, nt). case m_rule nt of None \<Rightarrow> True | Some e \<Rightarrow> moded md (md r) e) (m_rules G)"

lemma moded_grammar_body:
  "moded_grammar md sk G \<Longrightarrow> lookup_rule G r = Some nt \<Longrightarrow> m_rule nt = Some e \<Longrightarrow> moded md (md r) e"
  by (force simp: moded_grammar_def lookup_rule_def list_all_iff dest: map_of_SomeD)

lemma moded_off: "moded (\<lambda>_. False) False e"
  by (induction e) (auto simp: list_all_iff)

lemma moded_grammar_off: "moded_grammar (\<lambda>_. False) sk G"
  by (auto simp: moded_grammar_def moded_off list_all_iff split: option.split)

definition recovery_free :: "('c, 'v) grammar \<Rightarrow> bool" where
  "recovery_free G = list_all (\<lambda>(r, nt). is_sync_token (m_recover nt) = None) (m_rules G)"

lemma recovery_free_rule: "recovery_free G \<Longrightarrow> lookup_rule G r = Some nt \<Longrightarrow> is_sync_token (m_recover nt) = None"
  by (force simp: recovery_free_def lookup_rule_def list_all_iff dest: map_of_SomeD)

end
