(* ===== verification/Committed_Parse.thy ===== *)
theory Committed_Parse
  imports Commitment Agreement Decided Grammar_Parse
begin

text \<open>
  The engine computes the full reference semantics: cuts, the skipper and \<open>lexeme\<close> included,
  it returns and it throws when the semantics says so, and within the fuel the semantics
  takes. A committed scope drops memo entries, those of running rules included, so the
  states here are those of \<open>Packrat\<close> without the presence of these entries. The memo
  remembers neither cuts nor the skipping mode: the theorem is for grammars whose rules
  keep their cuts inside and are used in one mode each. What happens otherwise is at the end.
\<close>

subsection \<open>States\<close>

text \<open>\<open>u\<close>: there are no cuts; then, and only then, rules may recover.\<close>

definition tame :: "bool \<Rightarrow> (rule_ref \<Rightarrow> bool) \<Rightarrow> rule_ref option \<Rightarrow> ('c, 'v) grammar \<Rightarrow> bool" where
  "tame u md sk G \<longleftrightarrow> closed_cuts G \<and> moded_grammar md sk G \<and> (if u then cut_free_grammar G else recovery_free G)"

definition fits :: "bool \<Rightarrow> (rule_ref \<Rightarrow> bool) \<Rightarrow> ('c, 'v) grammar \<Rightarrow> bool \<Rightarrow> 'c expr \<Rightarrow> bool" where
  "fits u md G b e \<longleftrightarrow> wf_expr G e \<and> moded md b e \<and> (u \<longrightarrow> cut_free e)"

abbreviation evf_says :: "(rule_ref \<Rightarrow> bool) \<Rightarrow> rule_ref option \<Rightarrow> ('c, 'v) grammar \<Rightarrow> 'c verdict" where
  "evf_says md sk G \<equiv> (\<lambda>input r p res. evfs G sk input (md r) (RuleExpr r) p (Ends res False))"

definition true_memo :: "bool \<Rightarrow> (rule_ref \<Rightarrow> bool) \<Rightarrow> rule_ref option \<Rightarrow> ('c, 'v) grammar \<Rightarrow> 'c ctx \<Rightarrow> bool" where
  "true_memo u md sk G c \<longleftrightarrow> tame u md sk G \<and> memo_sound u sk (evf_says md sk G) G c"

definition unresolved :: "nat \<Rightarrow> (rule_ref \<Rightarrow> bool) \<Rightarrow> rule_ref option \<Rightarrow> ('c, 'v) grammar \<Rightarrow> 'c ctx \<Rightarrow> bool" where
  "unresolved h md sk G c = (\<forall>(r, p) \<in> set (frame_ids c). evf h G sk (m_input c) (md r) (RuleExpr r) p = None)"

lemma unresolved_less: "unresolved m md sk G c \<Longrightarrow> n \<le> m \<Longrightarrow> unresolved n md sk G c"
  unfolding unresolved_def using evf_le [of n m] by (fastforce simp: le_opt_def)

lemma unresolved_same:
  "unresolved h md sk G c \<Longrightarrow> frame_ids c' = frame_ids c \<Longrightarrow> m_input c' = m_input c \<Longrightarrow> unresolved h md sk G c'"
  by (simp add: unresolved_def)

lemma true_memo_tame: "true_memo u md sk G c \<Longrightarrow> tame u md sk G"
  by (simp add: true_memo_def)

lemma true_memo_sound: "true_memo u md sk G c \<Longrightarrow> memo_sound u sk (evf_says md sk G) G c"
  by (simp add: true_memo_def)

lemma true_memo_wf: "true_memo u md sk G c \<Longrightarrow> wf_state G c"
  by (rule memo_sound_wf [OF true_memo_sound])

lemma true_memo_skipper: "true_memo u md sk G c \<Longrightarrow> m_skipper c = sk"
  by (rule memo_sound_skipper [OF true_memo_sound])

lemma true_memo_no_cuts: "true_memo u md sk G c \<Longrightarrow> u \<Longrightarrow> no_cuts c"
  by (rule memo_sound_no_cuts [OF true_memo_sound])

lemma true_memo_entry:
  "true_memo u md sk G c \<Longrightarrow> memo_lookup r p c = Some st \<Longrightarrow> (r, p) \<notin> set (frame_ids c) \<Longrightarrow>
   evfs G sk (m_input c) (md r) (RuleExpr r) p (Ends (entry_res st) False)"
  using memo_sound_entry [OF true_memo_sound] by blast

lemma true_memo_same:
  "true_memo u md sk G c \<Longrightarrow> m_position c' \<le> input_size c' \<Longrightarrow> m_input c' = m_input c \<Longrightarrow>
   m_skipper c' = m_skipper c \<Longrightarrow> length (m_node_arena c) \<le> length (m_node_arena c') \<Longrightarrow>
   (no_cuts c \<Longrightarrow> no_cuts c') \<Longrightarrow> m_mem c' = m_mem c \<Longrightarrow> frame_ids c' = frame_ids c \<Longrightarrow> true_memo u md sk G c'"
  unfolding true_memo_def using memo_sound_same [of u sk _ G c c'] by simp

interpretation committed_inv: quiet_invariant "\<lambda>c. true_memo u md sk G c \<and> unresolved h md sk G c"
  for u md sk h and G :: "('c, 'v) grammar"
proof
  fix c c' :: "'c ctx"
  show "true_memo u md sk G c \<and> unresolved h md sk G c \<Longrightarrow> m_position c \<le> input_size c"
    using true_memo_wf wf_state_pos by blast
  assume "true_memo u md sk G c \<and> unresolved h md sk G c" "m_position c' \<le> input_size c'" "m_input c' = m_input c"
    "m_skipper c' = m_skipper c" "length (m_node_arena c) \<le> length (m_node_arena c')" "no_cuts c \<Longrightarrow> no_cuts c'"
    "m_lr_stack c' = m_lr_stack c" "m_mem c' = m_mem c"
  then show "true_memo u md sk G c' \<and> unresolved h md sk G c'"
    using true_memo_same [of u md sk G c c'] unresolved_same [of h md sk G c c'] by (simp add: frame_ids_def)
qed

lemma true_memo_set_cut:
  assumes "true_memo False md sk G c" and "unresolved h md sk G c"
  shows "true_memo False md sk G (set_cut b c) \<and> unresolved h md sk G (set_cut b c)"
proof -
  have "wf_state G (set_cut b c)"
    by (rule step_rel_wf [OF step_set_cut [OF true_memo_wf [OF assms(1)]]])
  moreover have "m_input (set_cut b c) = m_input c" "m_mem (set_cut b c) = m_mem c" "m_skipper (set_cut b c) = m_skipper c"
    "frame_ids (set_cut b c) = frame_ids c"
    by (simp_all add: set_cut_def frame_ids_def split: list.split)
  ultimately show ?thesis
    using assms by (simp add: true_memo_def memo_sound_def memo_sound_but_def memo_lookup_def unresolved_def)
qed

text \<open>Leaving a scope that was committed drops entries.\<close>

lemma true_memo_commit:
  assumes "true_memo u md sk G c" and "get_cut c"
  shows "rets (remove_cut c) (\<lambda>_ c'. true_memo u md sk G c' \<and> frame_ids c' = frame_ids c \<and> m_input c' = m_input c)"
proof -
  obtain r rest where cut: "m_cut c = r # rest" using assms(2) by (cases "m_cut c") (auto simp: get_cut_def)
  have u: "\<not> u"
    using assms no_cuts_get_cut true_memo_no_cuts by blast
  have "same_env (init_cut (c\<lparr>m_cut := rest\<rparr>)) c"
    by (simp add: same_env_def init_cut_def cut)
  from remove_cut_scope [OF this true_memo_wf [OF assms(1)]]
  obtain c' where c': "remove_cut c = Ret () c'" "wf_state G c'" by blast
  have eq: "c' = c\<lparr>m_last_cut := cr_pos r, m_mem := (\<lambda>pos. if pos < cr_pos r then None else m_mem c pos), m_cut := rest\<rparr>"
    using c'(1) assms(2) by (simp add: remove_cut_def cut Let_def)
  have "memo_lookup q p c = Some st" if "memo_lookup q p c' = Some st" for q p st
    using that by (auto simp: eq memo_lookup_def split: option.splits if_splits)
  then have "true_memo u md sk G c'"
    using assms(1) c'(2) u eq by (auto simp: true_memo_def memo_sound_def memo_sound_but_def frame_ids_def)
  then show ?thesis using c'(1) eq by (simp add: frame_ids_def)
qed

subsection \<open>Children that agree\<close>

locale committed_parsers = child_parsers G run "run_skipper (\<lambda>r. run (RuleExpr r))"
  for G :: "('c, 'v) grammar"
    and run :: "'c expr \<Rightarrow> 'c parser" +
  fixes u :: bool
    and md :: "rule_ref \<Rightarrow> bool"
    and sk :: "rule_ref option"
    and h :: nat
    and t :: bool
  assumes run_true: "fits u md G (skips c) e \<Longrightarrow> true_memo u md sk G c \<Longrightarrow> unresolved h md sk G c \<Longrightarrow>
      evf h G sk (m_input c) (skips c) e (m_position c) = Some v \<Longrightarrow> meets t agrees (true_memo u md sk G) c v (run e c)"
begin

abbreviation "I c \<equiv> true_memo u md sk G c \<and> unresolved h md sk G c"
abbreviation "E input \<equiv> evf h G sk input"
abbreviation "K input \<equiv> full_skip sk (\<lambda>s. evf h G sk input False (RuleExpr s))"

lemma run_meets:
  assumes "fits u md G (skips c) e" "I c" "E (m_input c) (skips c) e (m_position c) = Some v"
  shows "meets t agrees I c v (run e c)"
proof (cases v)
  case Aborts
  then show ?thesis using run_true assms by fastforce
next
  case (Ends res k)
  have "yields t (run e c) (\<lambda>r c'. agrees res r c' \<and> true_memo u md sk G c' \<and> get_cut c' = cut_after c k)"
    using run_true [of c e v] assms Ends by simp
  moreover have "post (run e c) (ret_rel G c) (throw_rel G c)"
    using assms(1,2) by (intro run_contract) (auto simp: fits_def true_memo_wf)
  ultimately have "yields t (run e c) (\<lambda>r c'. (agrees res r c' \<and> true_memo u md sk G c' \<and> get_cut c' = cut_after c k) \<and> ret_rel G c r c')"
    by (rule yields_post)
  then show ?thesis
    using assms(2) Ends
    by (auto simp: ret_rel_def elim!: yields_mono intro: unresolved_same [OF _ step_frame_ids step_input])
qed

lemma skip_meets:
  assumes c: "I c" and v: "K (m_input c) (skips c) (m_position c) = Some s"
  shows "case s of None \<Rightarrow> throws t (run_skipper (\<lambda>r. run (RuleExpr r)) c)
    | Some q \<Rightarrow> yields t (run_skipper (\<lambda>r. run (RuleExpr r)) c) (\<lambda>_ c'. I c' \<and> m_position c' = q \<and> get_cut c' = get_cut c)"
proof (cases "skips c")
  case False
  then have "run_skipper (\<lambda>r. run (RuleExpr r)) c = Ret () c" "s = Some (m_position c)"
    using v by (auto simp: skips_def run_skipper_def full_skip_def split: option.split)
  then show ?thesis using c by simp
next
  case True
  then obtain r where r: "m_skipper c = Some r" "m_skip_enabled c" by (auto simp: skips_def)
  have sk: "sk = Some r" using r true_memo_skipper [OF conjunct1 [OF c]] by simp
  let ?c = "c\<lparr>m_skip_enabled := False\<rparr>"
  have off: "I ?c" "skips ?c = False" "m_input ?c = m_input c" "m_position ?c = m_position c" "m_cut ?c = m_cut c"
    using committed_inv.keeps_skip_flag [OF c] by (simp_all add: skips_def)
  obtain v' where v': "E (m_input c) False (RuleExpr r) (m_position c) = Some v'"
    using v True sk by (auto simp: full_skip_def split: option.splits)
  have fits: "fits u md G (skips ?c) (RuleExpr r)"
    using true_memo_tame [OF conjunct1 [OF c]] sk r true_memo_wf [OF conjunct1 [OF c]] off(2)
    by (auto simp: fits_def tame_def moded_grammar_def wf_state_def)
  have run: "meets t agrees I ?c v' (run (RuleExpr r) ?c)"
    using off v' by (intro run_meets fits) simp_all
  have post: "post (run (RuleExpr r) ?c) (ret_rel G ?c) (throw_rel G ?c)"
    using fits off(1) by (intro run_contract) (auto simp: fits_def true_memo_wf)
  have closed: "v' = Ends res k \<Longrightarrow> \<not> k" for res k
    using evf_closed [of G h sk "m_input c" False "RuleExpr r" "m_position c" res k] v' true_memo_tame [OF conjunct1 [OF c]] by (auto simp: tame_def)
  show ?thesis
  proof (cases v')
    case Aborts
    then show ?thesis using run v v' True sk r by (auto simp: full_skip_def run_skipper_def throws_bindI)
  next
    case (Ends res k)
    then have s: "s = Some (case res of None \<Rightarrow> m_position c | Some q \<Rightarrow> q)"
      using v v' True sk by (simp add: full_skip_def)
    have "yields t (run (RuleExpr r) ?c)
        (\<lambda>r c'. (agrees res r c' \<and> I c' \<and> get_cut c' = get_cut c) \<and> ret_rel G ?c r c')"
      using run Ends closed [OF Ends] get_cut_cong [OF off(5)] by (intro yields_post [OF _ post]) simp
    then have "yields t (bind_o (run (RuleExpr r) ?c) (\<lambda>_ c'. Ret () (c'\<lparr>m_skip_enabled := True\<rparr>)))
        (\<lambda>_ c'. I c' \<and> m_position c' = (case res of None \<Rightarrow> m_position c | Some q \<Rightarrow> q) \<and> get_cut c' = get_cut c)"
    proof (rule yields_bindI)
      fix x c' assume g: "(agrees res x c' \<and> I c' \<and> get_cut c' = get_cut c) \<and> ret_rel G ?c x c'"
      then show "yields t (Ret () (c'\<lparr>m_skip_enabled := True\<rparr>))
        (\<lambda>_ c'. I c' \<and> m_position c' = (case res of None \<Rightarrow> m_position c | Some q \<Rightarrow> q) \<and> get_cut c' = get_cut c)"
        using committed_inv.keeps_skip_flag [of u md sk G c' h True] get_cut_cong [of "c'\<lparr>m_skip_enabled := True\<rparr>" c']
        by (auto simp: agrees_def ret_rel_def split: option.splits)
    qed
    then show ?thesis using r by (simp add: s run_skipper_def)
  qed
qed

end

sublocale committed_parsers < meet: meeting_parsers G run "run_skipper (\<lambda>r. run (RuleExpr r))" I t "fits u md G" E K
proof
  show "fits u md G b e \<Longrightarrow> wf_expr G e" for b e by (simp add: fits_def)
  show "fits u md G b e \<Longrightarrow> list_all (fits u md G (inner_mode b e)) (subs e)" for b e
    by (cases e) (auto simp: fits_def list_all_iff)
  show "I c \<Longrightarrow> wf_state G c" for c using true_memo_wf by blast
  show "I c \<Longrightarrow> get_cut c \<Longrightarrow> rets (remove_cut c) (\<lambda>_. I)" for c
    using true_memo_commit [of u md sk G c] by (auto simp: rets_iff intro: unresolved_same)
qed (rule run_meets skip_meets; assumption)+

subsection \<open>Rules\<close>

lemma rule_left_cut:
  "post (if \<not> success inner then rule_failed nt rule p st c4 else rule_matched nt rule p st inner c4)
     (\<lambda>_ c'. m_cut c' = m_cut c4) (\<lambda>_ _. True)"
proof (cases "success inner")
  case True
  obtain node c5 where b: "build_rule_node nt rule p (tree inner) c4 = (node, c5)"
    by (cases "build_rule_node nt rule p (tree inner) c4")
  have "m_cut c5 = m_cut c4"
    using b by (auto simp: build_rule_node_def Let_def make_node_def push_child_def upd_node_def split: if_splits option.splits)
  then show ?thesis
    using True by (simp add: rule_matched_def b Let_def)
next
  case False
  then show ?thesis
    by (auto simp: rule_failed_def Let_def reset_def record_diagnostic_def record_rule_failure_def split: option.split)
qed

context committed_parsers
begin

text \<open>What the runs of the body of a rule keep.\<close>

definition in_body :: "'c ctx \<Rightarrow> rule_ref \<Rightarrow> 'c ctx \<Rightarrow> bool" where
  "in_body c rule s \<longleftrightarrow> I s \<and> m_input s = m_input c \<and> skips s = skips c \<and> get_cut s = get_cut c \<and>
     (rule, m_position c) \<in> set (frame_ids s)"

lemma in_body_step:
  assumes "in_body c rule s" "wf_state G s'" "frame_step (rule, m_position c) s s'"
  shows "in_body c rule s'"
proof -
  have "true_memo u md sk G s'"
    using assms memo_sound_frame_step [OF _ assms(2,3)] by (simp add: in_body_def true_memo_def)
  then show ?thesis
    using assms(1,3) unresolved_same [of h md sk G s s'] get_cut_cong [of s' s]
    by (simp add: in_body_def frame_step_def skips_def)
qed

lemma in_body_entered:
  assumes "I c" "evf h G sk (m_input c) (md rule) (RuleExpr rule) (m_position c) = None"
  shows "in_body c rule (entered rule c)"
  using assms memo_sound_entered [of u sk "evf_says md sk G" G c rule]
  by (simp add: in_body_def true_memo_def unresolved_def skips_def get_cut_def)

lemma body_runs:
  assumes "fits u md G (skips c) e" and "evf h G sk (m_input c) (skips c) e (m_position c) = Some (Ends bres False)"
    and "in_body c rule s" and "m_position s = m_position c"
  shows "yields t (run e s) (\<lambda>r s'. agrees bres r s' \<and> in_body c rule s')"
proof -
  have "yields t (run e s) (\<lambda>r s'. (agrees bres r s' \<and> I s' \<and> get_cut s' = cut_after s False) \<and> ret_rel G s r s')"
    using assms by (intro meet.run_yields) (simp_all add: in_body_def)
  then show ?thesis
    using assms(3)
    by (auto simp: in_body_def ret_rel_def elim!: yields_mono dest: step_skips step_input step_frame_ids)
qed

lemma rule_fresh:
  assumes c: "I c" and nt: "lookup_rule G rule = Some nt" "m_rule nt = Some e"
    and md: "md rule = skips c" and e: "fits u md G (skips c) e" and n: "t \<longrightarrow> 2 \<le> n"
    and new: "evf h G sk (m_input c) (skips c) (RuleExpr rule) (m_position c) = None"
    and ev: "evf h G sk (m_input c) (skips c) e (m_position c) = Some v"
  shows "meets t agrees (true_memo u md sk G) c (full_recover nt (m_input c) (m_position c) v)
    (parse_fresh n run nt rule (m_position c) (snd (rule_state rule (m_position c) c)))"
proof -
  let ?p = "m_position c"
  have wf: "wf_state G c" and tame: "tame u md sk G" using c true_memo_wf true_memo_tame by blast+
  have enter: "in_body c rule (entered rule c)" using in_body_entered [OF c] new md by simp
  show ?thesis
  proof (cases v)
    case Aborts
    have "throws t (run e (entered rule c))"
      using enter e ev Aborts by (intro meet.run_aborts) (simp_all add: in_body_def)
    then show ?thesis
      using n Aborts parse_fresh_throws [OF nt(2) wf, of t n rule] by auto
  next
    case (Ends bres k)
    then have k: "v = Ends bres False"
      using evf_closed [of G h sk "m_input c" "skips c" e ?p bres k] ev tame closed_cuts_body [OF _ nt] by (auto simp: tame_def)
    let ?res = "ev_recover nt (m_input c) ?p bres"
    have "evf (Suc h) G sk (m_input c) (md rule) (RuleExpr rule) ?p = Some (Ends ?res False)"
      using evf_rule [OF nt, of h sk "m_input c" "md rule" ?p] ev k md by simp
    then have V: "evf_says md sk G (m_input c) rule ?p ?res" unfolding evfs_def by blast
    have "yields t (parse_fresh n run nt rule ?p (snd (rule_state rule ?p c)))
        (\<lambda>r c'. agrees ?res r c' \<and> true_memo u md sk G c' \<and> get_cut c' = get_cut c)"
    proof (rule parse_fresh_keeps [where J = "\<lambda>_. in_body c rule" and B = "\<lambda>_. Some bres", OF nt wf _ _ _ enter grow_const])
      fix inner st s c4
      assume s: "in_body c rule s" and same: "same_but_stack (rule, ?p) s c4" and left: "rule_left G c bres inner st c4"
      have u: "u \<or> is_sync_token (m_recover nt) = None"
        using tame recovery_free_rule [OF _ nt(1)] by (auto simp: tame_def split: if_splits)
      have left_ok: "rets (if \<not> success inner then rule_failed nt rule ?p st c4 else rule_matched nt rule ?p st inner c4)
          (\<lambda>r c'. agrees ?res r c' \<and> true_memo u md sk G c')"
        using rule_left_agrees [where V = "evf_says md sk G" and u = u and sk = sk, OF _ _ same left V u] c s
        by (simp add: true_memo_def in_body_def)
      have cut: "get_cut c' = get_cut c" if "m_cut c' = m_cut c4" for c'
        using that s same get_cut_cong [of c' s] by (simp add: in_body_def same_but_stack_def)
      show "yields t (if \<not> success inner then rule_failed nt rule ?p st c4 else rule_matched nt rule ?p st inner c4)
          (\<lambda>r c'. agrees ?res r c' \<and> true_memo u md sk G c' \<and> get_cut c' = get_cut c)"
        by (rule yields_mono [OF yields_post [OF rets_yields [OF left_ok] rule_left_cut]]) (simp add: cut)
    next
      fix s re assume "in_body c rule s" "m_position s = ?p" "Some bres = Some re"
      then show "yields t (run e s) (\<lambda>r s'. agrees re r s' \<and> in_body c rule s')"
        using body_runs [OF e ev [unfolded k]] by simp
    qed (use n in \<open>auto intro: in_body_step\<close>)
    then show ?thesis using k by simp
  qed
qed

lemma nonterminal_true:
  assumes c: "true_memo u md sk G c" "unresolved (Suc h) md sk G c" and e: "fits u md G (skips c) (RuleExpr rule)"
    and ev: "evf (Suc h) G sk (m_input c) (skips c) (RuleExpr rule) (m_position c) = Some v"
    and new: "evf h G sk (m_input c) (skips c) (RuleExpr rule) (m_position c) = None" and n: "t \<longrightarrow> 2 \<le> n"
  shows "meets t agrees (true_memo u md sk G) c v (nonterminal_parse n run G rule c)"
proof -
  let ?p = "m_position c"
  have md: "md rule = skips c" and "defined_rule G rule" using e by (simp_all add: fits_def)
  then obtain nt body where nt: "lookup_rule G rule = Some nt" "m_rule nt = Some body"
    by (auto simp: defined_rule_def is_defined_def split: option.splits)
  obtain w where w: "evf h G sk (m_input c) (skips c) body ?p = Some w" and v: "v = full_recover nt (m_input c) ?p w"
    using ev nt by auto
  have wf: "wf_state G c" and tame: "tame u md sk G" using c(1) true_memo_wf true_memo_tame by blast+
  have body: "fits u md G (skips c) body"
    using wf wf_grammar_body [OF _ nt] tame moded_grammar_body [OF _ nt, of md sk] cut_free_body [OF _ nt] md
    by (auto simp: fits_def tame_def wf_state_def)
  have idle: "(rule, ?p) \<notin> set (frame_ids c)"
    using c(2) ev md by (auto simp: unresolved_def simp del: evf.simps)
  show ?thesis
  proof (cases "memo_lookup rule ?p c")
    case None
    then show ?thesis
      using rule_fresh [OF conjI [OF c(1) unresolved_less [OF c(2)]] nt md body n new w] v by (simp add: nonterminal_branch [OF nt(1)])
  next
    case (Some st)
    have "evfs G sk (m_input c) (md rule) (RuleExpr rule) ?p v"
      unfolding md evfs_def using ev by blast
    then have v: "v = Ends (entry_res st) False"
      using true_memo_entry [OF c(1) Some idle] by (rule evfs_unique)
    have "rets (reenter rule ?p st c) (\<lambda>r c'. agrees (entry_res st) r c' \<and> true_memo u md sk G c' \<and> get_cut c' = get_cut c)"
      using reenter_entry [OF wf Some] c(1) memo_sound_only_position [of u sk "evf_says md sk G" G c]
      by (auto simp: true_memo_def only_position_def get_cut_def elim!: rets_mono)
    then show ?thesis
      using Some v by (simp add: nonterminal_branch [OF nt(1)] rets_yields)
  qed
qed

lemma step_true:
  assumes run: "run = parse n G" and e: "fits u md G (skips c) e" and c: "true_memo u md sk G c" "unresolved h md sk G c"
    and no_rule: "\<forall>r. e \<noteq> RuleExpr r" and ev: "evf (Suc h) G sk (m_input c) (skips c) e (m_position c) = Some v"
    and n: "t \<longrightarrow> h \<le> n"
  shows "meets t agrees (true_memo u md sk G) c v (parse (Suc n) G e c)"
proof -
  have "meets t agrees I c v (parse (Suc n) G e c)"
  proof (rule meet.step_meets [where m = h])
    show "full_step h G (m_input c) (K (m_input c)) (E (m_input c)) (skips c) e (m_position c) = Some v"
      using ev evf_other [OF no_rule] by metis
    show "I (set_cut True c)" if "e = CutExpr"
      using that e c by (auto simp: fits_def true_memo_set_cut)
  qed (use run e c n in simp_all)
  then show ?thesis by (rule meets_mono) simp
qed

end

subsection \<open>The engine\<close>

lemma committed_parsersI:
  assumes "\<And>e c v. fits u md G (skips c) e \<Longrightarrow> true_memo u md sk G c \<Longrightarrow> unresolved h md sk G c \<Longrightarrow>
      evf h G sk (m_input c) (skips c) e (m_position c) = Some v \<Longrightarrow> meets t agrees (true_memo u md sk G) c v (parse n G e c)"
  shows "committed_parsers G (parse n G) u md sk h t"
  using assms engine_child_parsers [of G n]
  by (intro committed_parsers.intro committed_parsers_axioms.intro)

lemma engine_commits:
  "fits u md G (skips c) e \<Longrightarrow> true_memo u md sk G c \<Longrightarrow> unresolved h md sk G c \<Longrightarrow>
    evf h G sk (m_input c) (skips c) e (m_position c) = Some v \<Longrightarrow>
    meets (h + 2 \<le> n) agrees (true_memo u md sk G) c v (parse n G e c)"
proof (induction h arbitrary: n e c v)
  case 0
  then show ?case by simp
next
  case (Suc h)
  show ?case
  proof (cases n)
    case 0
    then show ?thesis by (cases v) simp_all
  next
    case n: (Suc m)
    have kids: "committed_parsers G (parse m G) u md sk h (h + 2 \<le> m)"
      by (rule committed_parsersI) (rule Suc.IH)
    have wait: "unresolved h md sk G c" by (rule unresolved_less [OF Suc.prems(3)]) simp
    show ?thesis
    proof (cases "\<exists>r. e = RuleExpr r")
      case True
      then obtain r where e: "e = RuleExpr r" by blast
      show ?thesis
      proof (cases "evf h G sk (m_input c) (skips c) (RuleExpr r) (m_position c)")
        case (Some w)
        then have "w = v"
          using evf_more [OF Some, of "Suc h"] Suc.prems(4) e by simp
        then show ?thesis
          using meets_less [OF Suc.IH [OF Suc.prems(1,2) wait, of v n]] Some e by simp
      next
        case None
        then have "meets (h + 2 \<le> m) agrees (true_memo u md sk G) c v (nonterminal_parse m (parse m G) G r c)"
          using Suc.prems(1,4) e by (intro committed_parsers.nonterminal_true [OF kids Suc.prems(2,3)]) simp_all
        then show ?thesis using e n by simp
      qed
    next
      case False
      then have "meets (h + 2 \<le> m) agrees (true_memo u md sk G) c v (parse (Suc m) G e c)"
        using Suc.prems(1,4) by (intro committed_parsers.step_true [OF kids refl _ Suc.prems(2) wait]) simp_all
      then show ?thesis using n by simp
    qed
  qed
qed

interpretation committed: committed_parsers G "parse n G" u md sk h "h + 2 \<le> n"
  for G n u md sk h
  by (rule committed_parsersI) (rule engine_commits)

subsection \<open>Properties\<close>

text \<open>A parse from the start shows a result of the semantics.\<close>

definition shows_result :: "cut_result \<Rightarrow> ('c, parse_result) parse_outcome \<Rightarrow> bool" where
  "shows_result v m = (case m of
      Ret r c \<Rightarrow> (case v of
          Aborts \<Rightarrow> False
        | Ends None k \<Rightarrow> \<not> success r \<and> m_position c = 0
        | Ends (Some q) k \<Rightarrow> success r \<and> m_position c = q)
    | Throw err c \<Rightarrow> v = Aborts
    | Fault \<Rightarrow> False | Diverge \<Rightarrow> False)"

lemma start_true_memo: "wf_grammar G \<Longrightarrow> skipper_ok G sk \<Longrightarrow> tame u md sk G \<Longrightarrow> true_memo u md sk G (start_ctx sk input)"
  by (simp add: true_memo_def memo_sound_def memo_sound_but_def start_ctx_wf no_cuts_def memo_lookup_def frame_ids_def)

lemma start_unresolved: "unresolved h md sk G (start_ctx sk input)"
  by (simp add: unresolved_def frame_ids_def)

lemma start_skips: "skips (start_ctx sk input) = (sk \<noteq> None)"
  by (simp add: skips_def start_ctx_def make_ctx_def internal_set_skipper_def)

lemma start_commits:
  assumes "wf_grammar G" "skipper_ok G sk" and "tame u md sk G" and "fits u md G (sk \<noteq> None) e"
    and "evf h G sk input (sk \<noteq> None) e 0 = Some v" and "h + 2 \<le> n"
  shows "shows_result v (parse n G e (start_ctx sk input))"
proof -
  have "meets True agrees (true_memo u md sk G) (start_ctx sk input) v (parse n G e (start_ctx sk input))"
    using engine_commits [of u md G "start_ctx sk input" e sk h v n] assms start_true_memo [OF assms(1-3)]
    by (simp add: start_skips start_unresolved)
  moreover have "post (parse n G e (start_ctx sk input)) (ret_rel G (start_ctx sk input)) (throw_rel G (start_ctx sk input))"
    using assms by (intro child_parsers.run_contract [OF engine_child_parsers]) (simp_all add: fits_def start_ctx_wf)
  ultimately show ?thesis
    by (cases v; cases "parse n G e (start_ctx sk input)")
       (auto simp: shows_result_def agrees_def ret_rel_def split: option.splits)
qed

text \<open>
  C2: the engine computes the whole language, cuts, skipper and \<open>lexeme\<close> included. Whenever the
  reference semantics gives the expression a result on the input, the parse ends, within two
  nested calls more than the semantics takes: it throws where the semantics aborts, and
  otherwise succeeds or fails, and ends, as the semantics says. The semantics aborts when a
  branch of a choice that has committed fails, or an iteration of an unbounded repetition
  that has, unless the repetition still requires it (the first of \<open>+\<close>) and so just fails. The
  grammar keeps
  the cuts of a rule inside its choices and repetitions, uses each rule with skipping either
  on or off, and has recovery or cuts, not both.
\<close>

theorem engine_equals_full_semantics:
  assumes "wf_grammar G" and "skipper_ok G sk" and "wf_expr G e"
    and "closed_cuts G" and "moded_grammar md sk G" and "moded md (sk \<noteq> None) e"
    and "recovery_free G \<or> cut_free_grammar G \<and> cut_free e"
    and "evf h G sk input (sk \<noteq> None) e 0 = Some v" and "h + 2 \<le> n"
  shows "shows_result v (parse n G e (start_ctx sk input))"
proof (cases "recovery_free G")
  case True
  then show ?thesis
    using assms by (intro start_commits [where u = False and md = md and h = h]) (simp_all add: tame_def fits_def)
next
  case False
  then show ?thesis
    using assms by (intro start_commits [where u = True and md = md and h = h]) (simp_all add: tame_def fits_def)
qed

text \<open>
  C9: cuts only abort. For a grammar without left recursion and without a skipper, whose rules
  keep their cuts inside and do not recover, \<open>parse\<close> returns on every input; it
  returns \<open>true\<close> exactly when the semantics with cuts matches, and then the recogniser
  matches the grammar without its cuts, and up to the same position.
\<close>

theorem committed_parse_decides:
  assumes "wf_grammar G" and "closed_cuts G" and "recovery_free G" and "ranked rank (uncut_grammar G)"
    and "g_skipper G = None" and "defined_rule G rule"
  shows "\<exists>h v res. evf h G None input False (RuleExpr rule) 0 = Some v \<and>
    evals (uncut_grammar G) input (RuleExpr rule) 0 res \<and>
    (\<forall>n \<ge> h + 2. \<exists>c.
       grammar_parse_rule n G rule (make_ctx input) = Ret (\<exists>q k. v = Ends (Some q) k) c \<and>
       (\<forall>q k. v = Ends (Some q) k \<longrightarrow> res = Some q \<and> m_position c = q))"
proof -
  have "plain (ranked rank) (uncut_grammar G) (RuleExpr rule)"
    using assms by (simp add: plain_def uncut_grammar_ok)
  then obtain res h where res: "ev h (uncut_grammar G) input (uncut (RuleExpr rule)) 0 = Some res"
    using ranked_decided [of rank "uncut_grammar G" "RuleExpr rule" 0 input] by (auto simp: evals_def)
  then obtain v where v: "evf h G None input False (RuleExpr rule) 0 = Some v"
    and prune: "\<And>q k. v = Ends (Some q) k \<Longrightarrow> res = Some q"
    using ev_prunes [OF assms(2) res, of False] by auto
  have "\<exists>c. grammar_parse_rule n G rule (make_ctx input) = Ret (\<exists>q k. v = Ends (Some q) k) c \<and>
       (\<forall>q k. v = Ends (Some q) k \<longrightarrow> res = Some q \<and> m_position c = q)" if n: "h + 2 \<le> n" for n
  proof -
    have shown: "shows_result v (parse n G (RuleExpr rule) (start_ctx None input))"
      using assms v n
      by (intro start_commits [where u = False and md = "\<lambda>_. False" and h = h])
         (simp_all add: tame_def fits_def moded_grammar_off skipper_ok_def)
    have enter: "grammar_parse_rule n G rule (make_ctx input) =
        inside_try False (bind_o (parse n G (RuleExpr rule) (start_ctx None input)) (\<lambda>r c. Ret (success r) c))"
      using assms(5,6)
      by (auto simp: grammar_parse_rule_def enter_rule_def internal_set_skipper_start run_skipper_def defined_rule_def
          split: option.splits)
    show ?thesis
    proof (cases "parse n G (RuleExpr rule) (start_ctx None input)")
      case (Ret r c)
      then obtain res' k where "v = Ends res' k" "success r = (res' \<noteq> None)" "m_position c = (case res' of None \<Rightarrow> 0 | Some q \<Rightarrow> q)"
        using shown by (auto simp: shows_result_def split: cut_result.splits option.splits)
      then show ?thesis using prune [of _ k] Ret by (cases res') (simp_all add: enter)
    qed (use shown in \<open>simp_all add: shows_result_def enter\<close>)
  qed
  then show ?thesis using v res by (auto simp: evals_def)
qed

text \<open>
  \<open>S = 0 cut D 5 | D\<close> with \<open>D = lexeme((1-4)+)\<close>, and \<open>9\<close> for a space the skipper \<open>W\<close> skips.
\<close>

definition commit_grammar :: "rule_ref option \<Rightarrow> (nat, nat) grammar" where
  "commit_grammar sk =
     \<lparr>m_rules =
        [(''W'', new_non_terminal\<lparr>m_rule := Some (ZeroOrMoreExpr (TerminalExpr (TValue 9))), m_name := ''W''\<rparr>),
         (''D'', new_non_terminal\<lparr>m_rule := Some (LexemeExpr (OneOrMoreExpr (TerminalExpr (TRange 1 4)))), m_name := ''D''\<rparr>),
         (''S'', new_non_terminal\<lparr>m_rule := Some (AlternationExpr
            [SequenceExpr [TerminalExpr (TValue 0), CutExpr, RuleExpr ''D'', TerminalExpr (TValue 5)], RuleExpr ''D'']),
            m_name := ''S''\<rparr>)],
      m_start = ''S'', g_skipper = sk, g_ops = token_ops None (\<le>)\<rparr>"

lemma commit_ready:
  "wf_grammar (commit_grammar sk)" "skipper_ok (commit_grammar sk) (Some ''W'')" "defined_rule (commit_grammar sk) ''S''"
  "closed_cuts (commit_grammar sk)" "moded_grammar (\<lambda>r. r \<noteq> ''W'') (Some ''W'') (commit_grammar sk)"
  "recovery_free (commit_grammar sk)"
  by (simp_all add: commit_grammar_def wf_grammar_def closed_cuts_def moded_grammar_def recovery_free_def defined_rule_def
       lookup_rule_def is_defined_def new_non_terminal_def token_ops_def skipper_ok_def no_recovery_def)

lemma commit_runs:
  "evf 20 (commit_grammar (Some ''W'')) (Some ''W'') [0, 9, 1, 2, 9, 5] True (RuleExpr ''S'') 0 = Some (Ends (Some 6) False)"
  "evf 20 (commit_grammar (Some ''W'')) (Some ''W'') [0, 9, 1, 9, 2, 5] True (RuleExpr ''S'') 0 = Some Aborts"
  by code_simp+

theorem engine_equals_full_semantics_witness:
  "shows_result (Ends (Some 6) False)
     (parse 22 (commit_grammar (Some ''W'')) (RuleExpr ''S'') (start_ctx (Some ''W'') [0, 9, 1, 2, 9, 5])) \<and>
   shows_result Aborts
     (parse 22 (commit_grammar (Some ''W'')) (RuleExpr ''S'') (start_ctx (Some ''W'') [0, 9, 1, 9, 2, 5]))"
proof (rule conjI)
  show "shows_result (Ends (Some 6) False)
     (parse 22 (commit_grammar (Some ''W'')) (RuleExpr ''S'') (start_ctx (Some ''W'') [0, 9, 1, 2, 9, 5]))"
    by (rule engine_equals_full_semantics [where h = 20, OF commit_ready(1,2) _ commit_ready(4,5) _ disjI1 [OF commit_ready(6)]])
      (simp_all add: commit_ready(3) commit_runs del: evf.simps One_nat_def)
  show "shows_result Aborts
     (parse 22 (commit_grammar (Some ''W'')) (RuleExpr ''S'') (start_ctx (Some ''W'') [0, 9, 1, 9, 2, 5]))"
    by (rule engine_equals_full_semantics [where h = 20, OF commit_ready(1,2) _ commit_ready(4,5) _ disjI1 [OF commit_ready(6)]])
      (simp_all add: commit_ready(3) commit_runs del: evf.simps One_nat_def)
qed

lemma commit_ranked: "ranked (\<lambda>r. if r = ''S'' then 1 else 0) (uncut_grammar (commit_grammar None))"
  by code_simp

theorem committed_parse_decides_witness:
  "\<exists>h v res c. evf h (commit_grammar None) None [0, 1, 2, 5] False (RuleExpr ''S'') 0 = Some v \<and>
     evals (uncut_grammar (commit_grammar None)) [0, 1, 2, 5] (RuleExpr ''S'') 0 res \<and>
     grammar_parse_rule (h + 2) (commit_grammar None) ''S'' (make_ctx [0, 1, 2, 5]) = Ret (\<exists>q k. v = Ends (Some q) k) c"
proof -
  have "g_skipper (commit_grammar None) = None" by (simp add: commit_grammar_def)
  from committed_parse_decides [OF commit_ready(1,4,6) commit_ranked this commit_ready(3), of "[0, 1, 2, 5]"]
  show ?thesis by blast
qed

subsection \<open>Cuts that are forgotten\<close>

text \<open>
  \<open>A = 0 cut\<close>, whose cut commits the choice of its caller: \<open>S = A 1 | 0 2\<close>, and the same after a
  lookahead for \<open>A\<close>: \<open>R = &A S\<close>.
\<close>

definition forgetful_grammar :: "(nat, nat) grammar" where
  "forgetful_grammar =
     \<lparr>m_rules =
        [(''A'', new_non_terminal\<lparr>m_rule := Some (SequenceExpr [TerminalExpr (TValue 0), CutExpr]), m_name := ''A''\<rparr>),
         (''S'', new_non_terminal\<lparr>m_rule := Some (AlternationExpr
            [SequenceExpr [RuleExpr ''A'', TerminalExpr (TValue 1)], TerminalSeqExpr [0, 2]]), m_name := ''S''\<rparr>),
         (''R'', new_non_terminal\<lparr>m_rule := Some (SequenceExpr [AndExpr (RuleExpr ''A''), RuleExpr ''S'']), m_name := ''R''\<rparr>)],
      m_start = ''S'', g_skipper = None, g_ops = token_ops None (\<le>)\<rparr>"

definition forgetful_run :: "nat expr \<Rightarrow> (nat, parse_result) parse_outcome" where
  "forgetful_run e = parse 20 forgetful_grammar e (start_ctx None [0, 2])"

text \<open>
  Where a cut is forgotten. On \<open>0 2\<close>, \<open>S\<close> throws, since the cut of \<open>A\<close> commits its choice; after a
  lookahead for \<open>A\<close>, which changes nothing in the semantics, the result of \<open>A\<close> comes from the
  memo, without its cut, and the second branch matches. And \<open>(0 cut 1)*\<close> throws on a committed
  iteration that fails, where \<open>(0 cut 1)+\<close> only fails, if it is the first.
\<close>

theorem cut_forgotten:
  "shows_result Aborts (forgetful_run (RuleExpr ''S'')) \<and>
   evf 20 forgetful_grammar None [0, 2] False (RuleExpr ''R'') 0 = Some Aborts \<and>
   shows_result (Ends (Some 2) False) (forgetful_run (RuleExpr ''R'')) \<and>
   shows_result Aborts (forgetful_run (ZeroOrMoreExpr (SequenceExpr [TerminalExpr (TValue 0), CutExpr, TerminalExpr (TValue 1)]))) \<and>
   shows_result (Ends None False) (forgetful_run (OneOrMoreExpr (SequenceExpr [TerminalExpr (TValue 0), CutExpr, TerminalExpr (TValue 1)])))"
  by code_simp

end
