(* ===== verification/Error_Events.thy ===== *)
theory Error_Events
  imports Packrat
begin

text \<open>
  What a parse reports: the furthest failure with the items expected there, and the
  diagnostics of the rules that recovered. The reference is a function without memo or state
  that lists, along the evaluation of the recogniser, every failure it meets; the engine,
  which evaluates a rule once at a position and twice if it matches, reports the same.
\<close>

subsection \<open>The failures an evaluation meets\<close>

datatype event = Failed nat expected_item | Recovered diagnostic

fun events_seq ::
  "('c expr \<Rightarrow> nat \<Rightarrow> ev_result) \<Rightarrow> ('c expr \<Rightarrow> nat \<Rightarrow> event list) \<Rightarrow> 'c expr list \<Rightarrow> nat \<Rightarrow> event list" where
  "events_seq E F [] p = []"
| "events_seq E F (e # es) p =
     F e p @ (case E e p of Some (Some q) \<Rightarrow> events_seq E F es q | _ \<Rightarrow> [])"

fun events_alt ::
  "('c expr \<Rightarrow> nat \<Rightarrow> ev_result) \<Rightarrow> ('c expr \<Rightarrow> nat \<Rightarrow> event list) \<Rightarrow> 'c expr list \<Rightarrow> nat \<Rightarrow> event list" where
  "events_alt E F [] p = []"
| "events_alt E F (e # es) p =
     F e p @ (case E e p of Some None \<Rightarrow> events_alt E F es p | _ \<Rightarrow> [])"

fun events_loop ::
  "nat \<Rightarrow> (nat \<Rightarrow> ev_result) \<Rightarrow> (nat \<Rightarrow> event list) \<Rightarrow> int \<Rightarrow> nat \<Rightarrow> nat \<Rightarrow> event list" where
  "events_loop 0 E F max_rep k p = []"
| "events_loop (Suc n) E F max_rep k p =
     F p @ (case E p of
        Some (Some q) \<Rightarrow>
          if max_rep > 0 \<and> int (k + 1) \<ge> max_rep then []
          else if q = p then [] else events_loop n E F max_rep (k + 1) q
      | _ \<Rightarrow> [])"

text \<open>A rule whose body fails: it is expected, under its label or name, and it may recover.\<close>

definition rule_events :: "('c, 'v) non_terminal \<Rightarrow> nat \<Rightarrow> event list" where
  "rule_events nt p =
     (if m_label nt \<noteq> [] then [Failed p (ExpectedItem RuleLabel (m_label nt))]
      else if m_name nt \<noteq> [] then [Failed p (ExpectedItem RuleName (m_name nt))] else []) @
     (case is_sync_token (m_recover nt) of
        None \<Rightarrow> []
      | Some sync \<Rightarrow> [Recovered (Diagnostic p (es_of_list [ExpectedItem RuleLabel
          (if rs_label (m_recover nt) = [] then m_name nt else rs_label (m_recover nt))]))])"

primrec events :: "nat \<Rightarrow> ('c, 'v) grammar \<Rightarrow> 'c list \<Rightarrow> 'c expr \<Rightarrow> nat \<Rightarrow> event list" where
  "events 0 G input e p = []"
| "events (Suc n) G input e p =
     (let E = ev n G input; F = events n G input
      in case e of
        TerminalExpr v \<Rightarrow>
          if ev_symbol (g_ops G) input v p = None then [Failed p (terminal_item (g_ops G) v ''<terminal>'')] else []
      | TokenExpr v \<Rightarrow>
          if ev_symbol (g_ops G) input v p = None then [Failed p (terminal_item (g_ops G) v ''<token>'')] else []
      | TerminalSeqExpr vs \<Rightarrow>
          if take (length vs) (drop p input) = vs then [] else [Failed p (seq_item (g_ops G) vs)]
      | MatcherExpr fn \<Rightarrow> []
      | EmptyExpr \<Rightarrow> []
      | SequenceExpr es \<Rightarrow> events_seq E F es p
      | AlternationExpr es \<Rightarrow> events_alt E F es p
      | ZeroOrMoreExpr a \<Rightarrow> events_loop n (E a) (F a) (-1) 0 p
      | OneOrMoreExpr a \<Rightarrow> events_loop n (E a) (F a) (-1) 0 p
      | NTimesExpr a k \<Rightarrow> events_loop n (E a) (F a) (to_int64 k) 0 p
      | OptionalExpr a \<Rightarrow> events_loop n (E a) (F a) 1 0 p
      | NotExpr a \<Rightarrow> F a p
      | AndExpr a \<Rightarrow> F a p
      | CutExpr \<Rightarrow> []
      | LexemeExpr a \<Rightarrow> F a p
      | RuleExpr r \<Rightarrow>
          (case lookup_rule G r of
             None \<Rightarrow> []
           | Some nt \<Rightarrow>
               (case m_rule nt of
                  None \<Rightarrow> []
                | Some body \<Rightarrow> F body p @ (if E body p = Some None then rule_events nt p else []))))"

text \<open>More fuel does not add failures to an evaluation that has ended.\<close>

lemma events_seq_more:
  assumes "\<And>e p r. E e p = Some r \<Longrightarrow> E' e p = Some r \<and> F' e p = F e p"
  shows "ev_seq E es p = Some r \<Longrightarrow> events_seq E' F' es p = events_seq E F es p"
proof (induction es arbitrary: p)
  case (Cons e es)
  then obtain re where "E e p = Some re" by (cases "E e p") auto
  then show ?case
    using Cons assms [of e p re] by (auto split: option.splits)
qed simp

lemma events_alt_more:
  assumes "\<And>e p r. E e p = Some r \<Longrightarrow> E' e p = Some r \<and> F' e p = F e p"
  shows "ev_alt E es p = Some r \<Longrightarrow> events_alt E' F' es p = events_alt E F es p"
proof (induction es arbitrary: p)
  case (Cons e es)
  then obtain re where "E e p = Some re" by (cases "E e p") auto
  then show ?case
    using Cons assms [of e p re] by (auto split: option.splits)
qed simp

lemma events_loop_more:
  assumes "\<And>p r. E p = Some r \<Longrightarrow> E' p = Some r \<and> F' p = F p"
  shows "ev_loop n E max_rep k p = Some r \<Longrightarrow> n \<le> m \<Longrightarrow>
    events_loop m E' F' max_rep k p = events_loop n E F max_rep k p"
proof (induction n arbitrary: m k p)
  case (Suc n)
  then obtain re where re: "E p = Some re" by (cases "E p") auto
  obtain m' where m: "m = Suc m'" "n \<le> m'" using Suc.prems(2) by (cases m) auto
  show ?case
    using Suc.IH [OF _ m(2)] Suc.prems(1) assms [OF re] re by (auto simp: m(1) split: option.splits if_splits)
qed simp

lemma events_more:
  "ev n G input e p = Some r \<Longrightarrow> n \<le> m \<Longrightarrow> events m G input e p = events n G input e p"
proof (induction n arbitrary: m e p r)
  case (Suc n)
  obtain m' where m: "m = Suc m'" "n \<le> m'" using Suc.prems(2) by (cases m) auto
  have step: "ev m' G input a q = Some s \<and> events m' G input a q = events n G input a q"
    if "ev n G input a q = Some s" for a q s
    using ev_more [OF that m(2)] Suc.IH [OF that m(2)] by blast
  show ?case
    using Suc.prems(1) unfolding m(1) events.simps Let_def
    by (cases e)
       (auto simp: ev_rep_def step split: option.splits
         intro!: events_seq_more events_alt_more events_loop_more [OF _ _ m(2)])
qed simp

subsection \<open>Contexts that report a set of failures\<close>

text \<open>The furthest failures are kept, sorted and without duplicates; nearer ones are not.\<close>

definition reports :: "event set \<Rightarrow> 'c ctx \<Rightarrow> bool" where
  "reports R c \<longleftrightarrow>
     (m_has_error c \<longleftrightarrow> (\<exists>p i. Failed p i \<in> R)) \<and>
     (m_has_error c \<longrightarrow>
        (\<forall>p i. Failed p i \<in> R \<longrightarrow> p \<le> m_furthest_failure_pos c) \<and>
        m_expected c \<noteq> [] \<and> sorted_wrt (<) (m_expected c) \<and>
        set (m_expected c) = {i. Failed (m_furthest_failure_pos c) i \<in> R}) \<and>
     set (m_diagnostics c) = {d. Recovered d \<in> R}"

lemma reports_same: "report_of c' = report_of c \<Longrightarrow> reports R c' = reports R c"
  by (simp add: reports_def report_of_def)

lemma reports_failure:
  assumes "reports R c"
  shows "reports (insert (Failed p i) R) (record_failure p i c)"
proof -
  have ins: "sorted_wrt (<) xs \<Longrightarrow> sorted_wrt (<) (es_insert i xs) \<and> es_insert i xs \<noteq> [] \<and> set (es_insert i xs) = insert i (set xs)" for xs
    using es_insert_sorted [of xs i] by (metis empty_iff insertI1 list.set(1))
  consider "\<not> m_has_error c \<or> m_furthest_failure_pos c < p" | "m_has_error c" "p = m_furthest_failure_pos c"
    | "m_has_error c" "p < m_furthest_failure_pos c" by linarith
  then show ?thesis
  proof cases
    case 1
    then have new: "Failed p j \<notin> R" "Failed q j \<in> R \<Longrightarrow> q \<le> p" for q j
      using assms by (auto simp: reports_def)
    then show ?thesis
      using 1 assms ins [of "[]"] by (auto simp: reports_def record_failure_def)
  next
    case 2
    then show ?thesis
      using assms ins [of "m_expected c"] by (auto simp: reports_def record_failure_def)
  next
    case 3
    then show ?thesis
      using assms by (auto simp: reports_def record_failure_def)
  qed
qed

lemma reports_diagnostic: "reports R c \<Longrightarrow> reports (insert (Recovered d) R) (record_diagnostic d c)"
  by (auto simp: reports_def record_diagnostic_def)

text \<open>What the recogniser finds out about a rule that has an entry is reported already.\<close>

definition known :: "('c, 'v) grammar \<Rightarrow> 'c list \<Rightarrow> event set \<Rightarrow> rule_ref \<Rightarrow> nat \<Rightarrow> bool" where
  "known G input R r p \<longleftrightarrow>
     (\<exists>n res. ev n G input (RuleExpr r) p = Some res \<and> set (events n G input (RuleExpr r) p) \<subseteq> R)"

lemma known_mono: "known G input R r p \<Longrightarrow> R \<subseteq> R' \<Longrightarrow> known G input R' r p"
  unfolding known_def by blast

lemma known_events:
  assumes "known G input R r p" and "ev n G input (RuleExpr r) p = Some res"
  shows "set (events n G input (RuleExpr r) p) \<subseteq> R"
proof -
  obtain m s where m: "ev m G input (RuleExpr r) p = Some s" "set (events m G input (RuleExpr r) p) \<subseteq> R"
    using assms(1) by (auto simp: known_def)
  show ?thesis
    using events_more [OF m(1), of n] events_more [OF assms(2), of m] m(2) by (metis nle_le)
qed

definition noted :: "('c, 'v) grammar \<Rightarrow> event set \<Rightarrow> 'c ctx \<Rightarrow> bool" where
  "noted G R c \<longleftrightarrow> reports R c \<and>
     (\<forall>r p. memo_lookup r p c \<noteq> None \<longrightarrow> (r, p) \<in> set (frame_ids c) \<or> known G (m_input c) R r p)"

lemma noted_more:
  assumes "noted G R c" and "reports R' c'" and "R \<subseteq> R'"
    and "m_mem c' = m_mem c" "frame_ids c' = frame_ids c" "m_input c' = m_input c"
  shows "noted G R' c'"
  using assms(1,2,4-6) known_mono [OF _ assms(3)] by (simp add: noted_def memo_lookup_def) blast

lemma noted_reports: "noted G R c \<Longrightarrow> reports R c"
  by (simp add: noted_def)

lemma noted_same:
  assumes "noted G R c" and "report_of c' = report_of c"
    and "m_mem c' = m_mem c" "frame_ids c' = frame_ids c" "m_input c' = m_input c"
  shows "noted G R c'"
  by (rule noted_more [OF assms(1) _ order_refl assms(3-)])
     (simp add: reports_same [OF assms(2)] noted_reports [OF assms(1)])

lemma noted_record_failure [intro]:
  assumes "noted G R c"
  shows "noted G (insert (Failed p i) R) (record_failure p i c)"
  by (rule noted_more [OF assms reports_failure [OF noted_reports [OF assms]]])
     (auto simp: frame_ids_def record_failure_def)

lemma noted_record_diagnostic [intro]:
  assumes "noted G R c"
  shows "noted G (insert (Recovered d) R) (record_diagnostic d c)"
  by (rule noted_more [OF assms reports_diagnostic [OF noted_reports [OF assms]]])
     (auto simp: frame_ids_def record_diagnostic_def)

text \<open>What leaves the report alone.\<close>

lemma noted_quiet [simp, intro]:
  assumes "noted G R c"
  shows "noted G R (upd_node i f c)" "noted G R (push_child i t c)" "noted G R (set_state p c)"
    "noted G R (c\<lparr>m_position := p\<rparr>)" "noted G R (c\<lparr>m_skip_enabled := b\<rparr>)" "noted G R (set_cut b c)"
    "noted G R (init_cut c)" "noted G R (next_pos c)" "noted G R (snd (make_node c))" "noted G R (c\<lparr>m_cut := ks\<rparr>)"
proof -
  have same: "noted G R c'" if "report_of c' = report_of c" "m_mem c' = m_mem c" "m_lr_stack c' = m_lr_stack c" "m_input c' = m_input c" for c'
    using that by (intro noted_same [OF assms]) (simp_all add: frame_ids_def)
  show "noted G R (upd_node i f c)" "noted G R (push_child i t c)" "noted G R (set_state p c)"
    "noted G R (c\<lparr>m_position := p\<rparr>)" "noted G R (c\<lparr>m_skip_enabled := b\<rparr>)" "noted G R (set_cut b c)"
    "noted G R (init_cut c)" "noted G R (next_pos c)" "noted G R (snd (make_node c))" "noted G R (c\<lparr>m_cut := ks\<rparr>)"
    by (rule same; simp add: report_of_def upd_node_def push_child_def set_state_def set_cut_def init_cut_def
        next_pos_def make_node_def split: option.split list.split)+
qed

lemma noted_start_node: "noted G R c \<Longrightarrow> start_node c = (n, c1) \<Longrightarrow> noted G R c1"
  using noted_quiet(1) [OF noted_quiet(9), of G R c] by (auto simp: start_node_def make_node_def)

lemma noted_remove_cut: "noted G R c \<Longrightarrow> \<not> get_cut c \<Longrightarrow> m_cut c \<noteq> [] \<Longrightarrow> rets (remove_cut c) (\<lambda>_. noted G R)"
  by (cases "m_cut c") (simp_all add: remove_cut_def)

subsection \<open>Leaves\<close>

lemma terminal_notes:
  assumes "wf_terminal ops v" and "noted G R c"
  shows "post (terminal_parse ops v c) (\<lambda>r. noted G
    (R \<union> set (if ev_symbol ops (m_input c) v (m_position c) = None then [Failed (m_position c) (terminal_item ops v ''<terminal>'')] else []))) E"
  using try_symbol_ev [OF assms(1), of c] assms(2)
  by (cases "ev_symbol ops (m_input c) v (m_position c)")
     (auto simp: terminal_parse_def record_terminal_expected_def record_failure_lazy_eq mark_def)

lemma token_notes:
  assumes "wf_terminal ops v" and "noted G R c"
  shows "post (token_parse ops v c) (\<lambda>r. noted G
    (R \<union> set (if ev_symbol ops (m_input c) v (m_position c) = None then [Failed (m_position c) (terminal_item ops v ''<token>'')] else []))) E"
  using try_symbol_ev [OF assms(1), of c] noted_quiet(1) [OF noted_quiet(9) [OF noted_quiet(8) [OF assms(2)]]] assms(2)
  by (cases "ev_symbol ops (m_input c) v (m_position c)")
     (auto simp: token_parse_def record_terminal_expected_def record_failure_lazy_eq mark_def make_node_def Let_def)

lemma terminal_seq_notes:
  "noted G R c \<Longrightarrow> post (terminal_seq_loop ops all_vs init vs c) (\<lambda>r. noted G
    (R \<union> set (if take (length vs) (drop (m_position c) (m_input c)) = vs then [] else [Failed init (seq_item ops all_vs)]))) E"
proof (induction vs arbitrary: c)
  case Nil
  then show ?case by simp
next
  case (Cons v vs)
  have t: "try_symbol ops (TValue v) c = Some (m_position c < length (m_input c) \<and> m_input c ! m_position c = v)"
    using try_symbol_ev [of ops "TValue v" c] by (auto simp: ev_symbol_def)
  show ?case
  proof (cases "m_position c < length (m_input c) \<and> m_input c ! m_position c = v")
    case True
    then have "m_position (next_pos c) = Suc (m_position c)" "m_input (next_pos c) = m_input c"
      by (simp_all add: next_pos_def input_size_def)
    then show ?thesis
      using Cons.IH [OF noted_quiet(8) [OF Cons.prems]] t True by (auto simp: take_drop_Cons)
  next
    case False
    then have "take (length (v # vs)) (drop (m_position c) (m_input c)) \<noteq> v # vs"
      by (auto simp: take_drop_Cons)
    moreover have "mark (set_state init c) = init" by (simp add: mark_def set_state_def)
    ultimately show ?thesis
      using t False Cons.prems by (auto simp: record_failure_lazy_eq Let_def)
  qed
qed

lemma matcher_notes:
  assumes "noted G R c" and "matcher_ok fn" and "m_position c \<le> input_size c"
  shows "post (matcher_parse fn c) (\<lambda>r. noted G R) E"
proof (cases "fn (m_input c) (Span (m_position c) (m_position c))")
  case None
  then show ?thesis using assms(1) by (simp add: matcher_parse_def mark_def)
next
  case (Some sp)
  then have "sp_end sp \<le> input_size c"
    using assms by (auto simp: matcher_ok_def input_size_def)
  with Some show ?thesis
    using noted_quiet(1) [OF noted_quiet(9) [OF noted_quiet(4) [OF assms(1)]]]
    by (simp add: matcher_parse_def mark_def Let_def reset_def make_node_def)
qed

subsection \<open>The composite expressions\<close>

locale noting_parsers = packrat_parsers G run skip h
  for G :: "('c, 'v) grammar"
    and run :: "'c expr \<Rightarrow> 'c parser"
    and skip :: "'c ctx \<Rightarrow> ('c, unit) parse_outcome"
    and h :: nat +
  assumes run_notes: "wf_expr G e \<Longrightarrow> sound G c \<and> pending h G c \<Longrightarrow> noted G R c \<Longrightarrow>
      ev h G (m_input c) e (m_position c) = Some res \<Longrightarrow>
      post (run e c) (\<lambda>r. noted G (R \<union> set (events h G (m_input c) e (m_position c)))) no_throw"
begin

abbreviation "Ec c \<equiv> ev h G (m_input c)"
abbreviation "Fc c \<equiv> events h G (m_input c)"
abbreviation "ok c \<equiv> sound G c \<and> pending h G c"

lemma skip_none: "ok c \<Longrightarrow> (if b then skip c else Ret () c) = Ret () c"
  using skip_idle [OF sound_skipper [of G c]] by auto

lemma run_post:
  assumes "wf_expr G e" "ok c" "noted G R c" "Ec c e (m_position c) = Some res"
  shows "post (run e c) (\<lambda>r c'. noted G (R \<union> set (Fc c e (m_position c))) c' \<and>
    agrees res r c' \<and> ok c' \<and> ret_rel G c r c') no_throw"
proof -
  have "post (run e c) (good G c res) no_throw" using assms by (intro run_good) auto
  from post_conj [OF run_notes [OF assms] this] show ?thesis
    by (rule post_mono) (use assms(2) pending_step in \<open>auto simp: ret_rel_def\<close>)
qed

lemma parse_seq_notes:
  assumes "list_all (wf_expr G) es" "ok c" "noted G R c" "ev_seq (Ec c) es (m_position c) = Some res"
  shows "post (parse_seq run skip node i es c)
    (\<lambda>_. noted G (R \<union> set (events_seq (Ec c) (Fc c) es (m_position c)))) no_throw"
  using assms
proof (induction es arbitrary: i c R)
  case Nil
  then show ?case by simp
next
  case (Cons e es)
  obtain re where re: "Ec c e (m_position c) = Some re"
    using Cons.prems(4) by (cases "Ec c e (m_position c)") auto
  have wf: "wf_expr G e" using Cons.prems(1) by simp
  show ?case
    unfolding parse_seq.simps skip_none [OF Cons.prems(2)] bind_o.simps
  proof (rule post_bind, rule post_mono [OF run_post [OF wf Cons.prems(2,3) re]])
    fix r c2
    assume c2: "noted G (R \<union> set (Fc c e (m_position c))) c2 \<and> agrees re r c2 \<and> ok c2 \<and> ret_rel G c r c2"
    let ?c3 = "push_child node (tree r) c2"
    have same: "m_input c2 = m_input c" "m_input ?c3 = m_input c2" "m_position ?c3 = m_position c2"
      using c2 step_input by (auto simp: ret_rel_def push_child_def upd_node_def split: option.split)
    show "post (if success r then parse_seq run skip node (Suc i) es ?c3 else Ret False c2)
        (\<lambda>_. noted G (R \<union> set (events_seq (Ec c) (Fc c) (e # es) (m_position c)))) no_throw"
    proof (cases re)
      case None
      then show ?thesis using c2 re by (simp add: agrees_def)
    next
      case (Some q)
      then have q: "success r" "m_position c2 = q" using c2 by (simp_all add: agrees_def)
      have "post (parse_seq run skip node (Suc i) es ?c3)
          (\<lambda>_. noted G ((R \<union> set (Fc c e (m_position c))) \<union> set (events_seq (Ec ?c3) (Fc ?c3) es (m_position ?c3)))) no_throw"
        using Cons.prems(1,4) c2 re Some q same
        by (intro Cons.IH engine_inv.keeps_push_child noted_quiet) simp_all
      then show ?thesis using re Some q same by (simp add: Un_assoc)
    qed
  qed simp
qed

lemma sequence_notes:
  assumes "list_all (wf_expr G) es" "ok c" "noted G R c" "ev_seq (Ec c) es (m_position c) = Some res"
  shows "post (sequence_parse run skip es c)
    (\<lambda>_. noted G (R \<union> set (events_seq (Ec c) (Fc c) es (m_position c)))) no_throw"
proof -
  obtain n c1 where sn: "start_node c = (n, c1)" by (cases "start_node c")
  have same: "m_position c1 = m_position c" "m_input c1 = m_input c"
    using sn by (auto simp: start_node_def make_node_def upd_node_def Let_def)
  have "post (parse_seq run skip n 0 es c1)
      (\<lambda>_. noted G (R \<union> set (events_seq (Ec c1) (Fc c1) es (m_position c1)))) no_throw"
    using assms same by (intro parse_seq_notes engine_inv.keeps_start_node [OF _ sn] noted_start_node [OF _ sn]) simp_all
  then show ?thesis
    unfolding sequence_parse_def Let_def sn prod.case same
    by (intro post_bind) (auto elim!: post_mono)
qed

text \<open>A cut scope in which no cut was made.\<close>

lemma scope_notes:
  assumes "post (m (init_cut c)) (\<lambda>_. noted G R) no_throw" and "post (m (init_cut c)) (\<lambda>_ c'. sound G c') no_throw"
    and "post (m (init_cut c)) (ret_rel G (init_cut c)) (throw_rel G (init_cut c))"
  shows "post (scope_guard remove_cut (m (init_cut c))) (\<lambda>_. noted G R) no_throw"
proof (rule post_guard, rule post_mono [OF post_conj [OF assms(1) post_conj [OF assms(2,3)]]])
  fix r s assume s: "noted G R s \<and> sound G s \<and> ret_rel G (init_cut c) r s"
  then have "m_cut s \<noteq> []"
    using step_cut_empty [of G "init_cut c" s] by (simp add: ret_rel_def)
  then show "post (remove_cut s) (\<lambda>_. noted G R) (\<lambda>e s'. False)"
    using s no_cuts_get_cut [OF sound_uncut] by (intro rets_imp_post noted_remove_cut) auto
qed simp

lemma parse_alt_notes:
  assumes "list_all (wf_expr G) es" "ok c" "noted G R c" "ev_alt (Ec c) es (m_position c) = Some res"
  shows "post (parse_alt run i es c)
    (\<lambda>_. noted G (R \<union> set (events_alt (Ec c) (Fc c) es (m_position c)))) no_throw"
  using assms
proof (induction es arbitrary: i c R)
  case Nil
  then show ?case by simp
next
  case (Cons e es)
  obtain re where re: "Ec c e (m_position c) = Some re"
    using Cons.prems(4) by (cases "Ec c e (m_position c)") auto
  have wf: "wf_expr G e" using Cons.prems(1) by simp
  show ?case
    unfolding parse_alt.simps
  proof (rule post_bind, rule post_mono [OF run_post [OF wf Cons.prems(2,3) re]])
    fix r c1
    assume c1: "noted G (R \<union> set (Fc c e (m_position c))) c1 \<and> agrees re r c1 \<and> ok c1 \<and> ret_rel G c r c1"
    have same: "m_input c1 = m_input c" using c1 step_input by (auto simp: ret_rel_def)
    have uncut: "\<not> get_cut c1" using c1 no_cuts_get_cut [OF sound_uncut] by blast
    show "post (if success r then Ret r (case tree r of None \<Rightarrow> c1 | Some t \<Rightarrow> upd_node t (\<lambda>n. n\<lparr>alt_winner := Some i\<rparr>) c1)
         else if get_cut c1 then Throw (cut_error c1) c1 else parse_alt run (Suc i) es c1)
        (\<lambda>_. noted G (R \<union> set (events_alt (Ec c) (Fc c) (e # es) (m_position c)))) no_throw"
    proof (cases re)
      case None
      then have "\<not> success r" "m_position c1 = m_position c"
        using c1 by (auto simp: agrees_def ret_rel_def)
      then show ?thesis
        using Cons.IH [of c1 "R \<union> set (Fc c e (m_position c))" "Suc i"] Cons.prems(1,4) c1 re None same uncut
        by (simp add: Un_assoc)
    next
      case (Some q)
      then show ?thesis using c1 re by (auto simp: agrees_def split: option.split)
    qed
  qed simp
qed

lemma alternation_notes:
  assumes "list_all (wf_expr G) es" "ok c" "noted G R c" "ev_alt (Ec c) es (m_position c) = Some res"
  shows "post (alternation_parse run es c)
    (\<lambda>_. noted G (R \<union> set (events_alt (Ec c) (Fc c) es (m_position c)))) no_throw"
proof -
  have ok: "ok (init_cut c)" using assms(2) by (rule engine_inv.keeps_init_cut)
  have "post (parse_alt run 0 es (init_cut c)) (\<lambda>r c'. agrees res r c' \<and> ok c') no_throw"
    using assms ok by (intro agr.parse_alt_agrees) simp_all
  then have "post (parse_alt run 0 es (init_cut c)) (\<lambda>_ c'. sound G c') no_throw"
    by (rule post_mono) simp_all
  moreover have "post (parse_alt run 0 es (init_cut c))
      (\<lambda>_. noted G (R \<union> set (events_alt (Ec c) (Fc c) es (m_position c)))) no_throw"
    using parse_alt_notes [of es "init_cut c" R res 0] assms ok by simp
  ultimately show ?thesis
    unfolding alternation_parse_def
    using assms(1) sound_wf ok by (intro scope_notes parse_alt_contract) auto
qed

lemma predicate_notes:
  assumes "wf_expr G e" "ok c" "noted G R c" "Ec c e (m_position c) = Some res"
  shows "post (predicate_parse_impl (run e) b c) (\<lambda>_. noted G (R \<union> set (Fc c e (m_position c)))) no_throw"
  unfolding predicate_parse_impl_def Let_def
  by (rule post_bind, rule post_mono [OF run_post [OF assms]]) auto

lemma lexeme_notes:
  assumes "wf_expr G e" "ok c" "noted G R c" "Ec c e (m_position c) = Some res"
  shows "post (lexeme_parse (run e) c) (\<lambda>_. noted G (R \<union> set (Fc c e (m_position c)))) no_throw"
proof -
  let ?c = "set_skip_enabled False c"
  have c: "ok ?c" "noted G R ?c" "m_input ?c = m_input c" "m_position ?c = m_position c"
    using assms engine_inv.keeps_skip_flag [of G c h] by (simp_all add: set_skip_enabled_def)
  have "post (run e ?c) (\<lambda>r. noted G (R \<union> set (Fc c e (m_position c)))) no_throw"
    using run_notes [OF assms(1) c(1,2)] assms(4) c by simp
  then show ?thesis
    unfolding lexeme_parse_def Let_def
    by (intro post_guard) (auto elim!: post_mono simp: set_skip_enabled_def)
qed

lemma rep_loop_notes:
  assumes e: "wf_expr G e" and "ok c" "noted G R c" "ev_loop m (Ec c e) max_rep k (m_position c) = Some kq"
  shows "post (rep_loop n (run e) skip max_rep node k lpos c)
    (\<lambda>_. noted G (R \<union> set (events_loop m (Ec c e) (Fc c e) max_rep k (m_position c)))) no_throw"
  using assms(2-)
proof (induction n arbitrary: c k lpos m R)
  case 0
  then show ?case by simp
next
  case (Suc n)
  obtain m' re where m: "m = Suc m'" and re: "Ec c e (m_position c) = Some re"
    using Suc.prems(3) by (cases m; cases "Ec c e (m_position c)") auto
  let ?c1 = "set_cut False c"
  have c1: "ok ?c1" "noted G R ?c1" "m_input ?c1 = m_input c" "m_position ?c1 = m_position c"
    using engine_inv.keeps_set_cut [OF Suc.prems(1)] Suc.prems(2) by (auto simp: set_cut_def split: list.split)
  have re1: "Ec ?c1 e (m_position ?c1) = Some re" using re c1 by simp
  show ?case
    unfolding rep_loop.simps skip_none [OF Suc.prems(1)] bind_o.simps Let_def
  proof (rule post_bind, rule post_mono [OF run_post [OF e c1(1,2) re1]])
    fix r c2
    assume c2: "noted G (R \<union> set (Fc ?c1 e (m_position ?c1))) c2 \<and> agrees re r c2 \<and> ok c2 \<and> ret_rel G ?c1 r c2"
    let ?c3 = "push_child node (tree r) c2"
    have same: "m_input c2 = m_input c" "m_input ?c3 = m_input c2" "m_position ?c3 = m_position c2"
      using c1 c2 step_input [of G ?c1 c2] by (auto simp: ret_rel_def push_child_def upd_node_def split: option.split)
    have R: "noted G (R \<union> set (Fc c e (m_position c))) c2" using c1 c2 by simp
    show "post (if success r then
            if max_rep > 0 \<and> int (k + 1) \<ge> max_rep then Ret (k + 1, m_position c2, False) ?c3
            else if m_position ?c3 = m_position c then Ret (k + 1, m_position c2, False) ?c3
            else rep_loop n (run e) skip max_rep node (k + 1) (m_position c2) ?c3
          else Ret (k, lpos, True) c2)
        (\<lambda>_. noted G (R \<union> set (events_loop m (Ec c e) (Fc c e) max_rep k (m_position c)))) no_throw"
    proof (cases re)
      case None
      then show ?thesis using c2 re m R by (simp add: agrees_def)
    next
      case (Some q)
      then have q: "success r" "m_position c2 = q" using c2 by (simp_all add: agrees_def)
      show ?thesis
      proof (cases "max_rep > 0 \<and> int (k + 1) \<ge> max_rep \<or> q = m_position c")
        case True
        then have "events_loop m (Ec c e) (Fc c e) max_rep k (m_position c) = Fc c e (m_position c)"
          using m re Some by auto
        then show ?thesis using True q same R by auto
      next
        case False
        then have "ev_loop m' (Ec c e) max_rep (k + 1) q = Some kq"
            "events_loop m (Ec c e) (Fc c e) max_rep k (m_position c)
              = Fc c e (m_position c) @ events_loop m' (Ec c e) (Fc c e) max_rep (k + 1) q"
          using Suc.prems(3) m re Some by (auto split: if_splits)
        moreover have "ok ?c3" using c2 by (intro engine_inv.keeps_push_child) blast
        moreover have "noted G (R \<union> set (Fc c e (m_position c))) ?c3" using R by simp
        ultimately have "post (rep_loop n (run e) skip max_rep node (k + 1) (m_position c2) ?c3)
            (\<lambda>_. noted G (R \<union> set (events_loop m (Ec c e) (Fc c e) max_rep k (m_position c)))) no_throw"
          using Suc.IH [of ?c3 "R \<union> set (Fc c e (m_position c))" m' "k + 1" "m_position c2"] same q
          by (simp add: Un_assoc)
        then show ?thesis using False q same by auto
      qed
    qed
  qed simp
qed

lemma repeat_notes:
  assumes e: "wf_expr G e" and c: "ok c" "noted G R c" and ev: "ev_rep m (Ec c e) min_rep max_rep (m_position c) = Some res"
  shows "post (repeat_parse_impl n (run e) skip min_rep max_rep c)
    (\<lambda>_. noted G (R \<union> set (events_loop m (Ec c e) (Fc c e) max_rep 0 (m_position c)))) no_throw"
proof -
  let ?c = "init_cut c"
  let ?R = "R \<union> set (events_loop m (Ec c e) (Fc c e) max_rep 0 (m_position c))"
  obtain i c1 where sn: "start_node ?c = (i, c1)" by (cases "start_node ?c")
  have ic: "ok ?c" using c(1) by (rule engine_inv.keeps_init_cut)
  have c1: "ok c1" "noted G R c1"
    by (rule engine_inv.keeps_start_node [OF ic sn], rule noted_start_node [OF noted_quiet(7) [OF c(2)] sn])
  have same: "m_position c1 = m_position c" "m_input c1 = m_input c"
    using sn by (auto simp: start_node_def make_node_def upd_node_def init_cut_def Let_def)
  have step: "step_rel G ?c c1" using start_node_step [OF sound_wf sn] ic by blast
  obtain kq where kq: "ev_loop m (Ec c e) max_rep 0 (m_position c) = Some kq"
    using ev by (auto simp: ev_rep_def split: option.splits)
  obtain k q where kq': "kq = (k, q)" by (cases kq)
  have cut1: "m_cut c1 \<noteq> []" using step_cut_empty [OF step] by simp
  have loop: "post (rep_loop n (run e) skip max_rep i 0 (m_position ?c) c1) (\<lambda>_. noted G ?R) no_throw"
    using rep_loop_notes [OF e c1(1,2), of m max_rep 0 kq n i "m_position ?c"] kq same by simp
  have agree: "post (rep_loop n (run e) skip max_rep i 0 (m_position ?c) c1)
      (\<lambda>(count, lpos', failed) c'. ok c' \<and> count = k \<and> lpos' = q \<and> (\<not> failed \<longrightarrow> m_position c' = q)) no_throw"
    using agr.rep_loop_agrees [OF e c1(1) cut1, of "m_position ?c" m max_rep 0 k q n i] kq kq' same by simp
  have p: "m_position c1 \<le> m_position ?c" "m_position ?c \<le> input_size c1"
    using same engine_inv.in_bounds [OF c1(1)] by simp_all
  note contract = rep_loop_contract [OF e sound_wf [of G c1] step_rel_refl [OF sound_wf [of G c1]] p, of n max_rep i 0]
  have body: "post (repeat_body n (run e) skip min_rep max_rep ?c) (\<lambda>_ c'. noted G ?R c' \<and> sound G c') no_throw"
    unfolding repeat_body_def Let_def sn prod.case
  proof (rule post_bind, rule post_mono [OF post_conj [OF loop post_conj [OF agree contract]]])
    fix y c2
    assume y: "noted G ?R c2 \<and> (case y of (count, lpos', failed) \<Rightarrow> \<lambda>c'.
        ok c' \<and> count = k \<and> lpos' = q \<and> (\<not> failed \<longrightarrow> m_position c' = q)) c2 \<and>
      (case y of (count', lpos', failed) \<Rightarrow> \<lambda>s. step_rel G c1 s \<and> m_position c1 \<le> lpos' \<and>
        lpos' \<le> input_size c1 \<and> (\<not> failed \<longrightarrow> m_position s = lpos')) c2"
    obtain count last failed where [simp]: "y = (count, last, failed)" by (cases y)
    have y2: "ok c2" "count = k" "last = q" "\<not> failed \<longrightarrow> m_position c2 = q" "q \<le> input_size c2" "m_position ?c \<le> input_size c2"
      using y p step_rel_input [of G c1 c2] by auto
    then have "post (rep_finish min_rep max_rep i (m_position ?c) y c2) (\<lambda>_ c'. sound G c') no_throw"
      using agr.rep_finish_agrees [OF y2(1,6,5,4), where k = k and min_rep = min_rep and max_rep = max_rep and node = i] y2 by (auto elim!: post_mono)
    moreover have "\<not> get_cut c2" using y2 no_cuts_get_cut [OF sound_uncut] by blast
    then have "post (rep_finish min_rep max_rep i (m_position ?c) y c2) (\<lambda>_. noted G ?R) no_throw"
      using y by (auto simp: rep_finish_def Let_def)
    ultimately show "post (rep_finish min_rep max_rep i (m_position ?c) y c2) (\<lambda>_ c'. noted G ?R c' \<and> sound G c') no_throw"
      by (auto intro: post_conj)
  qed (use c1 in simp_all)
  show ?thesis
    unfolding repeat_parse_impl_def
    using e ic sound_wf by (intro scope_notes repeat_body_contract post_mono [OF body]) auto
qed

lemma step_notes:
  assumes eqs: "run = parse n G" "skip = run_skipper (\<lambda>r. parse n G (RuleExpr r))"
    and wf: "wf_expr G e" and c: "ok c" "noted G R c" and no_rule: "\<forall>r. e \<noteq> RuleExpr r"
    and ev: "ev (Suc h) G (m_input c) e (m_position c) = Some res"
  shows "post (parse (Suc n) G e c) (\<lambda>_. noted G (R \<union> set (events (Suc h) G (m_input c) e (m_position c)))) no_throw"
proof -
  note kids = sequence_notes [unfolded eqs, OF _ c] alternation_notes [unfolded eqs, OF _ c]
    repeat_notes [unfolded eqs, OF _ c] lexeme_notes [unfolded eqs, OF _ c] predicate_notes [unfolded eqs, OF _ c]
  note in_bounds = engine_inv.in_bounds [OF c(1)]
  have pred: "\<exists>r. Ec c a (m_position c) = Some r"
    if "e = NotExpr a \<or> e = AndExpr a" for a
    using ev that by (cases "Ec c a (m_position c)") auto
  show ?thesis
  proof (cases e)
    case (TerminalSeqExpr vs)
    then show ?thesis
      using terminal_seq_notes [OF c(2), of "g_ops G" vs "m_position c" vs no_throw]
      by (simp add: terminal_seq_parse_def mark_def split: if_splits)
  next
    case (TerminalExpr v)
    then show ?thesis using terminal_notes [OF _ c(2), of "g_ops G" v no_throw] wf by (simp split: if_splits)
  next
    case (TokenExpr v)
    then show ?thesis using token_notes [OF _ c(2), of "g_ops G" v no_throw] wf by (simp split: if_splits)
  next
    case (MatcherExpr fn)
    then show ?thesis using matcher_notes [OF c(2) _ in_bounds, of fn no_throw] wf by simp
  next
    case EmptyExpr
    then show ?thesis using c(2) by (simp add: empty_parse_def)
  next
    case (NotExpr a)
    then show ?thesis using pred [of a] kids(5) [of a] wf by auto
  next
    case (AndExpr a)
    then show ?thesis using pred [of a] kids(5) [of a] wf by auto
  qed (use wf ev no_rule kids(1-4) in auto)
qed

end

subsection \<open>Rules\<close>

lemma noted_frame_step:
  assumes "noted G R s" and "frame_step k s s'" and "k \<in> set (frame_ids s)"
  shows "noted G R s'"
proof -
  have "reports R s'"
    using reports_same [of s' s R] assms by (simp add: noted_def frame_step_def)
  moreover have "(r, p) \<in> set (frame_ids s') \<or> known G (m_input s') R r p" if "memo_lookup r p s' \<noteq> None" for r p
    using that assms frame_step_memo [OF assms(2), of r p] by (cases "(r, p) = k") (auto simp: noted_def frame_step_def)
  ultimately show ?thesis by (simp add: noted_def)
qed

text \<open>The rule leaves the stack; its entry stays, and now counts.\<close>

lemma noted_leave:
  assumes s: "noted G R s" "same_but_stack (rule, p) s c4" and c': "reports R' c'" "R \<subseteq> R'"
    and same: "frame_ids c' = frame_ids c4" "m_input c' = m_input c4"
      "\<And>r q. memo_lookup r q c' \<noteq> None \<Longrightarrow> memo_lookup r q c4 \<noteq> None"
    and rule: "known G (m_input s) R' rule p"
  shows "noted G R' c'"
proof -
  have "(r, q) \<in> set (frame_ids c') \<or> known G (m_input c') R' r q" if "memo_lookup r q c' \<noteq> None" for r q
  proof -
    have "memo_lookup r q s \<noteq> None"
      using same(3) [OF that] s(2) by (simp add: same_but_stack_def memo_lookup_def)
    then have "(r, q) \<in> insert (rule, p) (set (frame_ids c4)) \<or> known G (m_input s) R r q"
      using s by (auto simp: noted_def same_but_stack_def)
    then show ?thesis
      using rule s(2) same(1,2) known_mono [OF _ c'(2)] by (auto simp: same_but_stack_def)
  qed
  with c'(1) show ?thesis by (simp add: noted_def)
qed

lemma reports_rule_failure:
  "reports R c \<Longrightarrow> reports (R \<union> set (if m_label nt \<noteq> [] then [Failed p (ExpectedItem RuleLabel (m_label nt))]
      else if m_name nt \<noteq> [] then [Failed p (ExpectedItem RuleName (m_name nt))] else []))
    (record_rule_failure nt p c)"
  by (simp add: record_rule_failure_def reports_failure)

lemma update_rule_state_same [simp]:
  "m_input (snd (update_rule_state r p st c)) = m_input c"
  "memo_lookup r' p' (snd (update_rule_state r p st c)) = None \<longleftrightarrow> memo_lookup r' p' c = None"
  by (auto simp: memo_lookup_update)

lemma rule_failed_notes:
  assumes s: "noted G R s" "same_but_stack (rule, p) s c4" and cut: "\<not> get_cut c4"
    and rule: "known G (m_input s) (R \<union> set (rule_events nt p)) rule p" and E: "E = no_throw"
  shows "post (rule_failed nt rule p st c4) (\<lambda>_. noted G (R \<union> set (rule_events nt p))) E"
proof -
  let ?c1 = "record_rule_failure nt p c4"
  have "reports R c4" using s reports_same [of c4 s R] by (simp add: noted_def same_but_stack_def)
  note r1 = reports_rule_failure [OF this, of nt p]
  have same1: "frame_ids ?c1 = frame_ids c4" "m_input ?c1 = m_input c4" "m_mem ?c1 = m_mem c4" "get_cut ?c1 = get_cut c4"
    by (simp_all add: record_rule_failure_def record_failure_def frame_ids_def get_cut_def)
  have memo1: "memo_lookup r q ?c1 = memo_lookup r q c4"
      "memo_lookup r q (record_diagnostic d (?c1\<lparr>m_position := i\<rparr>)) = memo_lookup r q c4" for r q d i
    using same1(3) by (simp_all add: memo_lookup_def record_diagnostic_def)
  show ?thesis
  proof (cases "is_sync_token (m_recover nt)")
    case None
    let ?c2 = "snd (update_rule_state rule p (st\<lparr>m_cached_result := null_result\<rparr>) ?c1)"
    have "reports (R \<union> set (rule_events nt p)) ?c2"
      using r1 None reports_same [of ?c2 ?c1] by (simp add: rule_events_def)
    then have "noted G (R \<union> set (rule_events nt p)) ?c2"
      by (rule noted_leave [OF s]) (use same1 rule in \<open>simp_all add: memo1\<close>)
    then show ?thesis using None by (simp add: rule_failed_def Let_def)
  next
    case (Some sync)
    define q where "q = (let scan = scan_sync sync (m_input ?c1) p
      in if scan < input_size ?c1 then scan + 1 else input_size ?c1)"
    define label where "label = (if rs_label (m_recover nt) = [] then m_name nt else rs_label (m_recover nt))"
    let ?c3 = "record_diagnostic (Diagnostic p (es_of_list [ExpectedItem RuleLabel label])) (?c1\<lparr>m_position := q\<rparr>)"
    let ?c4 = "snd (update_rule_state rule p \<lparr>m_last_pos = q, m_cached_result = ok_result None\<rparr> ?c3)"
    have "reset q ?c1 = Ret () (?c1\<lparr>m_position := q\<rparr>)"
      by (simp add: reset_def q_def Let_def)
    then have failed: "rule_failed nt rule p st c4 = Ret (ok_result None) ?c4"
      using Some cut same1(4) by (simp add: rule_failed_def Let_def q_def label_def)
    have "reports (R \<union> set (rule_events nt p)) ?c3"
      using reports_diagnostic [OF iffD2 [OF reports_same r1], of "?c1\<lparr>m_position := q\<rparr>"] Some
      by (simp add: rule_events_def label_def Un_assoc)
    then have "reports (R \<union> set (rule_events nt p)) ?c4"
      using reports_same [of ?c4 ?c3] by simp
    then have "noted G (R \<union> set (rule_events nt p)) ?c4"
      by (rule noted_leave [OF s])
         (use same1 rule memo1 in \<open>simp_all, simp_all add: record_diagnostic_def frame_ids_def\<close>)
    then show ?thesis by (simp add: failed)
  qed
qed

lemma rule_matched_notes:
  assumes s: "noted G R s" "same_but_stack (rule, p) s c4" and rule: "known G (m_input s) R rule p"
  shows "post (rule_matched nt rule p st inner c4) (\<lambda>_. noted G R) E"
proof -
  obtain node c1 where b: "build_rule_node nt rule p (tree inner) c4 = (node, c1)"
    by (cases "build_rule_node nt rule p (tree inner) c4")
  then have same1: "report_of c1 = report_of c4" "frame_ids c1 = frame_ids c4" "m_input c1 = m_input c4" "m_mem c1 = m_mem c4"
    by (auto simp: build_rule_node_def Let_def make_node_def push_child_def upd_node_def report_of_def frame_ids_def
        split: if_splits option.splits)
  then have memo1: "memo_lookup r q c1 = memo_lookup r q c4" for r q
    by (simp add: memo_lookup_def)
  let ?c2 = "snd (update_rule_state rule p (st\<lparr>m_cached_result := ok_result (Some node)\<rparr>) c1)"
  have "reports R ?c2"
    using s same1 reports_same [of ?c2 s R] by (simp add: noted_def same_but_stack_def)
  then have "noted G R ?c2"
    by (rule noted_leave [OF s _ order_refl]) (use same1 rule in \<open>simp_all add: memo1\<close>)
  then show ?thesis by (simp add: rule_matched_def b Let_def)
qed

lemma noted_entered: "noted G R c \<Longrightarrow> noted G R (entered rule c)"
  using reports_same [of "entered rule c" c R] by (auto simp: noted_def entered_lookup)

context noting_parsers
begin

lemma nonterminal_notes:
  assumes c: "sound G c" "pending (Suc h) G c" "noted G R c" and rule: "defined_rule G rule"
    and ev: "ev (Suc h) G (m_input c) (RuleExpr rule) (m_position c) = Some res"
    and new: "ev h G (m_input c) (RuleExpr rule) (m_position c) = None"
  shows "post (nonterminal_parse n run G rule c)
    (\<lambda>_. noted G (R \<union> set (events (Suc h) G (m_input c) (RuleExpr rule) (m_position c)))) no_throw"
proof -
  define Rr where "Rr = R \<union> set (events (Suc h) G (m_input c) (RuleExpr rule) (m_position c))"
  obtain nt e where nt: "lookup_rule G rule = Some nt" "m_rule nt = Some e"
    using rule by (auto simp: defined_rule_def is_defined_def split: option.splits)
  obtain bres where bres: "Ec c e (m_position c) = Some bres" using ev nt by auto
  have idle: "(rule, m_position c) \<notin> set (frame_ids c)"
    using c(2) ev by (auto simp: pending_def simp del: ev.simps)
  have wfe: "wf_expr G e"
    using sound_wf [OF c(1)] wf_grammar_body [OF _ nt] by (simp add: wf_state_def)
  show ?thesis
    unfolding Rr_def [symmetric]
  proof (rule nonterminal_cases [OF nt(1)])
    assume "memo_lookup rule (m_position c) c = None"
    define Rb where "Rb = R \<union> set (Fc c e (m_position c))"
    have R: "Rr = Rb \<union> set (if bres = None then rule_events nt (m_position c) else [])"
      using nt bres by (auto simp: Rb_def Rr_def)
    have known: "known G (m_input c) Rr rule (m_position c)" using ev unfolding known_def Rr_def by blast
    show "post (parse_fresh n run nt rule (m_position c) (snd (rule_state rule (m_position c) c)))
        (\<lambda>_. noted G Rr) no_throw"
    proof (rule fresh_rule_after [where J = "\<lambda>b s. \<exists>R'. R \<subseteq> R' \<and> R' \<subseteq> Rb \<and> noted G R' s"
        and K = "\<lambda>b s. noted G Rb s \<and> m_input s = m_input c", OF c(1) pending_less [OF c(2)] nt new bres])
      fix b s assume s: "\<exists>R'. R \<subseteq> R' \<and> R' \<subseteq> Rb \<and> noted G R' s" "sound G s" "pending h G s"
        and same: "m_position s = m_position c" "m_input s = m_input c"
      then obtain R' where R': "R \<subseteq> R'" "R' \<subseteq> Rb" "noted G R' s" by blast
      have "R' \<union> set (Fc c e (m_position c)) = Rb" using R' by (auto simp: Rb_def)
      moreover have "post (run e s) (\<lambda>r c'. noted G (R' \<union> set (Fc s e (m_position s))) c' \<and>
          agrees bres r c' \<and> ok c' \<and> ret_rel G s r c') no_throw"
        using s same bres by (intro run_post wfe R'(3)) simp_all
      ultimately show "post (run e s) (\<lambda>r s'. noted G Rb s' \<and> m_input s' = m_input c) no_throw"
        using same step_input [of G s] by (auto elim!: post_mono simp: ret_rel_def)
    next
      fix b :: parse_result and s s' :: "'c ctx"
      assume s: "frame_step (rule, m_position c) s s'" "(rule, m_position c) \<in> set (frame_ids s)"
      have input: "m_input s' = m_input s" using s(1) by (simp add: frame_step_def)
      note step = noted_frame_step [OF _ s]
      show "\<exists>R'. R \<subseteq> R' \<and> R' \<subseteq> Rb \<and> noted G R' s'" if "\<exists>R'. R \<subseteq> R' \<and> R' \<subseteq> Rb \<and> noted G R' s"
        using that step by blast
      show "noted G Rb s' \<and> m_input s' = m_input c" if "noted G Rb s \<and> m_input s = m_input c"
        using that by (simp add: step input)
    next
      show "\<exists>R'. R \<subseteq> R' \<and> R' \<subseteq> Rb \<and> noted G R' (entered rule c)"
        using noted_entered [OF c(3)] by (auto simp: Rb_def)
    next
      fix inner st s c4
      assume s: "noted G Rb s \<and> m_input s = m_input c" "sound G s" "same_but_stack (rule, m_position c) s c4"
        and left: "rule_left G c bres inner st c4"
      have cut: "\<not> get_cut c4"
        using no_cuts_get_cut [OF sound_uncut [OF s(2)]] s(3) by (simp add: get_cut_def same_but_stack_def)
      show "post (if \<not> success inner then rule_failed nt rule (m_position c) st c4
          else rule_matched nt rule (m_position c) st inner c4) (\<lambda>_. noted G Rr) no_throw"
      proof (cases "success inner")
        case True
        then have "bres \<noteq> None" using left by (cases bres) (auto simp: rule_left_def grow_end_def)
        then have "Rr = Rb" using R by auto
        then show ?thesis
          using True s known rule_matched_notes [OF _ s(3), of G Rb nt st inner no_throw] by simp
      next
        case False
        then have "bres = None" using left by (cases bres) (auto simp: rule_left_def grow_end_def)
        then have "Rr = Rb \<union> set (rule_events nt (m_position c))" using R by simp
        then show ?thesis
          using False s known rule_failed_notes [OF _ s(3) cut, of G Rb nt no_throw st] by simp
      qed
    qed (auto simp: Rb_def)
  next
    fix st assume st: "memo_lookup rule (m_position c) c = Some st"
    have "known G (m_input c) R rule (m_position c)"
      using c(3) st idle by (auto simp: noted_def)
    then have "Rr = R" using known_events [OF _ ev] unfolding Rr_def by blast
    then show "post (reenter rule (m_position c) st c) (\<lambda>_. noted G Rr) no_throw"
      using rets_imp_post [OF reenter_entry [OF sound_wf [OF c(1)] st], of no_throw] noted_same [OF c(3)]
      by (auto simp: only_position_def simp del: events.simps elim!: post_mono)
  qed
qed

end

subsection \<open>The engine\<close>

lemma noting_parsersI:
  assumes "\<And>n e c R res. wf_expr G e \<Longrightarrow> sound G c \<and> pending h G c \<Longrightarrow> noted G R c \<Longrightarrow>
      ev h G (m_input c) e (m_position c) = Some res \<Longrightarrow>
      post (parse n G e c) (\<lambda>_. noted G (R \<union> set (events h G (m_input c) e (m_position c)))) no_throw"
  shows "noting_parsers G (parse n G) (run_skipper (\<lambda>r. parse n G (RuleExpr r))) h"
  using assms by (intro noting_parsers.intro noting_parsers_axioms.intro packrat.packrat_parsers_axioms) auto

lemma engine_notes:
  "wf_expr G e \<Longrightarrow> sound G c \<and> pending h G c \<Longrightarrow> noted G R c \<Longrightarrow> ev h G (m_input c) e (m_position c) = Some res \<Longrightarrow>
   post (parse n G e c) (\<lambda>_. noted G (R \<union> set (events h G (m_input c) e (m_position c)))) no_throw"
proof (induction h arbitrary: n e c R res)
  case 0
  then show ?case by simp
next
  case (Suc h)
  have kids: "noting_parsers G (parse m G) (run_skipper (\<lambda>r. parse m G (RuleExpr r))) h" for m
    by (rule noting_parsersI) (rule Suc.IH)
  have ok: "sound G c \<and> pending h G c" using Suc.prems(2) pending_less [of "Suc h" G c h] by simp
  show ?case
  proof (cases n)
    case 0
    then show ?thesis by simp
  next
    case n: (Suc m)
    show ?thesis
    proof (cases "\<exists>r. e = RuleExpr r")
      case True
      then obtain r where RuleExpr: "e = RuleExpr r" by blast
      show ?thesis
      proof (cases "ev h G (m_input c) (RuleExpr r) (m_position c)")
        case (Some res')
        then show ?thesis
          using Suc.IH [OF Suc.prems(1) ok Suc.prems(3)] events_more [OF Some, of "Suc h"] RuleExpr
          by (simp del: events.simps)
      next
        case None
        then show ?thesis
          using noting_parsers.nonterminal_notes [OF kids [of m] _ _ Suc.prems(3) _ _ None, of res m]
            Suc.prems(1,2,4) RuleExpr n by (simp del: events.simps)
      qed
    next
      case False
      then show ?thesis
        using noting_parsers.step_notes [OF kids [of m] refl refl Suc.prems(1) ok Suc.prems(3)] Suc.prems(4) n
        by blast
    qed
  qed
qed

interpretation noting: noting_parsers G "parse n G" "run_skipper (\<lambda>r. parse n G (RuleExpr r))" h
  for n h G
  by (rule noting_parsersI) (rule engine_notes)

end
