(* ===== verification/Error_Report.thy ===== *)
theory Error_Report
  imports Error_Events Grammar_Parse
begin

text \<open>
  The error reports of the entry points: the report of a failed parse, the diagnostics of
  rules that recover, where a recovering rule resumes, and when a failure has no report.
\<close>

subsection \<open>What \<open>take_error\<close> and \<open>take_diagnostics\<close> return\<close>

primrec failures :: "event list \<Rightarrow> (nat \<times> expected_item) list" where
  "failures [] = []"
| "failures (v # vs) = (case v of Failed p i \<Rightarrow> (p, i) # failures vs | Recovered d \<Rightarrow> failures vs)"

primrec recoveries :: "event list \<Rightarrow> diagnostic list" where
  "recoveries [] = []"
| "recoveries (v # vs) = (case v of Failed p i \<Rightarrow> recoveries vs | Recovered d \<Rightarrow> d # recoveries vs)"

text \<open>The largest position with a failure, and the items of all failures there.\<close>

definition furthest :: "(nat \<times> expected_item) list \<Rightarrow> diagnostic option" where
  "furthest fs =
     (if fs = [] then None
      else let p = Max (set (map fst fs))
        in Some (Diagnostic p (es_of_list (map snd (filter (\<lambda>f. fst f = p) fs)))))"

lemma set_failures: "(p, i) \<in> set (failures evs) \<longleftrightarrow> Failed p i \<in> set evs"
  by (induction evs) (auto split: event.split)

lemma set_recoveries: "set (recoveries evs) = {d. Recovered d \<in> set evs}"
  by (induction evs) (auto split: event.split)

lemma reports_take_error:
  assumes "reports (set evs) c"
  shows "fst (take_error c) = furthest (failures evs)"
proof (cases "m_has_error c")
  case False
  then have "failures evs = []"
    using assms set_failures [of _ _ evs] by (cases "failures evs") (auto simp: reports_def)
  then show ?thesis using False by (simp add: take_error_def furthest_def)
next
  case True
  let ?q = "m_furthest_failure_pos c"
  have fails: "p \<le> ?q" if "(p, i) \<in> set (failures evs)" for p i
    using that assms True by (auto simp: reports_def set_failures)
  obtain i where "i \<in> set (m_expected c)"
    using assms True by (cases "m_expected c") (auto simp: reports_def)
  then have i: "(?q, i) \<in> set (failures evs)" using assms True by (auto simp: reports_def set_failures)
  have max: "Max (set (map fst (failures evs))) = ?q"
  proof (rule Max_eqI)
    show "?q \<in> set (map fst (failures evs))" using i by force
  qed (use fails in auto)
  have "set (map snd (filter (\<lambda>f. fst f = ?q) fs)) = {i. (?q, i) \<in> set fs}" for fs :: "(nat \<times> expected_item) list"
    by (induction fs) auto
  then have items: "set (es_of_list (map snd (filter (\<lambda>f. fst f = ?q) (failures evs)))) = set (m_expected c)"
    using assms True by (simp add: reports_def es_of_list_sorted set_failures)
  have "sorted_wrt (<) (m_expected c)" using assms True by (simp add: reports_def)
  then have "m_expected c = es_of_list (map snd (filter (\<lambda>f. fst f = ?q) (failures evs)))"
    using items es_of_list_sorted(1) by (metis strict_sorted_equal)
  then show ?thesis
    using True i by (auto simp: take_error_def furthest_def Let_def max [simplified])
qed

lemma noted_start: "noted G {} (start_ctx s input)"
  by (simp add: noted_def reports_def memo_lookup_def start_ctx_def make_ctx_def internal_set_skipper_def)

text \<open>A parse that returns, as the client of \<open>Grammar::parse\<close> sees it.\<close>

lemma parse_rule_reports:
  assumes "wf_grammar G" "cut_free_grammar G" "g_skipper G = None" "defined_rule G rule"
    and "ev h G input (RuleExpr rule) 0 = Some res" and "fuel_bound G (RuleExpr rule) input \<le> n"
  shows "\<exists>r c. grammar_parse_rule n G rule (make_ctx input) = Ret (success r) c \<and>
    good G (start_ctx None input) res r c \<and> reports (set (events h G input (RuleExpr rule) 0)) c"
proof -
  let ?c = "start_ctx None input"
  have wf: "wf_expr G (RuleExpr rule)" using assms(4) by simp
  obtain r c where r: "parse n G (RuleExpr rule) ?c = Ret r c" "good G ?c res r c"
    using cut_free_agrees [OF assms(1,2) wf _ assms(5,6)] by auto
  have "post (parse n G (RuleExpr rule) ?c) (\<lambda>_. noted G ({} \<union> set (events h G (m_input ?c) (RuleExpr rule) (m_position ?c)))) no_throw"
    using assms(1,5) start_ctx_sound start_ctx_pending
    by (intro engine_notes [OF wf _ noted_start]) (auto simp del: ev.simps)
  then have "reports (set (events h G input (RuleExpr rule) 0)) c"
    using r(1) by (simp add: noted_def)
  moreover have "grammar_parse_rule n G rule (make_ctx input) = Ret (success r) c"
    using assms(3,4) r(1)
    by (auto simp: grammar_parse_rule_def enter_rule_def internal_set_skipper_start run_skipper_idle defined_rule_def
        split: option.splits)
  ultimately show ?thesis using r(2) by blast
qed

text \<open>
  C4: the error report of a parse is the one a naive evaluation would give: with a cut-free
  grammar and no skipper, whenever the recogniser gives the start rule a result, \<open>take_error\<close>
  returns the furthest position at which the evaluation without memo meets a failure, with
  exactly the items expected there (or nothing, if it meets no failure), and
  \<open>take_diagnostics\<close> the diagnostics of exactly the rules that recover in it. The memo loses no
  failure, the second run of the body of every rule that matches adds none, and the order of
  the failures does not matter.
\<close>

theorem error_report_correct:
  assumes "wf_grammar G" "cut_free_grammar G" "g_skipper G = None" "defined_rule G rule"
    and "ev h G input (RuleExpr rule) 0 = Some res" and "fuel_bound G (RuleExpr rule) input \<le> n"
  shows "\<exists>c. grammar_parse_rule n G rule (make_ctx input) = Ret (res \<noteq> None) c \<and>
    fst (take_error c) = furthest (failures (events h G input (RuleExpr rule) 0)) \<and>
    set (fst (take_diagnostics c)) = set (recoveries (events h G input (RuleExpr rule) 0))"
proof -
  obtain r c where r: "grammar_parse_rule n G rule (make_ctx input) = Ret (success r) c"
    "good G (start_ctx None input) res r c" "reports (set (events h G input (RuleExpr rule) 0)) c"
    using parse_rule_reports [OF assms] by blast
  have "success r = (res \<noteq> None)" using r(2) by (auto simp: agrees_def split: option.splits)
  moreover have "set (fst (take_diagnostics c)) = set (recoveries (events h G input (RuleExpr rule) 0))"
    using r(3) by (simp add: take_diagnostics_def set_recoveries reports_def)
  ultimately show ?thesis using r(1) reports_take_error [OF r(3)] by auto
qed

text \<open>
  \<open>S = T T 6\<close>, \<open>T = 0 1 | 0 2\<close>, where \<open>T\<close> resumes after the next \<open>3\<close>. In \<open>0 4 3 0 1 5\<close> the first
  \<open>T\<close> recovers after the \<open>3\<close>, the second matches, and a \<open>6\<close> is expected where the \<open>5\<close> is.
\<close>

definition statements_grammar :: "(nat, nat) grammar" where
  "statements_grammar =
     \<lparr>m_rules =
        [(''S'', new_non_terminal\<lparr>m_rule := Some (SequenceExpr
            [RuleExpr ''T'', RuleExpr ''T'', TerminalExpr (TValue 6)]), m_name := ''S''\<rparr>),
         (''T'', new_non_terminal\<lparr>m_rule := Some (AlternationExpr
            [SequenceExpr [TerminalExpr (TValue 0), TerminalExpr (TValue 1)],
             SequenceExpr [TerminalExpr (TValue 0), TokenExpr (TValue 2)]]), m_name := ''T'',
             m_recover := recover_set [3] ''statement''\<rparr>)],
      m_start = ''S'', g_skipper = None, g_ops = token_ops (Some dec_string) (\<le>)\<rparr>"

lemma statements_wf: "wf_grammar statements_grammar" "cut_free_grammar statements_grammar"
    "g_skipper statements_grammar = None" "defined_rule statements_grammar ''S''" "defined_rule statements_grammar ''T''"
  by (simp_all add: statements_grammar_def wf_grammar_def cut_free_grammar_def defined_rule_def
       lookup_rule_def is_defined_def new_non_terminal_def token_ops_def)

lemma statements_fuel: "fuel_bound statements_grammar (RuleExpr r) [0, 4, 3, 0] \<le> 500"
  by (simp add: statements_grammar_def fuel_bound_def grammar_size_def body_size_def new_non_terminal_def)

lemma statements_ev: "ev 12 statements_grammar [0, 4, 3, 0] (RuleExpr ''S'') 0 = Some None"
  by code_simp

lemma statements_report:
  "furthest (failures (events 12 statements_grammar [0, 4, 3, 0] (RuleExpr ''S'') 0)) =
     Some (Diagnostic 4 [ExpectedItem Literal ''<1>'', ExpectedItem Literal ''<2>'', ExpectedItem Literal ''<6>''])"
  "recoveries (events 12 statements_grammar [0, 4, 3, 0] (RuleExpr ''S'') 0) =
     [Diagnostic 0 [ExpectedItem RuleLabel ''statement''], Diagnostic 3 [ExpectedItem RuleLabel ''statement'']]"
  by code_simp+

theorem error_report_correct_witness:
  "\<exists>c. grammar_parse_rule 500 statements_grammar ''S'' (make_ctx [0, 4, 3, 0]) = Ret False c \<and>
     fst (take_error c) =
       Some (Diagnostic 4 [ExpectedItem Literal ''<1>'', ExpectedItem Literal ''<2>'', ExpectedItem Literal ''<6>'']) \<and>
     set (fst (take_diagnostics c)) =
       {Diagnostic 0 [ExpectedItem RuleLabel ''statement''], Diagnostic 3 [ExpectedItem RuleLabel ''statement'']}"
  using error_report_correct [OF statements_wf(1-4) statements_ev statements_fuel]
  unfolding statements_report by simp

lemma scan_sync_first:
  "p \<le> length input \<Longrightarrow> scan_sync sync input p \<le> length input \<and>
     (\<forall>j. p \<le> j \<longrightarrow> j < scan_sync sync input p \<longrightarrow> \<not> sync (input ! j)) \<and>
     (scan_sync sync input p < length input \<longrightarrow> sync (input ! scan_sync sync input p))"
proof (induction sync input p rule: scan_sync.induct)
  case (1 sync input p)
  show ?case
  proof (cases "p < length input \<and> \<not> sync (input ! p)")
    case True
    then have step: "scan_sync sync input p = scan_sync sync input (p + 1)"
      by (subst scan_sync.simps) simp
    have "\<not> sync (input ! j)" if "p \<le> j" "j < scan_sync sync input (p + 1)" for j
      using 1 True that by (cases "j = p") auto
    then show ?thesis using 1 True step by auto
  next
    case False
    then have "scan_sync sync input p = p" by (subst scan_sync.simps) auto
    then show ?thesis using 1 False by auto
  qed
qed

text \<open>
  C34: recovery, in a grammar without cuts and skipper: when the body of a rule with a
  recovery specification fails on the input, where the recogniser says so, the parse
  nevertheless succeeds. It resumes just after the first element the
  specification synchronises on, or at the end of the input if there is none, and the
  diagnostics tell where the rule began and what was expected.
\<close>

theorem recovery_resynchronises:
  assumes "wf_grammar G" "cut_free_grammar G" "g_skipper G = None" and nt: "lookup_rule G rule = Some nt" "m_rule nt = Some body"
    and sync: "is_sync_token (m_recover nt) = Some sync" and ev: "ev h G input body 0 = Some None"
    and n: "fuel_bound G (RuleExpr rule) input \<le> n"
  shows "\<exists>c. grammar_parse_rule n G rule (make_ctx input) = Ret True c \<and>
    ((\<exists>i < length input. sync (input ! i) \<and> (\<forall>j < i. \<not> sync (input ! j)) \<and> m_position c = i + 1) \<or>
     (\<forall>j < length input. \<not> sync (input ! j)) \<and> m_position c = length input) \<and>
    Diagnostic 0 (es_of_list [ExpectedItem RuleLabel
      (if rs_label (m_recover nt) = [] then m_name nt else rs_label (m_recover nt))]) \<in> set (fst (take_diagnostics c))"
proof -
  let ?q = "scan_sync sync input 0"
  have rule: "defined_rule G rule" using nt by (simp add: defined_rule_def is_defined_def)
  have res: "ev (Suc h) G input (RuleExpr rule) 0 = Some (Some (if ?q < length input then ?q + 1 else length input))"
    using nt sync ev by (simp add: ev_recover_def Let_def)
  obtain r c where r: "grammar_parse_rule n G rule (make_ctx input) = Ret (success r) c"
      "good G (start_ctx None input) (Some (if ?q < length input then ?q + 1 else length input)) r c"
      "reports (set (events (Suc h) G input (RuleExpr rule) 0)) c"
    using parse_rule_reports [OF assms(1-3) rule res n] by blast
  have "Recovered (Diagnostic 0 (es_of_list [ExpectedItem RuleLabel
      (if rs_label (m_recover nt) = [] then m_name nt else rs_label (m_recover nt))]))
      \<in> set (events (Suc h) G input (RuleExpr rule) 0)"
    using nt sync ev by (simp add: rule_events_def)
  then have diag: "Diagnostic 0 (es_of_list [ExpectedItem RuleLabel
      (if rs_label (m_recover nt) = [] then m_name nt else rs_label (m_recover nt))]) \<in> set (fst (take_diagnostics c))"
    using r(3) by (simp add: reports_def take_diagnostics_def del: events.simps)
  have ends: "success r" "m_position c = (if ?q < length input then ?q + 1 else length input)"
    using r(2) by (simp_all add: agrees_def)
  have "(\<exists>i < length input. sync (input ! i) \<and> (\<forall>j < i. \<not> sync (input ! j)) \<and> m_position c = i + 1) \<or>
     (\<forall>j < length input. \<not> sync (input ! j)) \<and> m_position c = length input"
    using scan_sync_first [of 0 input sync] ends(2) by (cases "?q < length input") auto
  then show ?thesis
    using r(1) ends(1) diag by (intro exI [of _ c]) simp
qed

lemma statements_body:
  "lookup_rule statements_grammar ''T'' = Some (new_non_terminal\<lparr>m_rule := Some (AlternationExpr
      [SequenceExpr [TerminalExpr (TValue 0), TerminalExpr (TValue 1)],
       SequenceExpr [TerminalExpr (TValue 0), TokenExpr (TValue 2)]]), m_name := ''T'',
       m_recover := recover_set [3] ''statement''\<rparr>)"
  by (simp add: statements_grammar_def lookup_rule_def)

lemma statements_body_ev:
  "ev 9 statements_grammar [0, 4, 3, 0] (AlternationExpr
      [SequenceExpr [TerminalExpr (TValue 0), TerminalExpr (TValue 1)],
       SequenceExpr [TerminalExpr (TValue 0), TokenExpr (TValue 2)]]) 0 = Some None"
  by code_simp

theorem recovery_resynchronises_witness:
  "\<exists>c. grammar_parse_rule 500 statements_grammar ''T'' (make_ctx [0, 4, 3, 0]) = Ret True c \<and>
     (\<exists>i < 4. [0, 4, 3, 0] ! i = (3 :: nat) \<and> m_position c = i + 1) \<and>
     Diagnostic 0 (es_of_list [ExpectedItem RuleLabel ''statement'']) \<in> set (fst (take_diagnostics c))"
proof -
  have ex: "\<exists>j < length [0, 4, 3, 0 :: nat]. [0, 4, 3, 0] ! j \<in> {3 :: nat}"
    by (rule exI [of _ 2]) simp
  show ?thesis
    using recovery_resynchronises [OF statements_wf(1-3) statements_body _ _ statements_body_ev statements_fuel, of "\<lambda>c. c \<in> {3}"] ex
    by (fastforce simp: recover_set_def)
qed

text \<open>
  C35: a failure is reported: when \<open>parse\<close> returns \<open>false\<close> for a rule with a label or a name, in a
  grammar without a skipper, then either it caught the exception of a committed cut, or
  \<open>take_error\<close> has a report.
\<close>

theorem failed_parse_reports:
  assumes nt: "lookup_rule G rule = Some nt" "m_label nt \<noteq> [] \<or> m_name nt \<noteq> []" and skipper: "g_skipper G = None"
    and fails: "grammar_parse_rule n G rule (make_ctx input) = Ret False c"
  shows "(\<exists>e. parse n G (RuleExpr rule) (start_ctx None input) = Throw e c) \<or> fst (take_error c) \<noteq> None"
proof -
  have error: "m_has_error (record_rule_failure nt p s)" for p and s :: "'a ctx"
    using nt(2) by (auto simp: record_rule_failure_def record_failure_def)
  have update: "m_has_error (snd (update_rule_state r p st s)) = m_has_error s" for r p st and s :: "'a ctx"
    by (simp add: update_rule_state_def split: option.split)
  have failed: "m_has_error c'" if "rule_failed nt rule p st s = Ret r c'" "\<not> success r" for p st s r and c' :: "'a ctx"
    using that by (auto simp: rule_failed_def Let_def error update bind_o_eq_Ret ok_result_def split: option.splits if_splits)
  have matched: "success r" if "rule_matched nt rule p st inner s = Ret r c'" for p st inner s r and c' :: "'a ctx"
    using that by (auto simp: rule_matched_def ok_result_def Let_def split: prod.splits)
  have enter: "grammar_parse_rule n G rule (make_ctx input) =
      inside_try False (bind_o (parse n G (RuleExpr rule) (start_ctx None input)) (\<lambda>r. Ret (success r)))"
    using nt(1) skipper
    by (simp add: grammar_parse_rule_def enter_rule_def internal_set_skipper_start run_skipper_idle)
  have new: "fst (fst (rule_state rule 0 (start_ctx None input :: 'a ctx)))"
    by (simp add: rule_state_def start_ctx_def make_ctx_def internal_set_skipper_def)
  show ?thesis
  proof (cases "parse n G (RuleExpr rule) (start_ctx None input)")
    case (Ret r c')
    then have r: "\<not> success r" "c' = c" using fails enter by simp_all
    obtain m where m: "n = Suc m" using Ret by (cases n) simp_all
    have "parse_fresh m (parse m G) nt rule 0 (snd (rule_state rule 0 (start_ctx None input))) = Ret r c'"
      using Ret new nt(1) m by (simp add: nonterminal_parse_def mark_def split: prod.splits)
    then have "m_has_error c'"
      using r(1) failed matched
      by (fastforce simp: parse_fresh_def Let_def bind_o_eq_Ret split: option.splits prod.splits if_splits)
    then show ?thesis using r(2) by (simp add: take_error_def)
  qed (use fails enter in auto)
qed

definition api_error_taken :: "('c, bool) api_outcome \<Rightarrow> (bool \<times> diagnostic option) option" where
  "api_error_taken m = (case m of Ret b c \<Rightarrow> Some (b, fst (take_error c)) | _ \<Rightarrow> None)"

text \<open>A left-recursive rule: \<open>A = A 1 | 2\<close>.\<close>

definition growing_grammar :: "(nat, nat) grammar" where
  "growing_grammar =
     \<lparr>m_rules = [(''A'', new_non_terminal\<lparr>m_rule := Some (AlternationExpr
        [SequenceExpr [RuleExpr ''A'', TerminalExpr (TValue 1)], TerminalExpr (TValue 2)]), m_name := ''A''\<rparr>)],
      m_start = ''A'', g_skipper = None, g_ops = token_ops None (\<le>)\<rparr>"

lemma growing_run:
  "\<exists>d. api_error_taken (grammar_parse_rule 9 growing_grammar ''A'' (make_ctx [3])) = Some (False, d)"
proof -
  have "map_option fst (api_error_taken (grammar_parse_rule 9 growing_grammar ''A'' (make_ctx [3]))) = Some False"
    by code_simp
  then show ?thesis by auto
qed

theorem failed_parse_reports_witness:
  "\<exists>c. grammar_parse_rule 9 growing_grammar ''A'' (make_ctx [3]) = Ret False c \<and>
     ((\<exists>e. parse 9 growing_grammar (RuleExpr ''A'') (start_ctx None [3]) = Throw e c) \<or> fst (take_error c) \<noteq> None)"
proof -
  obtain c where c: "grammar_parse_rule 9 growing_grammar ''A'' (make_ctx [3]) = Ret False c"
    using growing_run by (auto simp: api_error_taken_def split: outcome.splits)
  have "lookup_rule growing_grammar ''A'' = Some (new_non_terminal\<lparr>m_rule := Some (AlternationExpr
        [SequenceExpr [RuleExpr ''A'', TerminalExpr (TValue 1)], TerminalExpr (TValue 2)]), m_name := ''A''\<rparr>)"
    "g_skipper growing_grammar = None"
    by (simp_all add: growing_grammar_def lookup_rule_def)
  from failed_parse_reports [OF this(1) _ this(2) c] c show ?thesis by auto
qed

text \<open>\<open>S = ^ !0 | 1\<close>\<close>

definition silent_grammar :: "(nat, nat) grammar" where
  "silent_grammar =
     \<lparr>m_rules = [(''S'', new_non_terminal\<lparr>m_rule := Some (AlternationExpr
        [SequenceExpr [CutExpr, NotExpr (TerminalExpr (TValue 0))], TerminalExpr (TValue 1)]), m_name := ''S''\<rparr>)],
      m_start = ''S'', g_skipper = None, g_ops = token_ops None (\<le>)\<rparr>"

text \<open>
  The report can be missing: after a committed cut, a failure that no terminal and no
  rule records (a negated predicate, here) makes \<open>parse\<close> return \<open>false\<close> with no error to take,
  although its documentation sends the client to \<open>take_error\<close>.
\<close>

theorem silent_cut_failure:
  "api_error_taken (grammar_parse_rule 9 silent_grammar ''S'' (make_ctx [0])) = Some (False, None)"
  by code_simp

end
