(* ===== verification/Spec2Isabelle.thy ===== *)
theory Spec2Isabelle
  imports Source_Map Input_Source File_Iterator Expected Display Expr Operators Factories Safety Fuel Termination Packrat Grammar_Parse Dot Tree_Shape Left_Calls Left_Iteration Committed_Parse Error_Report
begin

text \<open>
  A verification library of peglib, a header-only C++ library of parsing expression
  grammars (\<open>src/include/peglib\<close>): a grammar is a map of named rules whose bodies are typed
  expression templates; a packrat engine with left recursion, cuts and error recovery parses
  an input into a tree; typed actions fold the tree into a value.

  The program's parts and their theories, in the order of the imports.

  \<^item> \<open>Prelude\<close>: outcomes of stateful code (a return, a C++ exception, a failed assertion, not
    enough fuel), their sequencing, scope guards, a calculus of postconditions
    (\<open>post\<close>, \<open>rets\<close>), and the list lemmas several components use.
  \<^item> \<open>Source_Map\<close> (\<open>SourceMap.h\<close>): offsets to lines and columns and back, in 64-bit
    arithmetic. \<open>prescan\<close> scans a text in memory, \<open>prescan_file\<close> a file through its page buffers;
    \<open>locate\<close>, \<open>offset_of\<close>, \<open>line_view\<close>, \<open>line_content\<close> are the queries, the last re-reading the
    file, whose state the map holds and passes on. \<open>File_Source\<close> (\<open>FileSource.h\<close>): a file read through two page buffers, as a state
    machine over \<open>get\<close> and \<open>release_before\<close>; \<open>File_Iterator\<close> its iterators and its move.
    \<open>Input_Source\<close> (\<open>InputSource.h\<close>): the interface of
    the inputs as a locale, with its two implementations and \<open>slice\<close>.
  \<^item> \<open>Expected\<close>, \<open>Display\<close> (\<open>ParseError.h\<close>): the sorted set of expected items; the display and
    the escaping of elements, with a reader of the quoted literals; the text of a diagnostic.
  \<^item> \<open>Parse_Context\<close> (\<open>Context.h\<close>): the state of a parse as the record \<open>ctx\<close> (position, node
    arena, memo, stack of running rules, growing heads, cut scopes, skipper, furthest failure,
    diagnostics) and every operation on it.
  \<^item> \<open>Expr\<close> (\<open>Rule.h\<close>, \<open>Recover.h\<close>, the fields of the expression classes): the datatype
    \<open>expr\<close>, one constructor for each class template, the operators that build expressions,
    the recovery specifications and the record of a rule. \<open>Operators\<close>: what the operators mean
    to the recogniser, although they merge sequences, choices and repetitions.
  \<^item> \<open>Terminals\<close> (\<open>Terminals.h\<close>, \<open>ParserFwd.h\<close>), \<open>Combinators\<close> (\<open>Combinators.h\<close>), \<open>Non_Terminal\<close>
    (\<open>NonTerminal.h\<close>): \<open>parse\<close> of each class, and \<open>Engine\<close>: the virtual call \<open>parse\<close> that ties
    them together.
  \<^item> \<open>Factories\<close> (\<open>Grammar.h\<close>): the functions that make terminals, tokens, matchers and the
    other leaves; with the operators they build only well-formed expressions.
  \<^item> \<open>Grammar_Rules\<close>, \<open>Grammar_Build\<close>, \<open>Rule_Graph\<close>, \<open>Dot\<close>, \<open>Grammar_Parse\<close> (\<open>Grammar.h\<close> and the
    handles of \<open>NonTerminal.h\<close>): the rule table, the assignments and settings of rules, the
    analyses, the DOT text, and the entry points with their exceptions.
  \<^item> \<open>Result_Types\<close>, \<open>Typed_Fold\<close>, \<open>Fold_Cases\<close> (\<open>ResultType.h\<close>, \<open>Grammar::parse_ast\<close>): the
    compile-time result types as data, the fold of the tree by the static type of a rule's
    body, the call of the actions, and concrete runs at the limits of the fold.

  The state of the model. A \<open>Context\<close> is the record \<open>ctx\<close>, passed and returned. Pointers
  into the node arena are indices (\<open>node_ref\<close>; \<open>None\<close> is a null pointer); the pointer of a
  rule is its name in the grammar's table; the frame of a running rule, whose address is on
  the context's stack in the source, is the stack's entry. An assertion that fails, and the
  use of a null pointer, is \<open>Fault\<close>. The input is the list of its elements, which the input
  adapters are proved to show. Element types and their order are parameters
  (\<open>elem_ops\<close>); actions, matchers and hooks are functions of what the library gives them.

  What the groups of lemmas show.

  \<^item> \<open>Contract\<close>, \<open>Rule_Contract\<close>: each operation of the engine keeps well-formed states
    (\<open>wf_state\<close>) and relates the contexts before and after (\<open>ret_rel\<close>, \<open>throw_rel\<close>). \<open>Safety\<close>
    draws the conclusions: no assertion fires, scopes are restored, positions are in bounds,
    what an exception leaves behind: the frames of the rules it left stay on the stack.
  \<^item> \<open>Termination\<close>, \<open>Fuel\<close>: the model's recursion is bounded by a fuel argument; a cut-free
    parse returns within \<open>fuel_bound\<close> nested calls, and more fuel changes nothing. The bound
    counts the pairs of a rule and a position, since a running rule is not entered twice at a
    position. With cuts the memo entry of a running left-recursive rule can be dropped, and no
    bound holds.
  \<^item> \<open>Recogniser\<close>, \<open>Packrat\<close>: the reference semantics of parsing expressions without memo, and
    the proof that the engine computes it and leaves only sound memo entries. Two theories
    hold what that proof shares with others: \<open>Growth\<close> the growth loop of a rule, for any result
    of its body as a function of the seed, and \<open>Agreement\<close> the composite expressions, for any
    evaluator and invariant, with aborts and total correctness, and the soundness of the memo.
  \<^item> \<open>Reference\<close>, \<open>Commitment\<close>, \<open>Committed_Parse\<close>: the semantics of the whole language, with cuts,
    the skipper and \<open>lexeme\<close>; erasing cuts never changes a result it gives; the engine computes
    it, exceptions included, for grammars whose rules keep their cuts inside and are used in one
    skipping mode. The memo keeps neither cuts nor modes: a concrete run shows a cut it forgets.
  \<^item> \<open>Error_Events\<close>, \<open>Error_Report\<close>: the failures and recoveries the recogniser meets, as a list;
    the engine, which keeps only the furthest failures and evaluates less (memo) and more (the
    growth loop runs a matching body twice), reports the same. Where a recovering rule resumes,
    and when a failed parse leaves a report: always without cuts, not always with them.
  \<^item> \<open>Left_Recursion\<close>: a recogniser that grows seeds, which the engine computes for direct left
    recursion. \<open>Match_Ends\<close>, \<open>Decided\<close>: where matches end, and syntactic tests under which
    every expression has a result, without left recursion and with direct left recursion.
    \<open>Left_Iteration\<close>: direct left recursion is iteration; what it is not good for, a base
    that matches without consuming, and what indirect left recursion leaves in the memo.
  \<^item> \<open>Values\<close>, \<open>Denotation\<close>, \<open>Tree_State\<close>, \<open>Tree_Combinators\<close>, \<open>Tree_Values\<close>: the reference
    semantics with values, what a node of the arena denotes, and the proof that the trees the
    engine builds denote those values and that the fold computes them: \<open>parse_ast\<close> is correct.
  \<^item> \<open>Tree_Shape\<close>: for every grammar the tree of a parse is acyclic and inside the arena, so the
    walk that fires the hooks ends, within as many calls as there are nodes, and fires the
    right ones. A node under construction is kept out of the memo and of every result.
  \<^item> \<open>Left_Calls\<close>: without left recursion the reference semantics is total, with its values,
    and the theorems above speak of every input.
  \<^item> \<open>Quiet\<close>: the operations that leave memo and stack alone keep every invariant over those;
    a locale the invariants of termination and of soundness instantiate.

  Interfaces are locales, each interpreted on the model: \<open>input_source\<close> (span and paged
  inputs), \<open>item_store\<close> (the expected set), \<open>record_table\<close> (the rules of a grammar),
  \<open>quiet_invariant\<close>, \<open>child_parsers\<close> and its extensions \<open>meeting_parsers\<close>, \<open>agreeing_parsers\<close>,
  \<open>packrat_parsers\<close>, \<open>noting_parsers\<close>, \<open>growing_parsers\<close>, \<open>committed_parsers\<close>, \<open>total_parsers\<close>,
  \<open>tree_parsers\<close>, \<open>shaped_parsers\<close> (what a composite expression relies on in its children; the engine itself is the instance), \<open>typed_children\<close> (the same for the fold),
  \<open>fuel_steps\<close> (the same with more fuel), \<open>at_position\<close> (an evaluator at one position of the
  input).

  Not modelled: the constraints of \<open>Concepts.h\<close> and the parts of \<open>ResultType.h\<close> that only
  type check (\<open>concat\<close>, \<open>head\<close>, \<open>action_applyable\<close>), which have no run-time behaviour; the umbrella
  headers; the lifetimes of objects (a context over a temporary, a handle of a
  destroyed grammar beyond the assertion that catches it in a debug build); the file system beyond the items of a file. Tests, examples and
  third-party code are not part of the library.
\<close>

end
